(* ===== verification/Irc_Prelude.thy ===== *)
theory Irc_Prelude
  imports Main "HOL-Library.Word" "HOL-Library.Sublist"
begin

text \<open>
  Shared vocabulary of the development. A C string is the list of its bytes before the
  terminating NUL (\<open>cstring\<close>), and \<^term>\<open>c_at s i\<close> reads byte \<open>i\<close> of the
  buffer that holds it: the terminating NUL is readable at index \<open>strlen s\<close>. What the C
  program does beyond returning a value is a \<open>fault\<close>: a failed \<^verbatim>\<open>assert\<close>, an
  access through a null pointer, a read past the terminating NUL, a write past the end
  of an array, an access to freed memory, or \<^verbatim>\<open>abort()\<close>. Functions that can do so return \<open>fault + 'a\<close>.
\<close>

type_synonym cstring = string

datatype fault = Assert_Failed | Null_Deref | Over_Read | Array_Overflow | Aborted | Uninit_Read | Use_After_Free

abbreviation NUL :: char where
  "NUL \<equiv> CHR 0x00"

definition cstr :: "cstring \<Rightarrow> bool" where
  "cstr s \<longleftrightarrow> NUL \<notin> set s"

definition c_at :: "cstring \<Rightarrow> nat \<Rightarrow> char" where
  "c_at s i = (if i < length s then s ! i else NUL)"

named_theorems cchar_simps \<open>byte classes and case folding as arithmetic on codes\<close>
named_theorems abs_simps \<open>abstraction functions after an operation\<close>
named_theorems inv_intros \<open>operations that keep an invariant\<close>

section \<open>C strings\<close>

lemma cstr_Nil [simp]: "cstr []"
  by (simp add: cstr_def)

lemma cstr_Cons [simp]: "cstr (c # s) \<longleftrightarrow> c \<noteq> NUL \<and> cstr s"
  by (auto simp: cstr_def)

lemma cstr_append [simp]: "cstr (s @ t) \<longleftrightarrow> cstr s \<and> cstr t"
  by (auto simp: cstr_def)

lemma cstr_take [simp]: "cstr s \<Longrightarrow> cstr (take n s)"
  by (auto simp: cstr_def dest: in_set_takeD)

lemma cstr_drop [simp]: "cstr s \<Longrightarrow> cstr (drop n s)"
  by (auto simp: cstr_def dest: in_set_dropD)

lemma cstr_nth [simp]: "cstr s \<Longrightarrow> i < length s \<Longrightarrow> s ! i \<noteq> NUL"
  by (metis cstr_def nth_mem)

lemma c_at_less [simp]: "i < length s \<Longrightarrow> c_at s i = s ! i"
  by (simp add: c_at_def)

lemma c_at_end [simp]: "length s \<le> i \<Longrightarrow> c_at s i = NUL"
  by (simp add: c_at_def)

lemma c_at_NUL_iff: "cstr s \<Longrightarrow> c_at s i = NUL \<longleftrightarrow> length s \<le> i"
  by (auto simp: c_at_def)

lemma c_at_NUL_D: "cstr s \<Longrightarrow> c_at s i \<noteq> NUL \<Longrightarrow> i < length s"
  by (simp add: c_at_NUL_iff)

section \<open>Lists\<close>

lemma takeWhile_dropWhile_length:
  "length (takeWhile P xs) + length (dropWhile P xs) = length xs"
  by (metis length_append takeWhile_dropWhile_id)

lemma dropWhile_eq_drop_length: "dropWhile P xs = drop (length (takeWhile P xs)) xs"
  by (metis append_eq_conv_conj takeWhile_dropWhile_id)

lemma dropWhile_Cons_D: "dropWhile P xs = y # ys \<Longrightarrow> \<not> P y"
  by (metis dropWhile_eq_Cons_conv)

lemma length_dropWhile_less: "P x \<Longrightarrow> length (dropWhile P (x # xs)) < length (x # xs)"
  by (simp add: le_imp_less_Suc length_dropWhile_le)

lemma concat_butlast_last: "xss \<noteq> [] \<Longrightarrow> concat (butlast xss) @ last xss = concat xss"
  by (metis append_butlast_last_id concat.simps concat_append append_Nil2)

lemma find_SomeD: "find P xs = Some x \<Longrightarrow> x \<in> set xs \<and> P x"
  by (auto simp: find_Some_iff)

lemma find_append: "find P (xs @ ys) = (case find P xs of None \<Rightarrow> find P ys | Some x \<Rightarrow> Some x)"
  by (induction xs) auto

lemma find_cong_set: "(\<And>x. x \<in> set xs \<Longrightarrow> P x = Q x) \<Longrightarrow> find P xs = find Q xs"
  by (induction xs) auto

lemma all_nonempty_append_last:
  "xss \<noteq> [] \<Longrightarrow> [] \<notin> set (butlast xss) \<Longrightarrow> last xss \<noteq> [] \<Longrightarrow> [] \<notin> set xss"
  by (metis append_butlast_last_id rotate1.simps(2) set_ConsD set_rotate1)

section \<open>Machine words\<close>

lemma unat_of_nat_32: "n < 2 ^ 32 \<Longrightarrow> unat (of_nat n :: 32 word) = n"
  by (simp add: unat_of_nat take_bit_nat_eq_self)

end
