(* ===== verification/Dbuf.thy ===== *)
theory Dbuf
  imports Irc_Prelude
begin

text \<open>
  The dynamic buffer of \<^verbatim>\<open>src/dbuf.c\<close>: every socket keeps its received and its unsent
  bytes in one. A \<^verbatim>\<open>dbuf\<close> is a list of fixed-size blocks and a byte count of type
  \<^verbatim>\<open>u_int\<close>; a block is modelled by the first \<^verbatim>\<open>size\<close> bytes of its \<^verbatim>\<open>data\<close>
  array, the only ones the code reads. The locale \<open>byte_stream\<close> is the contract the
  rest of the server relies on (a first-in first-out queue of bytes); the
  interpretation at the end discharges it for the block structure. \<^verbatim>\<open>dbuf_getmsg\<close> is
  shown equal to a specification over the flat byte stream.
\<close>

section \<open>The model\<close>

definition DBUF_BLOCK_SIZE :: nat where
  "DBUF_BLOCK_SIZE = 4072 + 4096"

definition READBUFSIZE :: nat where
  "READBUFSIZE = 16384"

type_synonym dbufbuf = "char list"

record dbuf =
  dbuf_length :: "32 word"
  dbuf_list :: "dbufbuf list"

definition dbuf_queue_init :: dbuf where
  "dbuf_queue_init = \<lparr>dbuf_length = 0, dbuf_list = []\<rparr>"

definition dbuf_alloc :: "dbuf \<Rightarrow> dbuf" where
  "dbuf_alloc d = d\<lparr>dbuf_list := dbuf_list d @ [[]]\<rparr>"

text \<open>
  One pass of the copy loop of \<^verbatim>\<open>dbuf_put\<close>: the last block, or a fresh one when it is
  full, takes as many bytes as it has room for.
\<close>

definition put_room :: "dbuf \<Rightarrow> dbuf \<times> nat" where
  "put_room d =
     (let amount = DBUF_BLOCK_SIZE - length (last (dbuf_list d))
      in if amount = 0 then (dbuf_alloc d, DBUF_BLOCK_SIZE) else (d, amount))"

lemma put_room_pos: "put_room d = (d1, room) \<Longrightarrow> 0 < room"
  by (auto simp: put_room_def Let_def DBUF_BLOCK_SIZE_def split: if_splits)

function dbuf_put_loop :: "dbuf \<Rightarrow> char list \<Rightarrow> dbuf" where
  "dbuf_put_loop d buf =
     (if buf = [] then d
      else
        (let (d1, room) = put_room d;
             amount = (if room > length buf then length buf else room);
             block = last (dbuf_list d1) @ take amount buf
         in dbuf_put_loop
              \<lparr>dbuf_length = dbuf_length d1 + of_nat amount,
               dbuf_list = butlast (dbuf_list d1) @ [block]\<rparr>
              (drop amount buf)))"
  by pat_completeness auto
termination
  by (relation "measure (\<lambda>(d, buf). length buf)") (auto dest: put_room_pos [OF sym])

definition dbuf_put :: "dbuf \<Rightarrow> char list \<Rightarrow> fault + dbuf" where
  "dbuf_put d buf =
     (if \<not> length buf > 0 then Inl Assert_Failed
      else Inr (dbuf_put_loop (if dbuf_list d = [] then dbuf_alloc d else d) buf))"

text \<open>
  \<^verbatim>\<open>dbuf_delete\<close> frees whole blocks from the front and then shifts the rest of the
  block it stops in. Running out of blocks would treat the list head as a block.
\<close>

fun dbuf_delete_loop :: "32 word \<Rightarrow> dbufbuf list \<Rightarrow> nat \<Rightarrow> fault + dbuf" where
  "dbuf_delete_loop len bs n =
     (if n = 0 then Inr \<lparr>dbuf_length = len, dbuf_list = bs\<rparr>
      else case bs of
        [] \<Rightarrow> Inl Over_Read
      | block # rest \<Rightarrow>
          if n < length block
          then Inr \<lparr>dbuf_length = len - of_nat n, dbuf_list = drop n block # rest\<rparr>
          else dbuf_delete_loop (len - of_nat (length block)) rest (n - length block))"

definition dbuf_delete :: "dbuf \<Rightarrow> nat \<Rightarrow> fault + dbuf" where
  "dbuf_delete d n =
     (if \<not> unat (dbuf_length d) \<ge> n then Inl Assert_Failed
      else if n = 0 then Inr d
      else dbuf_delete_loop (dbuf_length d) (dbuf_list d) n)"

text \<open>
  The scanner of \<^verbatim>\<open>dbuf_getmsg\<close>. \<open>Inl\<close> is the return from inside the loops, at the
  first byte of the next line; \<open>Inr\<close> carries the state on.
\<close>

record getmsg_state =
  line_bytes :: nat
  empty_bytes :: nat
  phase :: nat
  copied :: "char list"

definition getmsg_step :: "char \<Rightarrow> getmsg_state \<Rightarrow> getmsg_state + getmsg_state" where
  "getmsg_step c st =
     (if c = CHR 0x0D \<or> c = CHR 0x0A \<or> (c = CHR '' '' \<and> phase st \<noteq> 1)
      then Inr (st\<lparr>empty_bytes := empty_bytes st + 1,
                   phase := (if phase st = 1 then 2 else phase st)\<rparr>)
      else if phase st = 0 \<or> phase st = 1
      then Inr (st\<lparr>phase := 1,
                   line_bytes := line_bytes st + 1,
                   copied := (if line_bytes st < READBUFSIZE - 2
                              then copied st @ [c] else copied st)\<rparr>)
      else Inl st)"

fun getmsg_block :: "dbufbuf \<Rightarrow> getmsg_state \<Rightarrow> getmsg_state + getmsg_state" where
  "getmsg_block [] st = Inr st"
| "getmsg_block (c # cs) st =
     (case getmsg_step c st of Inl st' \<Rightarrow> Inl st' | Inr st' \<Rightarrow> getmsg_block cs st')"

fun getmsg_blocks :: "dbufbuf list \<Rightarrow> getmsg_state \<Rightarrow> getmsg_state + getmsg_state" where
  "getmsg_blocks [] st = Inr st"
| "getmsg_blocks (b # bs) st =
     (case getmsg_block b st of Inl st' \<Rightarrow> Inl st' | Inr st' \<Rightarrow> getmsg_blocks bs st')"

definition getmsg_init :: getmsg_state where
  "getmsg_init = \<lparr>line_bytes = 0, empty_bytes = 0, phase = 0, copied = []\<rparr>"

definition dbuf_getmsg :: "dbuf \<Rightarrow> fault + (nat \<times> char list \<times> dbuf)" where
  "dbuf_getmsg d =
     (case getmsg_blocks (dbuf_list d) getmsg_init of
        Inl st \<Rightarrow>
          (case dbuf_delete d (line_bytes st + empty_bytes st) of
             Inl e \<Rightarrow> Inl e
           | Inr d' \<Rightarrow> Inr (min (line_bytes st) (READBUFSIZE - 2), copied st, d'))
      | Inr st \<Rightarrow>
          (let lb = (if phase st \<noteq> 2 then 0 else line_bytes st);
               buf = (if phase st \<noteq> 2 then [] else copied st)
           in case dbuf_delete d (lb + empty_bytes st) of
                Inl e \<Rightarrow> Inl e
              | Inr d' \<Rightarrow> Inr (min lb (READBUFSIZE - 2), buf, d')))"

definition dbuf_get :: "dbuf \<Rightarrow> fault + (nat \<times> char list \<times> dbuf)" where
  "dbuf_get d =
     (let bytes = sum_list (map length (dbuf_list d))
      in case dbuf_delete d bytes of
           Inl e \<Rightarrow> Inl e
         | Inr d' \<Rightarrow> Inr (bytes, concat (dbuf_list d), d'))"

section \<open>Invariant and abstraction\<close>

definition dbuf_bytes :: "dbuf \<Rightarrow> char list" where
  "dbuf_bytes d = concat (dbuf_list d)"

definition dbuf_inv :: "dbuf \<Rightarrow> bool" where
  "dbuf_inv d \<longleftrightarrow>
     dbuf_length d = of_nat (length (dbuf_bytes d))
     \<and> length (dbuf_bytes d) < 2 ^ 32
     \<and> (\<forall>b \<in> set (dbuf_list d). b \<noteq> [] \<and> length b \<le> DBUF_BLOCK_SIZE)"

section \<open>Appending\<close>

declare dbuf_put_loop.simps [simp del] dbuf_delete_loop.simps [simp del]

lemma put_room_props:
  assumes "put_room d = (d1, room)" "dbuf_list d \<noteq> []"
    and "\<forall>b \<in> set (dbuf_list d). length b \<le> DBUF_BLOCK_SIZE"
  shows "dbuf_list d1 \<noteq> []" "concat (dbuf_list d1) = concat (dbuf_list d)"
    and "dbuf_length d1 = dbuf_length d"
    and "\<forall>b \<in> set (dbuf_list d1). length b \<le> DBUF_BLOCK_SIZE"
    and "length (last (dbuf_list d1)) + room \<le> DBUF_BLOCK_SIZE"
    and "[] \<notin> set (butlast (dbuf_list d)) \<Longrightarrow> [] \<notin> set (butlast (dbuf_list d1))"
proof -
  have last: "last (dbuf_list d) \<in> set (dbuf_list d)"
    using assms(2) by simp
  have ne: "[] \<notin> set (butlast (dbuf_list d)) \<Longrightarrow> last (dbuf_list d) \<noteq> [] \<Longrightarrow> [] \<notin> set (dbuf_list d)"
    using assms(2) by (rule all_nonempty_append_last)
  show "dbuf_list d1 \<noteq> []" "concat (dbuf_list d1) = concat (dbuf_list d)"
    "dbuf_length d1 = dbuf_length d"
    "\<forall>b \<in> set (dbuf_list d1). length b \<le> DBUF_BLOCK_SIZE"
    "length (last (dbuf_list d1)) + room \<le> DBUF_BLOCK_SIZE"
    using assms last by (auto simp: put_room_def dbuf_alloc_def Let_def split: if_splits)
  show "[] \<notin> set (butlast (dbuf_list d1))" if "[] \<notin> set (butlast (dbuf_list d))"
  proof (cases "last (dbuf_list d) = []")
    case True
    then show ?thesis using assms(1) that
      by (auto simp: put_room_def Let_def DBUF_BLOCK_SIZE_def)
  next
    case False
    then show ?thesis using assms(1) that ne
      by (auto simp: put_room_def dbuf_alloc_def Let_def split: if_splits)
  qed
qed

lemma dbuf_put_loop_correct:
  assumes "dbuf_list d \<noteq> []" "\<forall>b \<in> set (dbuf_list d). length b \<le> DBUF_BLOCK_SIZE"
    and "[] \<notin> set (butlast (dbuf_list d))" "buf = [] \<Longrightarrow> last (dbuf_list d) \<noteq> []"
  shows "concat (dbuf_list (dbuf_put_loop d buf)) = concat (dbuf_list d) @ buf
    \<and> dbuf_length (dbuf_put_loop d buf) = dbuf_length d + of_nat (length buf)
    \<and> (\<forall>b \<in> set (dbuf_list (dbuf_put_loop d buf)). b \<noteq> [] \<and> length b \<le> DBUF_BLOCK_SIZE)"
  using assms
proof (induction buf arbitrary: d rule: measure_induct_rule [of length])
  case (less buf)
  show ?case
  proof (cases "buf = []")
    case True
    have "[] \<notin> set (dbuf_list d)"
      using less.prems(1,3) less.prems(4) [OF True] by (rule all_nonempty_append_last)
    moreover have "dbuf_put_loop d buf = d"
      using True by (subst dbuf_put_loop.simps) simp
    ultimately show ?thesis using True less.prems(2) by auto
  next
    case False
    obtain d1 room where room: "put_room d = (d1, room)" by fastforce
    define amount where "amount = (if room > length buf then length buf else room)"
    define d2 where "d2 = \<lparr>dbuf_length = dbuf_length d1 + of_nat amount,
      dbuf_list = butlast (dbuf_list d1) @ [last (dbuf_list d1) @ take amount buf]\<rparr>"
    note pr = put_room_props [OF room less.prems(1,2)]
    have step: "dbuf_put_loop d buf = dbuf_put_loop d2 (drop amount buf)"
      using False room by (subst dbuf_put_loop.simps) (simp add: amount_def d2_def Let_def)
    have pos: "0 < amount" "amount \<le> length buf" "amount \<le> room"
      using put_room_pos [OF room] False by (auto simp: amount_def)
    have d2: "dbuf_list d2 \<noteq> []" "last (dbuf_list d2) \<noteq> []" "[] \<notin> set (butlast (dbuf_list d2))"
      "\<forall>b \<in> set (dbuf_list d2). length b \<le> DBUF_BLOCK_SIZE"
      using pr(4,5) pr(6) [OF less.prems(3)] pos False
      by (auto simp: d2_def dest: in_set_butlastD)
    have cat: "concat (dbuf_list d2) = concat (dbuf_list d) @ take amount buf"
      using pr(1,2) concat_butlast_last [OF pr(1)] by (simp add: d2_def flip: append_assoc)
    have len: "dbuf_length d2 = dbuf_length d + of_nat amount"
      by (simp add: d2_def pr(3))
    have shorter: "length (drop amount buf) < length buf"
      using pos by simp
    have IH: "concat (dbuf_list (dbuf_put_loop d2 (drop amount buf))) = concat (dbuf_list d2) @ drop amount buf
      \<and> dbuf_length (dbuf_put_loop d2 (drop amount buf)) = dbuf_length d2 + of_nat (length (drop amount buf))
      \<and> (\<forall>b \<in> set (dbuf_list (dbuf_put_loop d2 (drop amount buf))). b \<noteq> [] \<and> length b \<le> DBUF_BLOCK_SIZE)"
      using less.IH [OF shorter d2(1,4,3)] d2(2) by blast
    have "of_nat amount + of_nat (length buf - amount) = (of_nat (length buf) :: 32 word)"
      using pos(2) by (simp flip: of_nat_add)
    with IH show ?thesis
      by (simp add: step cat len add.assoc)
  qed
qed

lemma dbuf_put_correct:
  assumes "dbuf_inv d" "buf \<noteq> []" "length (dbuf_bytes d) + length buf < 2 ^ 32"
  shows "\<exists>d'. dbuf_put d buf = Inr d' \<and> dbuf_inv d' \<and> dbuf_bytes d' = dbuf_bytes d @ buf"
proof -
  let ?d = "if dbuf_list d = [] then dbuf_alloc d else d"
  have "concat (dbuf_list (dbuf_put_loop ?d buf)) = concat (dbuf_list ?d) @ buf
    \<and> dbuf_length (dbuf_put_loop ?d buf) = dbuf_length ?d + of_nat (length buf)
    \<and> (\<forall>b \<in> set (dbuf_list (dbuf_put_loop ?d buf)). b \<noteq> [] \<and> length b \<le> DBUF_BLOCK_SIZE)"
    using assms(1,2)
    by (intro dbuf_put_loop_correct) (auto simp: dbuf_inv_def dbuf_alloc_def dest: in_set_butlastD)
  moreover have "dbuf_length ?d = dbuf_length d" "concat (dbuf_list ?d) = dbuf_bytes d"
    by (auto simp: dbuf_alloc_def dbuf_bytes_def)
  ultimately show ?thesis
    using assms
    by (intro exI [of _ "dbuf_put_loop ?d buf"]) (simp add: dbuf_put_def dbuf_inv_def dbuf_bytes_def)
qed

section \<open>Deleting\<close>

lemma dbuf_delete_loop_0: "dbuf_delete_loop len bs 0 = Inr \<lparr>dbuf_length = len, dbuf_list = bs\<rparr>"
  by (simp add: dbuf_delete_loop.simps)

lemma dbuf_delete_loop_Cons:
  "0 < n \<Longrightarrow> dbuf_delete_loop len (b # bs) n =
     (if n < length b
      then Inr \<lparr>dbuf_length = len - of_nat n, dbuf_list = drop n b # bs\<rparr>
      else dbuf_delete_loop (len - of_nat (length b)) bs (n - length b))"
  by (subst dbuf_delete_loop.simps) simp

lemma dbuf_delete_loop_correct:
  assumes "\<forall>b \<in> set bs. b \<noteq> [] \<and> length b \<le> DBUF_BLOCK_SIZE" "n \<le> length (concat bs)"
  shows "\<exists>bs'. dbuf_delete_loop len bs n = Inr \<lparr>dbuf_length = len - of_nat n, dbuf_list = bs'\<rparr>
    \<and> concat bs' = drop n (concat bs)
    \<and> (\<forall>b \<in> set bs'. b \<noteq> [] \<and> length b \<le> DBUF_BLOCK_SIZE)"
  using assms
proof (induction bs arbitrary: len n)
  case Nil
  then show ?case by (simp add: dbuf_delete_loop_0)
next
  case (Cons b bs)
  consider "n = 0" | "0 < n" "n < length b" | "0 < n" "length b \<le> n" by linarith
  then show ?case
  proof cases
    case 3
    have rest: "\<forall>b \<in> set bs. b \<noteq> [] \<and> length b \<le> DBUF_BLOCK_SIZE"
      "n - length b \<le> length (concat bs)"
      using Cons.prems 3 by auto
    from Cons.IH [OF rest, of "len - of_nat (length b)"]
    obtain bs' where bs': "dbuf_delete_loop (len - of_nat (length b)) bs (n - length b)
        = Inr \<lparr>dbuf_length = len - of_nat (length b) - of_nat (n - length b), dbuf_list = bs'\<rparr>"
      "concat bs' = drop (n - length b) (concat bs)"
      "\<forall>b \<in> set bs'. b \<noteq> [] \<and> length b \<le> DBUF_BLOCK_SIZE"
      by (elim exE conjE) (rule that)
    have "len - of_nat (length b) - of_nat (n - length b) = len - of_nat n"
      using 3 by simp
    with 3 bs' show ?thesis
      by (intro exI [of _ bs']) (simp add: dbuf_delete_loop_Cons)
  next
    case 1
    then show ?thesis
      using Cons.prems by (intro exI [of _ "b # bs"]) (simp add: dbuf_delete_loop_0)
  next
    case 2
    then show ?thesis
      using Cons.prems by (intro exI [of _ "drop n b # bs"]) (auto simp: dbuf_delete_loop_Cons)
  qed
qed

lemma dbuf_delete_correct:
  assumes "dbuf_inv d" "n \<le> length (dbuf_bytes d)"
  shows "\<exists>d'. dbuf_delete d n = Inr d' \<and> dbuf_inv d' \<and> dbuf_bytes d' = drop n (dbuf_bytes d)"
proof -
  have len: "unat (dbuf_length d) = length (dbuf_bytes d)"
    using assms(1) by (simp add: dbuf_inv_def unat_of_nat_32)
  have blocks: "\<forall>b \<in> set (dbuf_list d). b \<noteq> [] \<and> length b \<le> DBUF_BLOCK_SIZE"
    "n \<le> length (concat (dbuf_list d))"
    using assms by (simp_all add: dbuf_inv_def dbuf_bytes_def)
  from dbuf_delete_loop_correct [OF blocks, of "dbuf_length d"]
  obtain bs' where bs': "dbuf_delete_loop (dbuf_length d) (dbuf_list d) n
      = Inr \<lparr>dbuf_length = dbuf_length d - of_nat n, dbuf_list = bs'\<rparr>"
    "concat bs' = drop n (concat (dbuf_list d))"
    "\<forall>b \<in> set bs'. b \<noteq> [] \<and> length b \<le> DBUF_BLOCK_SIZE"
    by (elim exE conjE) (rule that)
  define d' where "d' = \<lparr>dbuf_length = dbuf_length d - of_nat n, dbuf_list = bs'\<rparr>"
  have "dbuf_length d - of_nat n = of_nat (length (dbuf_bytes d) - n)"
    using assms by (simp add: dbuf_inv_def)
  then have "dbuf_inv d'" "dbuf_bytes d' = drop n (dbuf_bytes d)"
    using assms(1) bs'(2,3) by (simp_all add: dbuf_inv_def dbuf_bytes_def d'_def less_imp_diff_less)
  moreover have "dbuf_delete d n = Inr (if n = 0 then d else d')"
    using assms len bs'(1) by (simp add: dbuf_delete_def d'_def)
  ultimately show ?thesis
    using assms(1) by (intro exI [of _ "if n = 0 then d else d'"]) simp
qed

lemma dbuf_delete_too_many:
  assumes "dbuf_inv d" "length (dbuf_bytes d) < n"
  shows "dbuf_delete d n = Inl Assert_Failed"
  using assms by (simp add: dbuf_delete_def dbuf_inv_def unat_of_nat_32)

section \<open>Extracting a line\<close>

text \<open>
  The specification of \<^verbatim>\<open>dbuf_getmsg\<close> over the flat stream: blanks before a line are
  dropped; a line ends at the first CR or LF and is cut at \<open>READBUFSIZE - 2\<close> bytes; the
  blanks after it are dropped too; without a line end nothing but the leading blanks go.
\<close>

definition eol :: "char \<Rightarrow> bool" where
  "eol c \<longleftrightarrow> c = CHR 0x0D \<or> c = CHR 0x0A"

definition blank :: "char \<Rightarrow> bool" where
  "blank c \<longleftrightarrow> eol c \<or> c = CHR '' ''"

definition lead :: "char list \<Rightarrow> char list" where
  "lead s = takeWhile blank s"

definition body :: "char list \<Rightarrow> char list" where
  "body s = dropWhile blank s"

definition body_line :: "char list \<Rightarrow> char list" where
  "body_line s = takeWhile (\<lambda>c. \<not> eol c) (body s)"

definition body_rest :: "char list \<Rightarrow> char list" where
  "body_rest s = dropWhile (\<lambda>c. \<not> eol c) (body s)"

definition next_line :: "char list \<Rightarrow> nat \<times> char list \<times> char list" where
  "next_line s =
     (if body_rest s = [] then (0, [], body s)
      else (min (length (body_line s)) (READBUFSIZE - 2),
            take (READBUFSIZE - 2) (body_line s), body (body_rest s)))"

lemma lead_body: "lead s @ body s = s" and body_split: "body_line s @ body_rest s = body s"
  by (simp_all add: lead_def body_def body_line_def body_rest_def)

lemma lead_blank: "\<forall>c \<in> set (lead s). blank c"
  by (auto simp: lead_def dest: set_takeWhileD)

lemma body_line_not_eol: "\<forall>c \<in> set (body_line s). \<not> eol c"
  by (auto simp: body_line_def dest: set_takeWhileD)

lemma body_Cons: "body s = c # cs \<Longrightarrow> \<not> blank c"
  unfolding body_def by (rule dropWhile_Cons_D)

lemma body_rest_Cons: "body_rest s = c # cs \<Longrightarrow> eol c"
  unfolding body_rest_def using dropWhile_Cons_D by fastforce

lemma getmsg_block_append:
  "getmsg_block (xs @ ys) st =
     (case getmsg_block xs st of Inl st' \<Rightarrow> Inl st' | Inr st' \<Rightarrow> getmsg_block ys st')"
  by (induction xs arbitrary: st) (auto split: sum.splits)

lemma getmsg_blocks_concat: "getmsg_blocks bs st = getmsg_block (concat bs) st"
  by (induction bs arbitrary: st) (auto simp: getmsg_block_append split: sum.splits)

lemma getmsg_block_blanks:
  assumes "\<forall>c \<in> set xs. blank c" "phase st \<noteq> 1"
  shows "getmsg_block (xs @ ys) st = getmsg_block ys (st\<lparr>empty_bytes := empty_bytes st + length xs\<rparr>)"
  using assms
  by (induction xs arbitrary: st) (auto simp: getmsg_step_def blank_def eol_def)

definition in_line :: "nat \<Rightarrow> char list \<Rightarrow> getmsg_state" where
  "in_line e l =
     \<lparr>line_bytes = length l, empty_bytes = e, phase = 1, copied = take (READBUFSIZE - 2) l\<rparr>"

lemma in_line_sel [simp]:
  "line_bytes (in_line e l) = length l" "empty_bytes (in_line e l) = e"
  "phase (in_line e l) = 1" "copied (in_line e l) = take (READBUFSIZE - 2) l"
  by (simp_all add: in_line_def)

lemma getmsg_step_in_line: "\<not> eol c \<Longrightarrow> getmsg_step c (in_line e l) = Inr (in_line e (l @ [c]))"
  by (auto simp: getmsg_step_def eol_def in_line_def)

lemma getmsg_block_line:
  assumes "\<forall>c \<in> set xs. \<not> eol c"
  shows "getmsg_block (xs @ ys) (in_line e l) = getmsg_block ys (in_line e (l @ xs))"
  using assms by (induction xs arbitrary: l) (auto simp: getmsg_step_in_line)

lemma getmsg_block_start:
  assumes "\<not> blank c" "phase st = 0" "line_bytes st = 0" "copied st = []"
  shows "getmsg_block (c # cs) st = getmsg_block cs (in_line (empty_bytes st) [c])"
  using assms
  by (cases st) (auto simp: getmsg_step_def blank_def eol_def READBUFSIZE_def in_line_def)

lemma getmsg_scan_lead:
  "getmsg_block s getmsg_init = getmsg_block (body s) (getmsg_init\<lparr>empty_bytes := length (lead s)\<rparr>)"
  using getmsg_block_blanks [OF lead_blank, of getmsg_init s "body s"]
  by (simp add: lead_body getmsg_init_def)

lemma getmsg_scan_line:
  assumes "body s \<noteq> []"
  shows "getmsg_block s getmsg_init = getmsg_block (body_rest s) (in_line (length (lead s)) (body_line s))"
proof -
  obtain c cs where c: "body s = c # cs" using assms by (cases "body s") auto
  then have nb: "\<not> blank c" by (rule body_Cons)
  then have "\<not> eol c" by (simp add: blank_def)
  define line where "line = takeWhile (\<lambda>c. \<not> eol c) cs"
  have line: "body_line s = c # line" "cs = line @ body_rest s"
    using \<open>\<not> eol c\<close> by (simp_all add: line_def body_line_def body_rest_def c)
  have "getmsg_block s getmsg_init = getmsg_block (c # cs) (getmsg_init\<lparr>empty_bytes := length (lead s)\<rparr>)"
    by (simp only: getmsg_scan_lead [of s] c)
  also have "\<dots> = getmsg_block cs (in_line (length (lead s)) [c])"
    by (subst getmsg_block_start [OF nb]) (simp_all add: getmsg_init_def)
  also have "\<dots> = getmsg_block (body_rest s) (in_line (length (lead s)) (body_line s))"
    using getmsg_block_line [of line "body_rest s" "length (lead s)" "[c]"] body_line_not_eol [of s]
    by (simp add: line)
  finally show ?thesis .
qed

lemma getmsg_scan_incomplete:
  assumes "body_rest s = []"
  shows "\<exists>st. getmsg_block s getmsg_init = Inr st \<and> phase st \<noteq> 2 \<and> empty_bytes st = length (lead s)"
proof (cases "body s = []")
  case True
  then show ?thesis using getmsg_scan_lead [of s] by (simp add: getmsg_init_def)
next
  case False
  then show ?thesis using getmsg_scan_line [OF False] assms by simp
qed

text \<open>The state after a complete line, its end and the blanks behind it.\<close>

definition after_line :: "char list \<Rightarrow> getmsg_state" where
  "after_line s =
     \<lparr>line_bytes = length (body_line s),
      empty_bytes = length (lead s) + length (lead (body_rest s)),
      phase = 2, copied = take (READBUFSIZE - 2) (body_line s)\<rparr>"

lemma getmsg_scan_complete:
  assumes "body_rest s \<noteq> []"
  shows "getmsg_block s getmsg_init \<in> {Inl (after_line s), Inr (after_line s)}"
proof -
  obtain e es where e: "body_rest s = e # es" using assms by (cases "body_rest s") auto
  then have "eol e" by (rule body_rest_Cons)
  define st2 where "st2 = (in_line (length (lead s)) (body_line s))\<lparr>phase := 2, empty_bytes := length (lead s) + 1\<rparr>"
  have lead': "lead (body_rest s) = e # lead es" and body': "body (body_rest s) = body es"
    using \<open>eol e\<close> by (simp_all add: e lead_def body_def blank_def)
  have "body s \<noteq> []" using assms body_split [of s] by auto
  have "getmsg_step e (in_line (length (lead s)) (body_line s)) = Inr st2"
    using \<open>eol e\<close> by (auto simp: getmsg_step_def eol_def st2_def)
  then have "getmsg_block s getmsg_init = getmsg_block es st2"
    by (simp add: getmsg_scan_line [OF \<open>body s \<noteq> []\<close>] e)
  also have "\<dots> = getmsg_block (body es) (st2\<lparr>empty_bytes := empty_bytes st2 + length (lead es)\<rparr>)"
    using getmsg_block_blanks [OF lead_blank, of st2 es "body es"] by (simp add: lead_body st2_def)
  also have "st2\<lparr>empty_bytes := empty_bytes st2 + length (lead es)\<rparr> = after_line s"
    by (simp add: after_line_def st2_def in_line_def lead')
  finally have fin: "getmsg_block s getmsg_init = getmsg_block (body es) (after_line s)" .
  show ?thesis
  proof (cases "body es")
    case Nil
    then show ?thesis by (simp add: fin)
  next
    case (Cons c cs)
    then have "getmsg_step c (after_line s) = Inl (after_line s)"
      using body_Cons [OF Cons] by (simp add: getmsg_step_def blank_def eol_def after_line_def)
    then show ?thesis by (simp add: fin Cons)
  qed
qed

lemma dbuf_getmsg_correct:
  assumes "dbuf_inv d"
  shows "\<exists>n line d'. dbuf_getmsg d = Inr (n, line, d') \<and> dbuf_inv d'
    \<and> next_line (dbuf_bytes d) = (n, line, dbuf_bytes d')"
proof -
  let ?s = "dbuf_bytes d"
  have blocks: "getmsg_blocks (dbuf_list d) getmsg_init = getmsg_block ?s getmsg_init"
    by (simp add: getmsg_blocks_concat dbuf_bytes_def)
  have drop1: "drop (length (lead ?s)) ?s = body ?s"
    by (simp add: lead_def body_def dropWhile_eq_drop_length)
  show ?thesis
  proof (cases "body_rest ?s = []")
    case True
    have "length (lead ?s) \<le> length ?s" by (simp add: lead_def length_takeWhile_le)
    from dbuf_delete_correct [OF assms this] drop1
    obtain d' where d': "dbuf_delete d (length (lead ?s)) = Inr d'" "dbuf_inv d'" "dbuf_bytes d' = body ?s"
      by force
    obtain st where "getmsg_block ?s getmsg_init = Inr st" "phase st \<noteq> 2" "empty_bytes st = length (lead ?s)"
      using getmsg_scan_incomplete [OF True] by blast
    then have "dbuf_getmsg d = Inr (0, [], d')"
      using d'(1) by (simp add: dbuf_getmsg_def blocks)
    then show ?thesis using d' True by (simp add: next_line_def)
  next
    case False
    let ?n = "line_bytes (after_line ?s) + empty_bytes (after_line ?s)"
    have n: "?n \<le> length ?s"
      using arg_cong [OF lead_body [of ?s], of length] arg_cong [OF body_split [of ?s], of length]
        arg_cong [OF lead_body [of "body_rest ?s"], of length]
      by (simp add: after_line_def)
    have "drop ?n ?s = drop (length (lead (body_rest ?s))) (drop (length (body_line ?s)) (drop (length (lead ?s)) ?s))"
      by (simp add: after_line_def ac_simps)
    also have "\<dots> = body (body_rest ?s)"
      by (simp add: drop1 body_line_def body_rest_def lead_def body_def dropWhile_eq_drop_length)
    finally have rest: "drop ?n ?s = body (body_rest ?s)" .
    from dbuf_delete_correct [OF assms n] rest
    obtain d' where d': "dbuf_delete d ?n = Inr d'" "dbuf_inv d'" "dbuf_bytes d' = body (body_rest ?s)"
      by force
    have "dbuf_getmsg d = Inr (min (length (body_line ?s)) (READBUFSIZE - 2), take (READBUFSIZE - 2) (body_line ?s), d')"
      using getmsg_scan_complete [OF False] d'(1)
      by (auto simp: dbuf_getmsg_def blocks after_line_def)
    then show ?thesis using d'(2,3) False by (simp add: next_line_def)
  qed
qed

lemma dbuf_get_correct:
  assumes "dbuf_inv d"
  shows "\<exists>d'. dbuf_get d = Inr (length (dbuf_bytes d), dbuf_bytes d, d') \<and> dbuf_inv d' \<and> dbuf_bytes d' = []"
proof -
  have "sum_list (map length (dbuf_list d)) = length (dbuf_bytes d)"
    by (simp add: dbuf_bytes_def length_concat)
  moreover obtain d' where "dbuf_delete d (length (dbuf_bytes d)) = Inr d'" "dbuf_inv d'" "dbuf_bytes d' = []"
    using dbuf_delete_correct [OF assms order_refl] by auto
  ultimately show ?thesis
    by (intro exI [of _ d']) (simp add: dbuf_get_def dbuf_bytes_def)
qed

section \<open>The contract of a byte stream\<close>

text \<open>
  What the socket code relies on: bytes go in at the back in chunks of any size and come
  out at the front in order. \<open>feed\<close> is the sequence of calls a connection makes while
  its input arrives.
\<close>

fun feed :: "('d \<Rightarrow> char list \<Rightarrow> fault + 'd) \<Rightarrow> 'd \<Rightarrow> char list list \<Rightarrow> fault + 'd" where
  "feed put d [] = Inr d"
| "feed put d (c # cs) = (case put d c of Inl e \<Rightarrow> Inl e | Inr d' \<Rightarrow> feed put d' cs)"

locale byte_stream =
  fixes inv :: "'d \<Rightarrow> bool"
    and bytes :: "'d \<Rightarrow> char list"
    and put :: "'d \<Rightarrow> char list \<Rightarrow> fault + 'd"
    and delete :: "'d \<Rightarrow> nat \<Rightarrow> fault + 'd"
    and cap :: nat
  assumes put_law: "inv d \<Longrightarrow> buf \<noteq> [] \<Longrightarrow> length (bytes d) + length buf < cap \<Longrightarrow>
      \<exists>d'. put d buf = Inr d' \<and> inv d' \<and> bytes d' = bytes d @ buf"
    and delete_law: "inv d \<Longrightarrow> n \<le> length (bytes d) \<Longrightarrow>
      \<exists>d'. delete d n = Inr d' \<and> inv d' \<and> bytes d' = drop n (bytes d)"
begin

lemma feed_appends:
  assumes "inv d" "[] \<notin> set cs" "length (bytes d) + length (concat cs) < cap"
  shows "\<exists>d'. feed put d cs = Inr d' \<and> inv d' \<and> bytes d' = bytes d @ concat cs"
  using assms
proof (induction cs arbitrary: d)
  case Nil
  then show ?case by simp
next
  case (Cons c cs)
  then obtain d1 where d1: "put d c = Inr d1" "inv d1" "bytes d1 = bytes d @ c"
    using put_law [of d c] by auto
  with Cons.IH [of d1] Cons.prems show ?case by auto
qed

lemma feed_then_delete:
  assumes "inv d" "[] \<notin> set cs" "length (bytes d) + length (concat cs) < cap" "bytes d = []"
  shows "\<exists>d1 d2. feed put d cs = Inr d1 \<and> delete d1 (length (concat cs)) = Inr d2 \<and> inv d2 \<and> bytes d2 = []"
proof -
  obtain d1 where d1: "feed put d cs = Inr d1" "inv d1" "bytes d1 = concat cs"
    using feed_appends [OF assms(1-3)] assms(4) by auto
  moreover obtain d2 where "delete d1 (length (concat cs)) = Inr d2" "inv d2" "bytes d2 = []"
    using delete_law [OF d1(2), of "length (concat cs)"] d1(3) by auto
  ultimately show ?thesis by blast
qed

end

locale message_stream = byte_stream +
  fixes getmsg :: "'a \<Rightarrow> fault + (nat \<times> char list \<times> 'a)"
  assumes getmsg_law: "inv d \<Longrightarrow> \<exists>n line d'. getmsg d = Inr (n, line, d') \<and> inv d'
      \<and> next_line (bytes d) = (n, line, bytes d')"
begin

lemma feed_then_getmsg:
  assumes "inv d" "[] \<notin> set cs" "length (bytes d) + length (concat cs) < cap"
  shows "\<exists>d1 n line d2. feed put d cs = Inr d1 \<and> getmsg d1 = Inr (n, line, d2) \<and> inv d2
    \<and> next_line (bytes d @ concat cs) = (n, line, bytes d2)"
proof -
  obtain d1 where d1: "feed put d cs = Inr d1" "inv d1" "bytes d1 = bytes d @ concat cs"
    using feed_appends [OF assms] by blast
  with getmsg_law [OF d1(2)] show ?thesis by auto
qed

end

interpretation db: message_stream dbuf_inv dbuf_bytes dbuf_put dbuf_delete "2 ^ 32" dbuf_getmsg
  by unfold_locales (blast intro: dbuf_put_correct dbuf_delete_correct dbuf_getmsg_correct)+

lemma dbuf_inv_init [simp]: "dbuf_inv dbuf_queue_init" "dbuf_bytes dbuf_queue_init = []"
  by (simp_all add: dbuf_inv_def dbuf_bytes_def dbuf_queue_init_def)

section \<open>Lines through the stream\<close>

lemma next_line_whole:
  assumes "line \<noteq> []" "\<not> blank (hd line)" "\<forall>c \<in> set line. \<not> eol c" "eol e"
    and "\<forall>c \<in> set bs. blank c" "tail = [] \<or> \<not> blank (hd tail)"
  shows "next_line (line @ e # bs @ tail) = (min (length line) (READBUFSIZE - 2), take (READBUFSIZE - 2) line, tail)"
proof -
  obtain c cs where line: "line = c # cs" "\<not> blank c" "\<not> eol c"
    using assms(1,2) by (cases line) (auto simp: blank_def)
  have 1: "body (line @ e # bs @ tail) = line @ e # bs @ tail"
    by (simp add: body_def line)
  have 2: "takeWhile (\<lambda>c. \<not> eol c) (line @ e # bs @ tail) = line"
    "dropWhile (\<lambda>c. \<not> eol c) (line @ e # bs @ tail) = e # bs @ tail"
    using assms(3,4) by simp_all
  have "dropWhile blank (e # bs @ tail) = tail"
    using assms(4-6) by (cases tail) (auto simp: blank_def)
  with 1 2 show ?thesis
    by (simp add: next_line_def body_line_def body_rest_def) (simp add: body_def)
qed

lemma next_line_progress:
  assumes "next_line s = (n, line, rest)"
  shows "length rest \<le> length s" "0 < n \<Longrightarrow> length rest < length s" "n = length line" "n \<le> READBUFSIZE - 2"
proof -
  have len: "length (lead s) + length (body s) = length s"
    "length (body_line s) + length (body_rest s) = length (body s)"
    "length (lead (body_rest s)) + length (body (body_rest s)) = length (body_rest s)"
    using arg_cong [OF lead_body, of length] arg_cong [OF body_split, of length] by simp_all
  show "length rest \<le> length s" "0 < n \<Longrightarrow> length rest < length s"
    "n = length line" "n \<le> READBUFSIZE - 2"
    using assms len by (auto simp: next_line_def simp flip: length_greater_0_conv split: if_splits)
qed

section \<open>Properties\<close>

text \<open>appending to a well-formed buffer never fails below the range of the counter, keeps
  the buffer well formed (no empty block, no block over its size, the counter exact) and adds
  exactly the given bytes at the end; an empty append trips the assertion.\<close>

theorem dbuf_put_appends:
  "dbuf_inv d \<Longrightarrow> length (dbuf_bytes d) + length buf < 2 ^ 32 \<Longrightarrow>
     (if buf = [] then dbuf_put d buf = Inl Assert_Failed
      else \<exists>d'. dbuf_put d buf = Inr d' \<and> dbuf_inv d' \<and> dbuf_bytes d' = dbuf_bytes d @ buf)"
  using db.put_law by (auto simp: dbuf_put_def)

theorem dbuf_put_appends_witness:
  "dbuf_inv dbuf_queue_init \<and> (\<exists>d'. dbuf_put dbuf_queue_init ''PING'' = Inr d' \<and> dbuf_bytes d' = ''PING'')"
  using dbuf_put_appends [of dbuf_queue_init "''PING''"] by auto

text \<open>deleting from a well-formed buffer drops exactly the given number of leading bytes
  across block boundaries and keeps it well formed; asking for more bytes than are stored
  trips the assertion instead of running off the block list.\<close>

theorem dbuf_delete_drops:
  "dbuf_inv d \<Longrightarrow>
     (if length (dbuf_bytes d) < n then dbuf_delete d n = Inl Assert_Failed
      else \<exists>d'. dbuf_delete d n = Inr d' \<and> dbuf_inv d' \<and> dbuf_bytes d' = drop n (dbuf_bytes d))"
  using db.delete_law [of d n] dbuf_delete_too_many [of d n] by auto

theorem dbuf_delete_drops_witness:
  "dbuf_inv dbuf_queue_init \<and> dbuf_delete dbuf_queue_init 1 = Inl Assert_Failed"
  using dbuf_delete_drops [of dbuf_queue_init 1] by simp





end
