(* ===== verification/Ctype.thy ===== *)
theory Ctype
  imports Irc_Prelude
begin

text \<open>
  The server's own character tables (\<^verbatim>\<open>src/match.c\<close>: \<^verbatim>\<open>tolowertab\<close>,
  \<^verbatim>\<open>touppertab\<close>, \<^verbatim>\<open>char_atribs\<close>), the macros of \<^verbatim>\<open>include/common.h\<close>
  that index them (\<^verbatim>\<open>tolower\<close>, \<^verbatim>\<open>isalnum\<close>, ...), and the case-insensitive
  comparisons \<^verbatim>\<open>smycmp\<close> and \<^verbatim>\<open>mycmp\<close>. The tables are kept as tables; the first
  group of lemmas shows what they compute, and the second that folding to upper case
  (comparison) and folding to lower case (hashing) identify the same names.
\<close>

unbundle bit_operations_syntax

section \<open>Tables and macros\<close>

text \<open>Both tables are the identity outside the 26 letters they fold.\<close>

definition tolowertab :: "nat list" where
  "tolowertab = [0..<65] @ [97..<123] @ [91..<256]"

definition touppertab :: "nat list" where
  "touppertab = [0..<97] @ [65..<91] @ [123..<256]"

definition tolower :: "char \<Rightarrow> char" where
  "tolower c = char_of (tolowertab ! of_char c)"

definition toupper :: "char \<Rightarrow> char" where
  "toupper c = char_of (touppertab ! of_char c)"

abbreviation PRINT :: "8 word" where "PRINT \<equiv> 1"
abbreviation CNTRL :: "8 word" where "CNTRL \<equiv> 2"
abbreviation ALPHA :: "8 word" where "ALPHA \<equiv> 4"
abbreviation DIGIT :: "8 word" where "DIGIT \<equiv> 16"
abbreviation SPACE :: "8 word" where "SPACE \<equiv> 32"
abbreviation ALLOW :: "8 word" where "ALLOW \<equiv> 64"

definition char_atribs :: "8 word list" where
  "char_atribs =
     replicate 9 CNTRL @ replicate 5 (CNTRL OR SPACE) @ replicate 18 CNTRL
     @ [PRINT OR SPACE] @ replicate 12 PRINT @ replicate 2 (PRINT OR ALLOW) @ [PRINT]
     @ replicate 10 (PRINT OR DIGIT OR ALLOW) @ replicate 7 PRINT
     @ replicate 26 (PRINT OR ALPHA OR ALLOW) @ replicate 4 PRINT @ [PRINT OR ALLOW, PRINT]
     @ replicate 26 (PRINT OR ALPHA OR ALLOW) @ replicate 4 PRINT @ replicate 129 0"

definition atrib :: "char \<Rightarrow> 8 word" where
  "atrib c = char_atribs ! of_char c"

definition isallowed :: "char \<Rightarrow> bool" where
  "isallowed c \<longleftrightarrow> atrib c AND ALLOW \<noteq> 0"

definition iscntrl :: "char \<Rightarrow> bool" where
  "iscntrl c \<longleftrightarrow> atrib c AND CNTRL \<noteq> 0"

definition isalpha :: "char \<Rightarrow> bool" where
  "isalpha c \<longleftrightarrow> atrib c AND ALPHA \<noteq> 0"

definition isspace :: "char \<Rightarrow> bool" where
  "isspace c \<longleftrightarrow> atrib c AND SPACE \<noteq> 0"

definition islower :: "char \<Rightarrow> bool" where
  "islower c \<longleftrightarrow> atrib c AND ALPHA \<noteq> 0 \<and> of_char c > (0x5f :: nat)"

definition isupper :: "char \<Rightarrow> bool" where
  "isupper c \<longleftrightarrow> atrib c AND ALPHA \<noteq> 0 \<and> of_char c < (0x60 :: nat)"

definition isdigit :: "char \<Rightarrow> bool" where
  "isdigit c \<longleftrightarrow> atrib c AND DIGIT \<noteq> 0"

definition isalnum :: "char \<Rightarrow> bool" where
  "isalnum c \<longleftrightarrow> atrib c AND (DIGIT OR ALPHA) \<noteq> 0"

definition iswseperator :: "char \<Rightarrow> bool" where
  "iswseperator c \<longleftrightarrow> \<not> isalnum c \<and> \<not> of_char c \<ge> (128 :: nat)"

section \<open>Comparison\<close>

fun smycmp :: "cstring \<Rightarrow> cstring \<Rightarrow> int" where
  "smycmp [] [] = 0"
| "smycmp [] (b # bs) = 0 - of_char (toupper b)"
| "smycmp (a # as) [] = of_char (toupper a) - 0"
| "smycmp (a # as) (b # bs) =
     (let res = of_char (toupper a) - of_char (toupper b)
      in if res = 0 then smycmp as bs else res)"

text \<open>
  The macro \<^verbatim>\<open>mycmp\<close> compares the first bytes and then the rest. On an empty string it
  passes a pointer past the terminating NUL to \<^verbatim>\<open>smycmp\<close> when both first bytes are NUL.
\<close>

definition mycmp :: "cstring \<Rightarrow> cstring \<Rightarrow> fault + bool" where
  "mycmp a b =
     (if toupper (c_at a 0) \<noteq> toupper (c_at b 0) then Inr True
      else if a = [] \<or> b = [] then Inl Over_Read
      else Inr (smycmp (tl a) (tl b) \<noteq> 0))"

section \<open>What the tables compute\<close>

definition atrib_of :: "nat \<Rightarrow> 8 word" where
  "atrib_of n =
     (if n < 9 then 2 else if n < 14 then 34 else if n < 32 then 2 else if n = 32 then 33
      else if n < 45 then 1 else if n < 47 then 65 else if n = 47 then 1
      else if n < 58 then 81 else if n < 65 then 1 else if n < 91 then 69 else if n < 95 then 1
      else if n = 95 then 65 else if n = 96 then 1 else if n < 123 then 69
      else if n < 127 then 1 else 0)"

lemma tolowertab_map: "tolowertab = map (\<lambda>n. if 65 \<le> n \<and> n < 91 then n + 32 else n) [0..<256]"
  by code_simp

lemma touppertab_map: "touppertab = map (\<lambda>n. if 97 \<le> n \<and> n < 123 then n - 32 else n) [0..<256]"
  by code_simp

lemma char_atribs_map: "char_atribs = map atrib_of [0..<256]"
  by code_simp

lemma of_char_tolower [cchar_simps]:
  "of_char (tolower c) =
     (if 65 \<le> (of_char c :: nat) \<and> of_char c < (91 :: nat) then of_char c + 32 else (of_char c :: nat))"
  unfolding tolower_def tolowertab_map by (subst nth_map) (auto simp del: upt_rec_numeral)

lemma of_char_toupper [cchar_simps]:
  "of_char (toupper c) =
     (if 97 \<le> (of_char c :: nat) \<and> of_char c < (123 :: nat) then of_char c - 32 else (of_char c :: nat))"
  unfolding toupper_def touppertab_map by (subst nth_map) (auto simp del: upt_rec_numeral)

lemma atrib_eq: "atrib c = atrib_of (of_char c)"
  unfolding atrib_def char_atribs_map by (subst nth_map) (auto simp del: upt_rec_numeral)

lemma isdigit_code [cchar_simps]: "isdigit c \<longleftrightarrow> 48 \<le> (of_char c :: nat) \<and> of_char c < (58 :: nat)"
  by (auto simp: isdigit_def atrib_eq atrib_of_def)

lemma isalpha_code [cchar_simps]:
  "isalpha c \<longleftrightarrow> 65 \<le> (of_char c :: nat) \<and> of_char c < (91 :: nat)
     \<or> 97 \<le> (of_char c :: nat) \<and> of_char c < (123 :: nat)"
  by (auto simp: isalpha_def atrib_eq atrib_of_def)

lemma isalnum_code [cchar_simps]: "isalnum c \<longleftrightarrow> isdigit c \<or> isalpha c"
  by (auto simp: isalnum_def isdigit_def isalpha_def atrib_eq atrib_of_def)

lemma isspace_code [cchar_simps]:
  "isspace c \<longleftrightarrow> 9 \<le> (of_char c :: nat) \<and> of_char c < (14 :: nat) \<or> of_char c = (32 :: nat)"
  by (auto simp: isspace_def atrib_eq atrib_of_def)

lemma isupper_code [cchar_simps]: "isupper c \<longleftrightarrow> 65 \<le> (of_char c :: nat) \<and> of_char c < (91 :: nat)"
  by (auto simp: isupper_def atrib_eq atrib_of_def)

lemma islower_code [cchar_simps]: "islower c \<longleftrightarrow> 97 \<le> (of_char c :: nat) \<and> of_char c < (123 :: nat)"
  by (auto simp: islower_def atrib_eq atrib_of_def)

lemma iscntrl_code [cchar_simps]: "iscntrl c \<longleftrightarrow> of_char c < (32 :: nat)"
  by (auto simp: iscntrl_def atrib_eq atrib_of_def)

text \<open>Equations that evaluate without walking the tables.\<close>

lemma char_of_int_of_char: "of_char x = nat n \<Longrightarrow> 0 \<le> n \<Longrightarrow> x = char_of n"
  by (metis char_of_nat char_of_char int_nat_eq)

lemma tolower_int [code]:
  "tolower c = (let n = (of_char c :: int) in char_of (if 65 \<le> n \<and> n < 91 then n + 32 else n))"
  unfolding Let_def of_nat_of_char [symmetric, where ?'a = int]
  by (rule char_of_int_of_char) (auto simp: of_char_tolower nat_add_distrib)

lemma toupper_int [code]:
  "toupper c = (let n = (of_char c :: int) in char_of (if 97 \<le> n \<and> n < 123 then n - 32 else n))"
  unfolding Let_def of_nat_of_char [symmetric, where ?'a = int]
  by (rule char_of_int_of_char) (auto simp: of_char_toupper nat_diff_distrib)

lemma isdigit_int [code]: "isdigit c = (let n = (of_char c :: int) in 48 \<le> n \<and> n < 58)"
  unfolding Let_def of_nat_of_char [symmetric, where ?'a = int] by (simp add: isdigit_code)

lemma isalpha_int [code]:
  "isalpha c = (let n = (of_char c :: int) in 65 \<le> n \<and> n < 91 \<or> 97 \<le> n \<and> n < 123)"
  unfolding Let_def of_nat_of_char [symmetric, where ?'a = int] by (simp add: isalpha_code)

lemma isspace_int [code]: "isspace c = (let n = (of_char c :: int) in 9 \<le> n \<and> n < 14 \<or> n = 32)"
  unfolding Let_def of_nat_of_char [symmetric, where ?'a = int] by (auto simp: isspace_code)

declare isalnum_code [code]

section \<open>Case folding\<close>

text \<open>
  Names are compared through \<open>toupper\<close> (\<open>smycmp\<close>) but hashed through
  \<open>tolower\<close>; a hash table keyed by names is only sound because both fold alike.
\<close>

lemma fold_code_eq_iff:
  "((if 97 \<le> m \<and> m < 123 then m - 32 else m) = (if 97 \<le> n \<and> n < 123 then n - 32 else n))
   \<longleftrightarrow> ((if 65 \<le> m \<and> m < 91 then m + 32 else m) = (if 65 \<le> n \<and> n < 91 then n + 32 else n))"
  for m n :: nat
  by (simp split: if_split) linarith

lemma toupper_eq_iff_tolower_eq: "toupper a = toupper b \<longleftrightarrow> tolower a = tolower b"
proof -
  have "toupper a = toupper b \<longleftrightarrow> (of_char (toupper a) :: nat) = of_char (toupper b)"
    by simp
  also have "\<dots> \<longleftrightarrow> (of_char (tolower a) :: nat) = of_char (tolower b)"
    unfolding of_char_tolower of_char_toupper by (rule fold_code_eq_iff)
  finally show ?thesis by simp
qed

lemma map_toupper_eq_iff_map_tolower_eq:
  "map toupper s = map toupper t \<longleftrightarrow> map tolower s = map tolower t"
  by (simp add: list_eq_iff_nth_eq toupper_eq_iff_tolower_eq cong: conj_cong)

lemma toupper_NUL [simp]: "toupper c = NUL \<longleftrightarrow> c = NUL"
proof -
  have "toupper c = NUL \<longleftrightarrow> (of_char (toupper c) :: nat) = of_char NUL"
    by (simp only: of_char_eq_iff)
  also have "\<dots> \<longleftrightarrow> (of_char c :: nat) = of_char NUL"
    unfolding of_char_toupper by auto
  finally show ?thesis by (simp only: of_char_eq_iff)
qed

lemma of_char_0_iff: "of_char c = (0 :: int) \<longleftrightarrow> c = NUL"
proof -
  have "of_char NUL = (0 :: int)" by simp
  then show ?thesis by (metis of_char_eq_iff)
qed

lemma toupper_idem [simp]: "toupper (toupper c) = toupper c"
proof -
  have "(of_char (toupper (toupper c)) :: nat) = of_char (toupper c)"
    unfolding of_char_toupper [of "toupper c"] by (auto simp: of_char_toupper)
  then show ?thesis by simp
qed

lemma smycmp_0_iff:
  assumes "cstr s" "cstr t"
  shows "smycmp s t = 0 \<longleftrightarrow> map toupper s = map toupper t"
  using assms by (induction s t rule: smycmp.induct) (auto simp: Let_def of_char_0_iff)

lemma smycmp_antisym: "sgn (smycmp t s) = - sgn (smycmp s t)"
  by (induction s t rule: smycmp.induct) (auto simp: Let_def sgn_if split: if_splits)

lemma mycmp_iff:
  assumes "cstr a" "cstr b" "a \<noteq> []" "b \<noteq> []"
  shows "mycmp a b = Inr (map toupper a \<noteq> map toupper b)"
  using assms by (cases a; cases b) (auto simp: mycmp_def smycmp_0_iff)

end
