(* ===== verification/Glob.thy ===== *)
theory Glob
  imports Ctype
begin

text \<open>
  Wildcard masks (\<^verbatim>\<open>src/match.c\<close>): \<^verbatim>\<open>match_simple\<close>, \<^verbatim>\<open>match_esc\<close> and
  \<^verbatim>\<open>collapse\<close>. The two matchers are pointer loops with one backtracking point; pointers
  into mask and name are indices, the terminating NUL is readable, and since nothing in
  the code bounds the loop it is a \<^theory_text>\<open>partial_function\<close> into \<open>option\<close>. The
  specification \<open>glob\<close> matches a list of tokens by structural recursion and tries every
  split at every star. The main lemmas show that the loops return and compute \<open>glob\<close>.
\<close>

section \<open>The model\<close>

subsection \<open>Matching loops\<close>

function skip_stars :: "cstring \<Rightarrow> nat \<Rightarrow> nat" where
  "skip_stars msk m = (if c_at msk m = CHR ''*'' then skip_stars msk (Suc m) else m)"
  by pat_completeness auto
termination
  by (relation "measure (\<lambda>(msk, m). length msk - m)") (auto simp: c_at_def split: if_splits)

fun back_questions :: "cstring \<Rightarrow> nat \<Rightarrow> nat" where
  "back_questions msk m =
     (if m > 0 \<and> c_at msk m = CHR ''?'' then back_questions msk (m - 1) else m)"

declare skip_stars.simps [simp del] back_questions.simps [simp del]

text \<open>
  The part of the loop body before the comparison, the same in both matchers: \<open>Inl\<close> is a
  return, \<open>Inr\<close> the pointers \<^verbatim>\<open>m\<close>, \<^verbatim>\<open>n\<close>, \<^verbatim>\<open>ma\<close> and \<^verbatim>\<open>na\<close> the comparison starts
  from.
\<close>

type_synonym match_ptrs = "nat \<times> nat \<times> nat option \<times> nat"

definition match_head :: "cstring \<Rightarrow> cstring \<Rightarrow> match_ptrs \<Rightarrow> bool + match_ptrs" where
  "match_head msk name = (\<lambda>(m0, n, ma0, na0).
     let (m, ma, na) = (if c_at msk m0 = CHR ''*''
                        then (skip_stars msk m0, Some (skip_stars msk m0), n)
                        else (m0, ma0, na0))
     in if c_at msk m = NUL
        then if c_at name n = NUL then Inl True
             else case ma of
                    None \<Rightarrow> Inl False
                  | Some a \<Rightarrow>
                      if c_at msk (back_questions msk (m - 1)) = CHR ''*'' then Inl True
                      else Inr (a, na + 1, ma, na + 1)
        else if c_at name n = NUL
        then Inl (c_at msk (skip_stars msk m) = NUL)
        else Inr (m, n, ma, na))"

definition same_char :: "char \<Rightarrow> char \<Rightarrow> bool" where
  "same_char c x \<longleftrightarrow> tolower c = tolower x \<or> (c = CHR ''_'' \<and> x = CHR '' '')"

partial_function (option) match_simple_loop :: "cstring \<Rightarrow> cstring \<Rightarrow> match_ptrs \<Rightarrow> bool option" where
  "match_simple_loop msk name p =
     (case match_head msk name p of
        Inl r \<Rightarrow> Some r
      | Inr (m, n, ma, na) \<Rightarrow>
          if \<not> same_char (c_at msk m) (c_at name n) \<and> c_at msk m \<noteq> CHR ''?''
          then (case ma of
                  None \<Rightarrow> Some False
                | Some a \<Rightarrow> match_simple_loop msk name (a, na + 1, ma, na + 1))
          else match_simple_loop msk name (m + 1, n + 1, ma, na))"

definition match_simple :: "cstring \<Rightarrow> cstring \<Rightarrow> bool option" where
  "match_simple msk name = match_simple_loop msk name (0, 0, None, 0)"

partial_function (option) match_esc_loop :: "cstring \<Rightarrow> cstring \<Rightarrow> match_ptrs \<Rightarrow> bool option" where
  "match_esc_loop msk name p =
     (case match_head msk name p of
        Inl r \<Rightarrow> Some r
      | Inr (m0, n, ma, na) \<Rightarrow>
          if c_at msk m0 \<noteq> CHR ''?''
          then (let m = (if c_at msk m0 = CHR 0x5C then m0 + 1 else m0)
                in if c_at msk m0 = CHR 0x5C \<and> c_at msk m = NUL then Some False
                   else if \<not> same_char (c_at msk m) (c_at name n)
                   then (case ma of
                           None \<Rightarrow> Some False
                         | Some a \<Rightarrow> match_esc_loop msk name (a, na + 1, ma, na + 1))
                   else match_esc_loop msk name (m + 1, n + 1, ma, na))
          else match_esc_loop msk name (m0 + 1, n + 1, ma, na))"

declare match_simple_loop.simps [code] match_esc_loop.simps [code]

definition match_esc :: "cstring \<Rightarrow> cstring \<Rightarrow> bool option" where
  "match_esc msk name = match_esc_loop msk name (0, 0, None, 0)"

subsection \<open>Collapsing a pattern\<close>

text \<open>
  \<^verbatim>\<open>collapse\<close> rewrites the pattern in place; the recursion is its outer loop and each
  equation what it leaves behind the read position.
\<close>

abbreviation is_star :: "char \<Rightarrow> bool" where
  "is_star c \<equiv> c = CHR ''*''"

abbreviation is_wild :: "char \<Rightarrow> bool" where
  "is_wild c \<equiv> c = CHR ''*'' \<or> c = CHR ''?''"

lemma length_collapse_arg:
  "length (filter P (takeWhile Q s) @ dropWhile Q s) \<le> length s"
  by (simp add: order_trans [OF add_right_mono [OF length_filter_le]] takeWhile_dropWhile_length)

function collapse :: "cstring \<Rightarrow> cstring" where
  "collapse [] = []"
| "collapse (c # s) =
     (if c = CHR 0x5C
      then (case s of [] \<Rightarrow> [c] | c' # s' \<Rightarrow> c # c' # collapse s')
      else if is_star c
      then (case s of
              [] \<Rightarrow> [c]
            | c' # s' \<Rightarrow>
                if is_star c' then c # collapse (dropWhile is_star s)
                else if c' = CHR ''?''
                then c # collapse (c' # filter (\<lambda>x. x = CHR ''?'') (takeWhile is_wild s')
                                     @ dropWhile is_wild s')
                else c # collapse s)
      else c # collapse s)"
  by pat_completeness auto
termination
  by (relation "measure length")
     (auto simp: less_Suc_eq_le length_dropWhile_le le_SucI
       intro: order_trans [OF length_collapse_arg [simplified]])

declare collapse.simps [simp del]

section \<open>The specification\<close>

datatype glob_tok = Star | Any | Lit char | Bad_Esc

fun tok_ok :: "glob_tok \<Rightarrow> char \<Rightarrow> bool" where
  "tok_ok Any x \<longleftrightarrow> True"
| "tok_ok (Lit c) x \<longleftrightarrow> same_char c x"
| "tok_ok _ x \<longleftrightarrow> False"

fun glob :: "glob_tok list \<Rightarrow> cstring \<Rightarrow> bool" where
  "glob [] name \<longleftrightarrow> name = []"
| "glob (Star # ts) [] \<longleftrightarrow> glob ts []"
| "glob (Star # ts) (x # xs) \<longleftrightarrow> glob ts (x # xs) \<or> glob (Star # ts) xs"
| "glob (t # ts) [] \<longleftrightarrow> False"
| "glob (t # ts) (x # xs) \<longleftrightarrow> tok_ok t x \<and> glob ts xs"

definition simple_tok :: "char \<Rightarrow> glob_tok" where
  "simple_tok c = (if is_star c then Star else if c = CHR ''?'' then Any else Lit c)"

definition simple_toks :: "cstring \<Rightarrow> glob_tok list" where
  "simple_toks = map simple_tok"

fun esc_toks :: "cstring \<Rightarrow> glob_tok list" where
  "esc_toks [] = []"
| "esc_toks (c # s) =
     (if c = CHR 0x5C then (case s of [] \<Rightarrow> [Bad_Esc] | c' # s' \<Rightarrow> Lit c' # esc_toks s')
      else simple_tok c # esc_toks s)"

section \<open>Laws of \<open>glob\<close>\<close>

lemma glob_Star: "glob (Star # ts) s \<longleftrightarrow> (\<exists>k \<le> length s. glob ts (drop k s))"
proof (induction s)
  case Nil
  then show ?case by simp
next
  case (Cons x xs)
  show ?case
  proof
    assume "glob (Star # ts) (x # xs)"
    then consider "glob ts (x # xs)" | "glob (Star # ts) xs" by auto
    then show "\<exists>k \<le> length (x # xs). glob ts (drop k (x # xs))"
    proof cases
      case 1
      then show ?thesis by (intro exI [of _ 0]) simp
    next
      case 2
      then obtain k where "k \<le> length xs" "glob ts (drop k xs)" using Cons.IH by blast
      then show ?thesis by (intro exI [of _ "Suc k"]) simp
    qed
  next
    assume "\<exists>k \<le> length (x # xs). glob ts (drop k (x # xs))"
    then obtain k where k: "k \<le> length (x # xs)" "glob ts (drop k (x # xs))" by blast
    show "glob (Star # ts) (x # xs)"
    proof (cases k)
      case 0
      then show ?thesis using k by simp
    next
      case (Suc k')
      then show ?thesis using k Cons.IH by auto
    qed
  qed
qed

lemma glob_Cons: "t \<noteq> Star \<Longrightarrow> glob (t # ts) s \<longleftrightarrow> (\<exists>x xs. s = x # xs \<and> tok_ok t x \<and> glob ts xs)"
  by (cases t; cases s) auto

lemma glob_seg:
  assumes "Star \<notin> set seg"
  shows "glob (seg @ ts) s \<longleftrightarrow>
    length seg \<le> length s \<and> list_all2 tok_ok seg (take (length seg) s) \<and> glob ts (drop (length seg) s)"
  using assms
proof (induction seg arbitrary: s)
  case Nil
  then show ?case by simp
next
  case (Cons t seg)
  then have "t \<noteq> Star" by auto
  then show ?case using Cons by (cases s) (auto simp: glob_Cons)
qed

lemma glob_Star_mono:
  assumes "k \<le> j" "j \<le> length s" "glob (Star # ts) (drop j s)"
  shows "glob (Star # ts) (drop k s)"
proof -
  obtain i where i: "i \<le> length (drop j s)" "glob ts (drop i (drop j s))"
    using assms(3) by (auto simp: glob_Star)
  have "drop (i + j - k) (drop k s) = drop i (drop j s)"
    using assms(1) by simp
  moreover have "i + j - k \<le> length (drop k s)"
    using i(1) assms(1,2) by simp
  ultimately show ?thesis using i(2) by (subst glob_Star) metis
qed

lemma glob_Star_Star: "glob (Star # Star # ts) s \<longleftrightarrow> glob (Star # ts) s"
proof
  assume "glob (Star # Star # ts) s"
  then obtain k where "k \<le> length s" "glob (Star # ts) (drop k s)" by (auto simp: glob_Star [of "Star # ts"])
  then show "glob (Star # ts) s" using glob_Star_mono [of 0 k s ts] by simp
next
  assume "glob (Star # ts) s"
  then show "glob (Star # Star # ts) s" by (subst glob_Star) (auto intro: exI [of _ 0])
qed

section \<open>The loop invariant of the matchers\<close>

text \<open>
  \<open>glob_inv M name ts n X na\<close>: the matcher has \<open>ts\<close> left of its mask and stands at byte
  \<open>n\<close> of the name; \<open>X\<close> is the mask behind the last star, if one was seen, and \<open>na\<close> the
  byte it was last tried from. The answer \<open>M\<close> is then what \<open>glob\<close> says from there: what
  lies between the star and the current position matched literally.
\<close>

definition glob_inv :: "bool \<Rightarrow> cstring \<Rightarrow> glob_tok list \<Rightarrow> nat \<Rightarrow> glob_tok list option \<Rightarrow> nat \<Rightarrow> bool" where
  "glob_inv M name ts n X na \<longleftrightarrow>
     n \<le> length name \<and> na \<le> n \<and>
     (case X of
        None \<Rightarrow> M = glob ts (drop n name)
      | Some as \<Rightarrow> \<exists>seg. as = seg @ ts \<and> Star \<notin> set seg \<and> n = na + length seg
          \<and> list_all2 tok_ok seg (take (length seg) (drop na name))
          \<and> M = glob (Star # as) (drop na name))"

lemma glob_inv_start: "glob_inv (glob ts name) name ts 0 None 0"
  by (simp add: glob_inv_def)

lemma glob_inv_star1:
  assumes "glob_inv M name (Star # ts) n X na"
  shows "glob_inv M name ts n (Some ts) n"
proof (cases X)
  case None
  then show ?thesis using assms by (simp add: glob_inv_def)
next
  case (Some as)
  then obtain seg where seg: "as = seg @ Star # ts" "Star \<notin> set seg" "n = na + length seg"
      "list_all2 tok_ok seg (take (length seg) (drop na name))" "M = glob (Star # as) (drop na name)"
    and n: "n \<le> length name" using assms by (auto simp: glob_inv_def)
  have "M \<longleftrightarrow> glob (Star # ts) (drop n name)"
  proof
    assume M
    then obtain k where k: "k \<le> length (drop na name)" "glob (seg @ Star # ts) (drop k (drop na name))"
      using seg by (auto simp: glob_Star)
    then have "length seg \<le> length (drop k (drop na name))"
      "glob (Star # ts) (drop (length seg) (drop k (drop na name)))"
      using glob_seg [OF seg(2)] by auto
    moreover from this(1) k n seg(3) have "length seg + k + na \<le> length name" by simp
    ultimately show "glob (Star # ts) (drop n name)"
      using glob_Star_mono [of n "length seg + k + na" name ts] seg(3) by (simp add: ac_simps)
  next
    assume "glob (Star # ts) (drop n name)"
    then have "glob (seg @ Star # ts) (drop na name)"
      using seg n by (simp add: glob_seg ac_simps)
    then show M unfolding seg(5) seg(1) by (subst glob_Star) (auto intro: exI [of _ 0])
  qed
  then show ?thesis using n by (simp add: glob_inv_def)
qed

lemma glob_inv_stars:
  "glob_inv M name (replicate k Star @ ts) n X na \<Longrightarrow> 0 < k \<Longrightarrow> glob_inv M name ts n (Some ts) n"
proof (induction k arbitrary: X na)
  case 0
  then show ?case by simp
next
  case (Suc k)
  then have "glob_inv M name (replicate k Star @ ts) n (Some (replicate k Star @ ts)) n"
    by (intro glob_inv_star1) simp
  with Suc.IH show ?case by (cases k) auto
qed

lemma glob_inv_end_None: "glob_inv M name [] n None na \<Longrightarrow> n < length name \<Longrightarrow> \<not> M"
  by (simp add: glob_inv_def)

lemma glob_inv_end_both: "glob_inv M name [] (length name) X na \<Longrightarrow> M"
proof (cases X)
  case None
  then show "glob_inv M name [] (length name) X na \<Longrightarrow> M" by (simp add: glob_inv_def)
next
  case (Some as)
  assume "glob_inv M name [] (length name) X na"
  then have "Star \<notin> set as" "length name = na + length as" "M = glob (Star # as) (drop na name)"
    "list_all2 tok_ok as (take (length as) (drop na name))"
    using Some by (auto simp: glob_inv_def)
  moreover from this have "glob (as @ []) (drop na name)"
    by (subst glob_seg) auto
  ultimately show M by (auto simp: glob_Star intro: exI [of _ 0])
qed

lemma glob_inv_end_any:
  assumes "glob_inv M name [] n (Some as) na" "set as \<subseteq> {Any}"
  shows M
proof -
  have as: "length as \<le> length name - na" "M = glob (Star # as) (drop na name)" "na \<le> length name" "Star \<notin> set as"
    using assms by (auto simp: glob_inv_def)
  have "as ! i = Any" if "i < length as" for i
    using assms(2) nth_mem [OF that] by blast
  then have "list_all2 tok_ok as xs" if "length xs = length as" for xs
    using that by (simp add: list_all2_conv_all_nth)
  then have "glob (as @ []) (drop (length name - na - length as) (drop na name))"
    using as by (subst glob_seg) auto
  then have "glob (Star # as) (drop na name)"
    using as by (subst glob_Star) (auto intro!: exI [of _ "length name - na - length as"])
  then show ?thesis using as(2) by simp
qed

lemma glob_inv_retry:
  assumes "glob_inv M name ts n (Some as) na" "n < length name"
    and "\<not> glob as (drop na name)"
  shows "glob_inv M name as (na + 1) (Some as) (na + 1)"
proof -
  have na: "na < length name" using assms(1,2) by (auto simp: glob_inv_def)
  then have "glob (Star # as) (drop na name) \<longleftrightarrow> glob (Star # as) (drop (na + 1) name)"
    using assms(3) by (simp add: Cons_nth_drop_Suc [symmetric])
  then show ?thesis using assms(1) na by (auto simp: glob_inv_def)
qed

lemma glob_inv_end_retry:
  assumes "glob_inv M name [] n (Some as) na" "n < length name"
  shows "glob_inv M name as (na + 1) (Some as) (na + 1)"
proof (rule glob_inv_retry [OF assms])
  have "Star \<notin> set as" "n = na + length as" using assms(1) by (auto simp: glob_inv_def)
  then show "\<not> glob as (drop na name)"
    using glob_seg [of as "[]" "drop na name"] assms(2) by simp
qed

lemma glob_inv_name_end:
  assumes "glob_inv M name (t # ts) (length name) X na" "t \<noteq> Star"
  shows "\<not> M"
proof (cases X)
  case None
  then show ?thesis using assms by (simp add: glob_inv_def glob_Cons)
next
  case (Some as)
  then obtain seg where seg: "as = seg @ t # ts" "Star \<notin> set seg" "length name = na + length seg"
      "M = glob (Star # as) (drop na name)"
    using assms by (auto simp: glob_inv_def)
  have "\<not> glob (seg @ t # ts) (drop k (drop na name))" for k
    unfolding glob_seg [OF seg(2)] using seg(3) assms(2) by (auto simp: glob_Cons)
  then show ?thesis using seg by (simp add: glob_Star)
qed

lemma glob_inv_mismatch:
  assumes "glob_inv M name (t # ts) n X na" "t \<noteq> Star" "n < length name" "\<not> tok_ok t (name ! n)"
  shows "X = None \<Longrightarrow> \<not> M" and "X = Some as \<Longrightarrow> glob_inv M name as (na + 1) (Some as) (na + 1)"
proof -
  have no: "\<not> glob (t # ts) (drop n name)"
    using assms(2-4) by (simp add: glob_Cons Cons_nth_drop_Suc [symmetric])
  then show "X = None \<Longrightarrow> \<not> M" using assms(1) by (simp add: glob_inv_def)
  assume X: "X = Some as"
  then obtain seg where seg: "as = seg @ t # ts" "Star \<notin> set seg" "n = na + length seg"
    using assms(1) by (auto simp: glob_inv_def)
  have "\<not> glob as (drop na name)"
    unfolding seg(1) glob_seg [OF seg(2)] using no seg(3) by (simp add: ac_simps)
  with assms(1,3) X show "glob_inv M name as (na + 1) (Some as) (na + 1)"
    by (metis glob_inv_retry)
qed

lemma glob_inv_match:
  assumes "glob_inv M name (t # ts) n X na" "t \<noteq> Star" "n < length name" "tok_ok t (name ! n)"
  shows "glob_inv M name ts (n + 1) X na"
proof (cases X)
  case None
  then show ?thesis
    using assms by (simp add: glob_inv_def glob_Cons Cons_nth_drop_Suc [symmetric])
next
  case (Some as)
  then obtain seg where seg: "as = seg @ t # ts" "Star \<notin> set seg" "n = na + length seg"
      "list_all2 tok_ok seg (take (length seg) (drop na name))" "M = glob (Star # as) (drop na name)"
    using assms(1) by (auto simp: glob_inv_def)
  have "take (length (seg @ [t])) (drop na name) = take (length seg) (drop na name) @ [name ! n]"
    using seg(3) assms(3) by (simp add: take_Suc_conv_app_nth)
  then have "list_all2 tok_ok (seg @ [t]) (take (length (seg @ [t])) (drop na name))"
    using seg(4) assms(4) by (simp only: list_all2_append) (simp add: list_all2_appendI)
  then show ?thesis
    using assms(1-3) seg Some unfolding glob_inv_def
    by (auto intro!: exI [of _ "seg @ [t]"])
qed

section \<open>The loops compute \<open>glob\<close>\<close>

lemma skip_stars_step: "c_at msk m = CHR ''*'' \<Longrightarrow> skip_stars msk m = skip_stars msk (Suc m)"
  by (subst skip_stars.simps) simp

lemma skip_stars_stop [simp]: "c_at msk m \<noteq> CHR ''*'' \<Longrightarrow> skip_stars msk m = m"
  by (subst skip_stars.simps) simp

lemma skip_stars_eq: "m \<le> length msk \<Longrightarrow>
  \<exists>k. skip_stars msk m = m + k \<and> m + k \<le> length msk \<and> drop m msk = replicate k (CHR ''*'') @ drop (m + k) msk
    \<and> c_at msk (m + k) \<noteq> CHR ''*''"
proof (induction msk m rule: skip_stars.induct)
  case (1 msk m)
  show ?case
  proof (cases "c_at msk m = CHR ''*''")
    case True
    then have m: "m < length msk" by (auto simp: c_at_def split: if_splits)
    with 1(1) [OF True] obtain k where k: "skip_stars msk (Suc m) = Suc m + k" "Suc m + k \<le> length msk"
      "drop (Suc m) msk = replicate k (CHR ''*'') @ drop (Suc m + k) msk" "c_at msk (Suc m + k) \<noteq> CHR ''*''"
      by auto
    have "drop m msk = CHR ''*'' # drop (Suc m) msk"
      using True m by (simp add: Cons_nth_drop_Suc [symmetric])
    with k True show ?thesis by (intro exI [of _ "Suc k"]) (simp add: skip_stars_step)
  next
    case False
    then show ?thesis using 1(2) by (intro exI [of _ 0]) simp
  qed
qed

lemma back_questions_eq:
  "back_questions msk m \<le> m \<and> (\<forall>i. back_questions msk m < i \<and> i \<le> m \<longrightarrow> c_at msk i = CHR ''?'')
   \<and> (back_questions msk m = 0 \<or> c_at msk (back_questions msk m) \<noteq> CHR ''?'')"
proof (induction msk m rule: back_questions.induct)
  case (1 msk m)
  show ?case
  proof (cases "m > 0 \<and> c_at msk m = CHR ''?''")
    case True
    then have "back_questions msk m = back_questions msk (m - 1)"
      by (subst back_questions.simps) simp
    moreover have "c_at msk i = CHR ''?''" if "back_questions msk (m - 1) < i" "i \<le> m" for i
      using 1 [OF True] True that by (cases "i = m") auto
    ultimately show ?thesis using 1 [OF True] by auto
  next
    case False
    then have "back_questions msk m = m" by (subst back_questions.simps) (simp only: if_False)
    with False show ?thesis by auto
  qed
qed

text \<open>
  What both mask syntaxes share: a star and a question mark stand for themselves at a
  token boundary, and nothing else denotes a star. \<open>ptr_inv\<close> carries \<open>glob_inv\<close> over to
  the pointers of the C loops, \<open>match_measure\<close> is what every round decreases.
\<close>

definition match_measure :: "cstring \<Rightarrow> cstring \<Rightarrow> match_ptrs \<Rightarrow> nat" where
  "match_measure msk name =
     (\<lambda>(m, n, ma, na). (length name - na) * (length msk + 1) + (length msk - m))"

definition ptr_inv :: "(cstring \<Rightarrow> glob_tok list) \<Rightarrow> bool \<Rightarrow> cstring \<Rightarrow> cstring \<Rightarrow> match_ptrs \<Rightarrow> bool" where
  "ptr_inv toks M msk name = (\<lambda>(m, n, ma, na).
     m \<le> length msk
     \<and> glob_inv M name (toks (drop m msk)) n (map_option (\<lambda>a. toks (drop a msk)) ma) na
     \<and> (case ma of None \<Rightarrow> True
        | Some a \<Rightarrow> 0 < a \<and> a \<le> m \<and> msk ! (a - 1) = CHR ''*''
            \<and> (\<forall>i. a \<le> i \<and> i < m \<longrightarrow> msk ! i \<noteq> CHR ''*'')))"

lemma match_measure_retry:
  assumes "na < length name"
  shows "match_measure msk name (a, na + 1, Some a, na + 1) \<le> match_measure msk name (m, n, ma, na)"
    "m < length msk \<Longrightarrow>
     match_measure msk name (a, na + 1, Some a, na + 1) < match_measure msk name (m, n, ma, na)"
proof -
  obtain d where d: "length name - na = Suc d" using assms by (metis Suc_diff_Suc)
  then have "length name - (na + 1) = d" by simp
  with d show "match_measure msk name (a, na + 1, Some a, na + 1) \<le> match_measure msk name (m, n, ma, na)"
    "m < length msk \<Longrightarrow>
     match_measure msk name (a, na + 1, Some a, na + 1) < match_measure msk name (m, n, ma, na)"
    by (simp_all add: match_measure_def)
qed

locale wild_syntax =
  fixes toks :: "cstring \<Rightarrow> glob_tok list"
  assumes toks_Nil: "toks [] = []"
    and toks_star: "toks (CHR ''*'' # s) = Star # toks s"
    and toks_any: "toks (CHR ''?'' # s) = Any # toks s"
    and toks_other: "c \<noteq> CHR ''*'' \<Longrightarrow> \<exists>t ts. toks (c # s) = t # ts \<and> t \<noteq> Star"
begin

lemma toks_stars: "toks (replicate k (CHR ''*'') @ s) = replicate k Star @ toks s"
  by (induction k) (auto simp: toks_star)

lemma toks_anys: "set s \<subseteq> {CHR ''?''} \<Longrightarrow> set (toks s) \<subseteq> {Any}"
  by (induction s) (auto simp: toks_Nil toks_any)

lemma head_star:
  assumes "ptr_inv toks M msk name (m, n, ma, na)" "c_at msk m = CHR ''*''"
  shows "ptr_inv toks M msk name (skip_stars msk m, n, Some (skip_stars msk m), n)"
    and "m < skip_stars msk m" "skip_stars msk m \<le> length msk" "c_at msk (skip_stars msk m) \<noteq> CHR ''*''"
    and "match_measure msk name (skip_stars msk m, n, Some (skip_stars msk m), n)
      \<le> match_measure msk name (m, n, ma, na)"
proof -
  have m: "m \<le> length msk" and gi: "glob_inv M name (toks (drop m msk)) n (map_option (\<lambda>a. toks (drop a msk)) ma) na"
    using assms(1) by (auto simp: ptr_inv_def)
  obtain k where k: "skip_stars msk m = m + k" "m + k \<le> length msk"
    "drop m msk = replicate k (CHR ''*'') @ drop (m + k) msk" "c_at msk (m + k) \<noteq> CHR ''*''"
    using skip_stars_eq [OF m] by blast
  have "0 < k" using k(4) assms(2) by (cases k) auto
  have "msk ! (m + k - 1) = drop m msk ! (k - 1)" using \<open>0 < k\<close> k(2) by simp
  also have "\<dots> = CHR ''*''" using \<open>0 < k\<close> by (simp add: k(3) nth_append)
  finally have star: "msk ! (m + k - 1) = CHR ''*''" .
  have "glob_inv M name (toks (drop (m + k) msk)) n (Some (toks (drop (m + k) msk))) n"
    using gi \<open>0 < k\<close> unfolding k(3) toks_stars by (rule glob_inv_stars)
  then show "ptr_inv toks M msk name (skip_stars msk m, n, Some (skip_stars msk m), n)"
    using star k \<open>0 < k\<close> by (auto simp: ptr_inv_def)
  show "m < skip_stars msk m" "skip_stars msk m \<le> length msk" "c_at msk (skip_stars msk m) \<noteq> CHR ''*''"
    using k \<open>0 < k\<close> by simp_all
  have "na \<le> n" using gi by (simp add: glob_inv_def)
  then show "match_measure msk name (skip_stars msk m, n, Some (skip_stars msk m), n)
      \<le> match_measure msk name (m, n, ma, na)"
    unfolding match_measure_def k(1) split_conv by (intro add_mono mult_le_mono1) simp_all
qed

lemma mask_end:
  assumes "ptr_inv toks M msk name (m, n, Some a, na)" "m = length msk" "n < length name"
  shows "c_at msk (back_questions msk (m - 1)) = CHR ''*'' \<Longrightarrow> M"
    and "c_at msk (back_questions msk (m - 1)) \<noteq> CHR ''*'' \<Longrightarrow>
      a < m \<and> na + 1 < length name \<and> ptr_inv toks M msk name (a, na + 1, Some a, na + 1)"
proof -
  let ?b = "back_questions msk (m - 1)"
  have a: "0 < a" "a \<le> m" "msk ! (a - 1) = CHR ''*''" "\<forall>i. a \<le> i \<and> i < m \<longrightarrow> msk ! i \<noteq> CHR ''*''"
    and gi: "glob_inv M name [] n (Some (toks (drop a msk))) na"
    using assms(1,2) by (auto simp: ptr_inv_def toks_Nil)
  have b: "?b \<le> m - 1" "\<forall>i. ?b < i \<and> i \<le> m - 1 \<longrightarrow> c_at msk i = CHR ''?''"
    using back_questions_eq [of msk "m - 1"] by auto
  have ge: "a - 1 \<le> ?b"
  proof (rule ccontr)
    assume "\<not> a - 1 \<le> ?b"
    then have "c_at msk (a - 1) = CHR ''?''" using b(2) a(2) by auto
    then show False using a assms(2) by (simp add: c_at_def split: if_splits)
  qed
  { assume "c_at msk ?b = CHR ''*''"
    then have "?b = a - 1"
      using a ge b(1) assms(2) by (metis One_nat_def Suc_pred c_at_less diff_less le_antisym le_neq_implies_less less_Suc_eq_le not_less_eq_eq order_le_less_trans zero_less_Suc)
    then have "set (drop a msk) \<subseteq> {CHR ''?''}"
      using b(2) a(1) assms(2) by (force simp: in_set_conv_nth c_at_def split: if_splits)
    then show M using gi toks_anys glob_inv_end_any by blast }
  { assume ns: "c_at msk ?b \<noteq> CHR ''*''"
    have "a < m"
    proof (rule ccontr)
      assume "\<not> a < m"
      then have "?b = a - 1" using a(2) ge b(1) by simp
      then show False using ns a assms(2) by (simp add: c_at_def split: if_splits)
    qed
    then obtain c s where "drop a msk = c # s" "c \<noteq> CHR ''*''"
      using a(4) assms(2) by (metis Cons_nth_drop_Suc order_refl)
    then obtain t ts where t: "toks (drop a msk) = t # ts"
      using toks_other by metis
    then have "na + 1 < length name"
      using gi assms(3) by (auto simp: glob_inv_def)
    moreover have "ptr_inv toks M msk name (a, na + 1, Some a, na + 1)"
      using glob_inv_end_retry [OF gi assms(3)] a assms(2) by (simp add: ptr_inv_def)
    ultimately show "a < m \<and> na + 1 < length name \<and> ptr_inv toks M msk name (a, na + 1, Some a, na + 1)"
      using \<open>a < m\<close> by blast }
qed

definition head_ok :: "bool \<Rightarrow> cstring \<Rightarrow> cstring \<Rightarrow> match_ptrs \<Rightarrow> bool + match_ptrs \<Rightarrow> bool" where
  "head_ok M msk name p r \<longleftrightarrow> (case r of
     Inl v \<Rightarrow> v = M
   | Inr (m, n, ma, na) \<Rightarrow> ptr_inv toks M msk name (m, n, ma, na)
       \<and> m < length msk \<and> n < length name \<and> msk ! m \<noteq> CHR ''*''
       \<and> match_measure msk name (m, n, ma, na) \<le> match_measure msk name p)"

lemma head_no_star:
  assumes inv: "ptr_inv toks M msk name (m, n, ma, na)" and "c_at msk m \<noteq> CHR ''*''" "cstr msk" "cstr name"
  shows "head_ok M msk name (m, n, ma, na) (match_head msk name (m, n, ma, na))"
proof (cases "m = length msk")
  case True
  note m = this
  have gi: "glob_inv M name [] n (map_option (\<lambda>a. toks (drop a msk)) ma) na"
    using inv True by (simp add: ptr_inv_def toks_Nil)
  show ?thesis
  proof (cases "n < length name")
    case True
    then have n: "c_at name n \<noteq> NUL" using assms(4) by simp
    show ?thesis
    proof (cases ma)
      case None
      then have "\<not> M" using glob_inv_end_None gi True by auto
      then show ?thesis using m n assms(2) None by (simp add: match_head_def head_ok_def)
    next
      case (Some a)
      have "a < m \<and> na + 1 < length name \<and> ptr_inv toks M msk name (a, na + 1, Some a, na + 1)"
        if "c_at msk (back_questions msk (m - 1)) \<noteq> CHR ''*''"
        using mask_end(2) [OF _ m True that] inv Some by blast
      moreover have "msk ! a \<noteq> CHR ''*''" if "a < m" using inv Some that by (auto simp: ptr_inv_def)
      moreover have "M" if "c_at msk (back_questions msk (m - 1)) = CHR ''*''"
        using mask_end(1) [OF _ m True that] inv Some by blast
      ultimately show ?thesis
        using m n Some assms(2) match_measure_retry(1) [of na name msk a m n ma]
        by (auto simp: match_head_def head_ok_def)
    qed
  next
    case False
    then have "n = length name" using gi by (simp add: glob_inv_def)
    with gi glob_inv_end_both have M by blast
    with m \<open>n = length name\<close> assms(2) show ?thesis by (simp add: match_head_def head_ok_def)
  qed
next
  case False
  then have m: "m < length msk" using inv by (simp add: ptr_inv_def)
  then have c: "c_at msk m \<noteq> NUL" "msk ! m \<noteq> CHR ''*''" using assms(2,3) by simp_all
  have d: "drop m msk = msk ! m # drop (Suc m) msk" using m by (simp add: Cons_nth_drop_Suc)
  obtain t ts where t: "toks (drop m msk) = t # ts" "t \<noteq> Star"
    using toks_other [OF c(2)] unfolding d by blast
  have gi: "glob_inv M name (t # ts) n (map_option (\<lambda>a. toks (drop a msk)) ma) na"
    using inv t(1) by (simp add: ptr_inv_def)
  show ?thesis
  proof (cases "n < length name")
    case True
    then show ?thesis using m c inv assms by (simp add: match_head_def head_ok_def)
  next
    case False
    then have n: "n = length name" using gi by (simp add: glob_inv_def)
    with gi t(2) have "\<not> M" using glob_inv_name_end by blast
    with n m c assms show ?thesis by (simp add: match_head_def head_ok_def)
  qed
qed

lemma match_head_skip:
  assumes "c_at msk m = CHR ''*''" "c_at msk (skip_stars msk m) \<noteq> CHR ''*''"
  shows "match_head msk name (m, n, ma, na)
    = match_head msk name (skip_stars msk m, n, Some (skip_stars msk m), n)"
  using assms by (simp add: match_head_def)

lemma match_head_ok:
  assumes inv: "ptr_inv toks M msk name (m, n, ma, na)" and "cstr msk" "cstr name"
  shows "head_ok M msk name (m, n, ma, na) (match_head msk name (m, n, ma, na))"
proof (cases "c_at msk m = CHR ''*''")
  case True
  note star = head_star [OF inv True]
  have "head_ok M msk name (skip_stars msk m, n, Some (skip_stars msk m), n)
    (match_head msk name (m, n, ma, na))"
    unfolding match_head_skip [OF True star(4)] by (rule head_no_star [OF star(1,4) assms(2,3)])
  with star(5) show ?thesis by (auto simp: head_ok_def split: sum.splits)
next
  case False
  then show ?thesis using head_no_star assms by blast
qed

lemma step_mismatch:
  assumes inv: "ptr_inv toks M msk name (m, n, ma, na)" and m: "m < length msk" "n < length name"
    and t: "toks (drop m msk) = t # ts" "t \<noteq> Star" "\<not> tok_ok t (name ! n)"
  shows "ma = None \<Longrightarrow> \<not> M"
    and "ma = Some a \<Longrightarrow> ptr_inv toks M msk name (a, na + 1, Some a, na + 1)
      \<and> match_measure msk name (a, na + 1, Some a, na + 1) < match_measure msk name (m, n, ma, na)"
proof -
  have gi: "glob_inv M name (t # ts) n (map_option (\<lambda>a. toks (drop a msk)) ma) na"
    using inv t(1) by (simp add: ptr_inv_def)
  show "ma = None \<Longrightarrow> \<not> M" using glob_inv_mismatch(1) [OF gi t(2) m(2) t(3)] by simp
  assume a: "ma = Some a"
  have "glob_inv M name (toks (drop a msk)) (na + 1) (Some (toks (drop a msk))) (na + 1)"
    using glob_inv_mismatch(2) [OF gi t(2) m(2) t(3)] a by simp
  moreover have "na < length name" using gi m(2) by (auto simp: glob_inv_def)
  ultimately show "ptr_inv toks M msk name (a, na + 1, Some a, na + 1)
      \<and> match_measure msk name (a, na + 1, Some a, na + 1) < match_measure msk name (m, n, ma, na)"
    using inv a m match_measure_retry(2) by (auto simp: ptr_inv_def)
qed

lemma step_match:
  assumes inv: "ptr_inv toks M msk name (m, n, ma, na)" and m: "m < m'" "m' \<le> length msk" "n < length name"
    and t: "toks (drop m msk) = t # toks (drop m' msk)" "t \<noteq> Star" "tok_ok t (name ! n)"
    and nostar: "\<forall>i. m \<le> i \<and> i < m' \<longrightarrow> msk ! i \<noteq> CHR ''*''"
  shows "ptr_inv toks M msk name (m', n + 1, ma, na)
    \<and> match_measure msk name (m', n + 1, ma, na) < match_measure msk name (m, n, ma, na)"
proof -
  have gi: "glob_inv M name (t # toks (drop m' msk)) n (map_option (\<lambda>a. toks (drop a msk)) ma) na"
    using inv t(1) by (simp add: ptr_inv_def)
  have "glob_inv M name (toks (drop m' msk)) (n + 1) (map_option (\<lambda>a. toks (drop a msk)) ma) na"
    by (rule glob_inv_match [OF gi t(2) m(3) t(3)])
  moreover have "msk ! i \<noteq> CHR ''*''" if "ma = Some a" "a \<le> i" "i < m'" for a i
    using inv that nostar by (cases "i < m") (auto simp: ptr_inv_def)
  ultimately show ?thesis using inv m
    by (auto simp: ptr_inv_def match_measure_def split: option.splits)
qed

lemma ptr_inv_start: "ptr_inv toks (glob (toks msk) name) msk name (0, 0, None, 0)"
  by (simp add: ptr_inv_def glob_inv_start)

end

lemma simple_toks_Cons [simp]: "simple_toks (c # s) = simple_tok c # simple_toks s"
  by (simp add: simple_toks_def)

interpretation sw: wild_syntax simple_toks
  by unfold_locales (auto simp: simple_toks_def simple_tok_def)

interpretation ew: wild_syntax esc_toks
  by unfold_locales (auto simp: simple_tok_def split: list.splits)

lemma match_simple_loop_ok:
  assumes "cstr msk" "cstr name"
  shows "ptr_inv simple_toks M msk name p \<Longrightarrow> match_simple_loop msk name p = Some M"
proof (induction p rule: measure_induct_rule [of "match_measure msk name"])
  case (less p)
  obtain m0 n0 ma0 na0 where p: "p = (m0, n0, ma0, na0)" by (cases p)
  have ok: "sw.head_ok M msk name p (match_head msk name p)"
    using sw.match_head_ok less.prems assms unfolding p by blast
  show ?case
  proof (cases "match_head msk name p")
    case (Inl v)
    then show ?thesis using ok by (subst match_simple_loop.simps) (simp add: sw.head_ok_def)
  next
    case (Inr q)
    obtain m n ma na where q: "q = (m, n, ma, na)" by (cases q)
    have inv: "ptr_inv simple_toks M msk name (m, n, ma, na)" and m: "m < length msk" "n < length name"
      and ns: "msk ! m \<noteq> CHR ''*''" and le: "match_measure msk name (m, n, ma, na) \<le> match_measure msk name p"
      using ok Inr q by (simp_all add: sw.head_ok_def)
    have tk: "simple_toks (drop m msk) = simple_tok (msk ! m) # simple_toks (drop (m + 1) msk)"
      using m by (simp add: Cons_nth_drop_Suc [symmetric])
    have nst: "simple_tok (msk ! m) \<noteq> Star" using ns by (simp add: simple_tok_def)
    have tok: "tok_ok (simple_tok (msk ! m)) (name ! n) \<longleftrightarrow> same_char (c_at msk m) (c_at name n) \<or> c_at msk m = CHR ''?''"
      using ns m by (auto simp: simple_tok_def)
    note loop = match_simple_loop.simps [of msk name p, unfolded Inr q, simplified]
    show ?thesis
    proof (cases "tok_ok (simple_tok (msk ! m)) (name ! n)")
      case True
      have "\<forall>i. m \<le> i \<and> i < m + 1 \<longrightarrow> msk ! i \<noteq> CHR ''*''" using ns by (auto simp: less_Suc_eq)
      then have "match_simple_loop msk name (m + 1, n + 1, ma, na) = Some M"
        using sw.step_match [OF inv _ _ m(2) tk nst True] m(1) le by (intro less.IH) auto
      then show ?thesis using True tok by (subst loop) auto
    next
      case False
      note bad = sw.step_mismatch [OF inv m tk nst False]
      show ?thesis
      proof (cases ma)
        case None
        then show ?thesis using bad(1) False tok by (subst loop) auto
      next
        case (Some a)
        have "match_simple_loop msk name (a, na + 1, Some a, na + 1) = Some M"
          using bad(2) [OF Some] le by (intro less.IH) auto
        then show ?thesis using Some False tok by (subst loop) auto
      qed
    qed
  qed
qed


lemma match_simple_glob:
  "cstr msk \<Longrightarrow> cstr name \<Longrightarrow> match_simple msk name = Some (glob (simple_toks msk) name)"
  unfolding match_simple_def by (rule match_simple_loop_ok [OF _ _ sw.ptr_inv_start])

text \<open>
  \<open>match_esc\<close> scans back over the raw characters of the mask, so an escaped star is
  mistaken for a wildcard there; without an escaped star in the mask it is exact.
\<close>

definition no_esc_star :: "cstring \<Rightarrow> bool" where
  "no_esc_star msk \<longleftrightarrow> (\<forall>i. Suc i < length msk \<longrightarrow> msk ! i = CHR 0x5C \<longrightarrow> msk ! Suc i \<noteq> CHR ''*'')"

lemma glob_no_Bad_Esc: "glob ts s \<Longrightarrow> Bad_Esc \<notin> set ts"
  by (induction ts s rule: glob.induct) auto

lemma glob_inv_Bad_Esc: "glob_inv M name (Bad_Esc # ts) n X na \<Longrightarrow> \<not> M"
  using glob_no_Bad_Esc by (fastforce simp: glob_inv_def split: option.splits)

lemma match_esc_loop_ok:
  assumes "cstr msk" "cstr name" "no_esc_star msk"
  shows "ptr_inv esc_toks M msk name p \<Longrightarrow> match_esc_loop msk name p = Some M"
proof (induction p rule: measure_induct_rule [of "match_measure msk name"])
  case (less p)
  obtain m0 n0 ma0 na0 where p: "p = (m0, n0, ma0, na0)" by (cases p)
  have ok: "ew.head_ok M msk name p (match_head msk name p)"
    using ew.match_head_ok less.prems assms unfolding p by blast
  show ?case
  proof (cases "match_head msk name p")
    case (Inl v)
    then show ?thesis using ok by (subst match_esc_loop.simps) (simp add: ew.head_ok_def)
  next
    case (Inr q)
    obtain m n ma na where q: "q = (m, n, ma, na)" by (cases q)
    have inv: "ptr_inv esc_toks M msk name (m, n, ma, na)" and m: "m < length msk" "n < length name"
      and ns: "msk ! m \<noteq> CHR ''*''" and le: "match_measure msk name (m, n, ma, na) \<le> match_measure msk name p"
      using ok Inr q by (simp_all add: ew.head_ok_def)
    note loop = match_esc_loop.simps [of msk name p, unfolded Inr q, simplified]
    have d: "drop m msk = msk ! m # drop (Suc m) msk" using m by (simp add: Cons_nth_drop_Suc)
    have adv: "match_esc_loop msk name (m', n + 1, ma, na) = Some M"
      if "esc_toks (drop m msk) = t # esc_toks (drop m' msk)" "t \<noteq> Star" "tok_ok t (name ! n)" "m < m'" "m' \<le> length msk"
        "\<forall>i. m \<le> i \<and> i < m' \<longrightarrow> msk ! i \<noteq> CHR ''*''" for t m'
      using ew.step_match [OF inv that(4,5) m(2) that(1-3,6)] le by (intro less.IH) auto
    have retry: "(case ma of None \<Rightarrow> Some False | Some a \<Rightarrow> match_esc_loop msk name (a, na + 1, ma, na + 1)) = Some M"
      if "esc_toks (drop m msk) = t # ts" "t \<noteq> Star" "\<not> tok_ok t (name ! n)" for t ts
      using ew.step_mismatch [OF inv m that] le less.IH by (cases ma) force+
    consider "msk ! m = CHR ''?''" | "msk ! m = CHR 0x5C" "Suc m = length msk"
      | "msk ! m = CHR 0x5C" "Suc m < length msk" | "msk ! m \<noteq> CHR ''?''" "msk ! m \<noteq> CHR 0x5C"
      using m by fastforce
    then show ?thesis
    proof cases
      case 1
      then have "match_esc_loop msk name (m + 1, n + 1, ma, na) = Some M"
        using d m by (intro adv [of Any]) (auto simp: simple_tok_def less_Suc_eq)
      with 1 m show ?thesis by (subst loop) simp
    next
      case 2
      then have "\<not> M" using inv d by (auto simp: ptr_inv_def dest: glob_inv_Bad_Esc)
      with 2 m show ?thesis by (subst loop) (simp add: c_at_def)
    next
      case 3
      then have tk: "esc_toks (drop m msk) = Lit (msk ! Suc m) # esc_toks (drop (m + 2) msk)"
        using d by (simp add: Cons_nth_drop_Suc [symmetric])
      have nn: "c_at msk (Suc m) \<noteq> NUL" "msk ! Suc m \<noteq> CHR ''*''"
        using 3 assms by (auto simp: no_esc_star_def)
      have "\<forall>i. m \<le> i \<and> i < m + 2 \<longrightarrow> msk ! i \<noteq> CHR ''*''"
        using ns nn(2) by (auto simp: less_Suc_eq numeral_2_eq_2)
      with 3 m nn(1) adv [OF tk] retry [OF tk] show ?thesis
        by (subst loop) (auto simp: Let_def numeral_2_eq_2)
    next
      case 4
      then have tk: "esc_toks (drop m msk) = Lit (msk ! m) # esc_toks (drop (m + 1) msk)"
        using d ns by (simp add: simple_tok_def)
      have "\<forall>i. m \<le> i \<and> i < m + 1 \<longrightarrow> msk ! i \<noteq> CHR ''*''"
        using ns by (auto simp: less_Suc_eq)
      with 4 m adv [OF tk] retry [OF tk] show ?thesis by (subst loop) (auto simp: Let_def)
    qed
  qed
qed


lemma match_esc_glob:
  "cstr msk \<Longrightarrow> cstr name \<Longrightarrow> no_esc_star msk \<Longrightarrow> match_esc msk name = Some (glob (esc_toks msk) name)"
  unfolding match_esc_def by (rule match_esc_loop_ok [OF _ _ _ ew.ptr_inv_start])

section \<open>Collapsing keeps the language\<close>

lemma glob_Star_Any: "glob (Star # Any # ts) s \<longleftrightarrow> glob (Any # Star # ts) s"
proof (induction s)
  case (Cons x xs)
  then show ?case by (cases xs) auto
qed simp

lemma glob_tail_cong: "(\<And>s. glob u s = glob v s) \<Longrightarrow> glob (ts @ u) s = glob (ts @ v) s"
proof (induction ts arbitrary: s)
  case (Cons t ts)
  then show ?case by (cases "t = Star") (simp_all add: glob_Star glob_Cons)
qed simp

lemma glob_Star_wilds:
  "set w \<subseteq> {Star, Any} \<Longrightarrow> glob (Star # w @ ts) s \<longleftrightarrow> glob (Star # filter (\<lambda>t. t = Any) w @ ts) s"
proof (induction w arbitrary: s)
  case (Cons t w)
  then have IH: "glob (Star # w @ ts) s \<longleftrightarrow> glob (Star # filter (\<lambda>t. t = Any) w @ ts) s" for s by simp
  consider "t = Star" | "t = Any" using Cons.prems by auto
  then show ?case
  proof cases
    case 1
    then show ?thesis using IH by (simp add: glob_Star_Star)
  next
    case 2
    then show ?thesis using IH by (simp only: append_Cons glob_Star_Any glob_Cons filter.simps) (simp add: glob_Cons glob_Star_Any)
  qed
qed simp

text \<open>
  \<open>collapse\<close> is sound for every syntax that reads a character other than the backslash on
  its own and in which a backslash and its successor form whole tokens.
\<close>

locale collapse_syntax = wild_syntax +
  assumes toks_plain: "c \<noteq> CHR 0x5C \<Longrightarrow> toks (c # s) = simple_tok c # toks s"
    and toks_esc: "\<exists>ts. \<forall>s. toks (CHR 0x5C # c # s) = ts @ toks s"
begin

lemma toks_wilds: "set w \<subseteq> {CHR ''*'', CHR ''?''} \<Longrightarrow> toks (w @ s) = map simple_tok w @ toks s"
  by (induction w) (auto simp: toks_star toks_any simple_tok_def)

lemma glob_collapse_run:
  "glob (toks (CHR ''*'' # s)) x
   = glob (toks (CHR ''*'' # filter (\<lambda>x. x = CHR ''?'') (takeWhile is_wild s) @ dropWhile is_wild s)) x"
proof -
  let ?w = "takeWhile is_wild s" and ?r = "dropWhile is_wild s"
  have w: "set ?w \<subseteq> {CHR ''*'', CHR ''?''}" by (auto dest: set_takeWhileD)
  then have "set (filter (\<lambda>x. x = CHR ''?'') ?w) \<subseteq> {CHR ''*'', CHR ''?''}" by auto
  then have "toks (filter (\<lambda>x. x = CHR ''?'') ?w @ ?r) = map simple_tok (filter (\<lambda>x. x = CHR ''?'') ?w) @ toks ?r"
    by (rule toks_wilds)
  also have "map simple_tok (filter (\<lambda>x. x = CHR ''?'') ?w) = filter (\<lambda>t. t = Any) (map simple_tok ?w)"
    using w by (auto simp: filter_map comp_def simple_tok_def intro: filter_cong)
  finally have f: "toks (filter (\<lambda>x. x = CHR ''?'') ?w @ ?r) = filter (\<lambda>t. t = Any) (map simple_tok ?w) @ toks ?r" .
  have "toks s = map simple_tok ?w @ toks ?r"
    using toks_wilds [OF w, of ?r] by simp
  moreover have "set (map simple_tok ?w) \<subseteq> {Star, Any}" using w by (auto simp: simple_tok_def)
  ultimately show ?thesis using f glob_Star_wilds by (simp add: toks_star)
qed

lemma glob_collapse: "glob (toks (collapse p)) x = glob (toks p) x"
proof (induction p arbitrary: x rule: measure_induct_rule [of length])
  case (less p)
  have step: "glob (toks (CHR ''*'' # collapse s)) x = glob (toks (CHR ''*'' # s)) x" if "length s < length p" for s x
    using less.IH [OF that] by (simp add: toks_star glob_Star)
  consider "p = []" | "p = [CHR 0x5C]" | c s where "p = CHR 0x5C # c # s"
    | "p = [CHR ''*'']" | s where "p = CHR ''*'' # CHR ''*'' # s" | s where "p = CHR ''*'' # CHR ''?'' # s"
    | c s where "p = CHR ''*'' # c # s" "c \<noteq> CHR ''*''" "c \<noteq> CHR ''?''"
    | c s where "p = c # s" "c \<noteq> CHR 0x5C" "c \<noteq> CHR ''*''"
    by (metis neq_Nil_conv)
  then show ?case
  proof cases
    case (3 c s)
    obtain ts where "\<forall>s. toks (CHR 0x5C # c # s) = ts @ toks s" using toks_esc by blast
    moreover have "glob (ts @ toks (collapse s)) x = glob (ts @ toks s) x" for ts
      by (rule glob_tail_cong) (rule less.IH, simp add: 3)
    ultimately show ?thesis using 3 by (simp add: collapse.simps)
  next
    case (5 s)
    have "\<exists>w. s = w @ dropWhile is_star s \<and> set w \<subseteq> {CHR ''*''}"
      by (intro exI [of _ "takeWhile is_star s"]) (auto dest: set_takeWhileD)
    then obtain w where w: "s = w @ dropWhile is_star s" "set w \<subseteq> {CHR ''*''}" by blast
    have "glob (toks (CHR ''*'' # w @ u)) x = glob (toks (CHR ''*'' # u)) x" for u x
      using w(2) by (induction w) (auto simp: toks_star glob_Star_Star)
    then have "glob (toks p) x = glob (toks (CHR ''*'' # dropWhile is_star s)) x"
      using w(1) 5 by (metis glob_Star_Star toks_star)
    moreover have "length (dropWhile is_star s) < length p"
      using 5 by (simp add: less_Suc_eq_le length_dropWhile_le le_SucI)
    ultimately show ?thesis using 5 step by (simp add: collapse.simps)
  next
    case (6 s)
    let ?r = "filter (\<lambda>x. x = CHR ''?'') (takeWhile is_wild s) @ dropWhile is_wild s"
    have "length (CHR ''?'' # ?r) < length p"
      using 6 length_collapse_arg [of _ _ s] by (simp add: less_Suc_eq_le)
    then have "glob (toks (collapse p)) x = glob (toks (CHR ''*'' # CHR ''?'' # ?r)) x"
      using 6 step by (simp add: collapse.simps(2) [of "CHR ''*''"])
    also have "\<dots> = glob (toks p) x"
      using 6 glob_collapse_run [of "CHR ''?'' # s" x] by simp
    finally show ?thesis .
  next
    case (7 c s)
    then show ?thesis using step [of "c # s"] by (simp add: collapse.simps(2) [of "CHR ''*''"])
  next
    case (8 c s)
    have "glob ([simple_tok c] @ toks (collapse s)) x = glob ([simple_tok c] @ toks s) x"
      by (rule glob_tail_cong) (rule less.IH, simp add: 8)
    then show ?thesis using 8 by (simp add: collapse.simps toks_plain)
  qed (simp_all add: collapse.simps)
qed

end

interpretation sc: collapse_syntax simple_toks
  by unfold_locales (auto simp: simple_toks_def intro: exI [of _ "map simple_tok _"])

interpretation ec: collapse_syntax esc_toks
  by unfold_locales (auto intro: exI [of _ "[Lit _]"])


lemma length_collapse: "length (collapse p) \<le> length p"
proof (induction p rule: measure_induct_rule [of length])
  case (less p)
  have IH: "length (collapse s) \<le> k" if "length s \<le> k" "k < length p" for s k
    using less.IH [of s] that by simp
  consider "p = []" | c where "p = [c]" | c c' s where "p = c # c' # s" by (metis neq_Nil_conv)
  then show ?case
  proof cases
    case (3 c c' s)
    have "length (collapse (dropWhile is_star (c' # s))) \<le> Suc (length s)"
      using IH [OF length_dropWhile_le [of is_star "c' # s"]] 3 by (simp del: dropWhile.simps)
    moreover have "length (collapse (c' # filter (\<lambda>x. x = CHR ''?'') (takeWhile is_wild s) @ dropWhile is_wild s))
      \<le> Suc (length s)"
      using IH [of _ "Suc (length s)"] length_collapse_arg [of "\<lambda>x. x = CHR ''?''" is_wild s] 3 by simp
    ultimately show ?thesis
      using IH [of s "length s"] IH [of "c' # s" "Suc (length s)"] unfolding 3
      by (subst collapse.simps(2)) (auto simp del: dropWhile.simps)
  qed (simp_all add: collapse.simps)
qed

section \<open>Properties\<close>

text \<open>
  C10: on every NUL-terminated mask and name the pointer loop of \<^verbatim>\<open>match_simple\<close>
  returns, and its answer is the declarative one: some way of splitting the name over the
  stars makes every other mask character fit (\<^verbatim>\<open>?\<close> any byte, \<^verbatim>\<open>_\<close> also a blank,
  letters in either case).
\<close>

theorem match_simple_correct:
  "cstr msk \<Longrightarrow> cstr name \<Longrightarrow> match_simple msk name = Some (glob (simple_toks msk) name)"
  by (rule match_simple_glob)

theorem match_simple_correct_witness:
  "match_simple ''*!*@*.Example.?et'' ''Nick!u@irc.example.net'' = Some True
   \<and> match_simple ''a*b?c'' ''axbcbc'' = Some False"
proof -
  have "glob (simple_toks ''*!*@*.Example.?et'') ''Nick!u@irc.example.net''" by code_simp
  moreover have "\<not> glob (simple_toks ''a*b?c'') ''axbcbc''" by code_simp
  ultimately show ?thesis
    using match_simple_correct [of "''*!*@*.Example.?et''" "''Nick!u@irc.example.net''"]
      match_simple_correct [of "''a*b?c''" "''axbcbc''"]
    by simp
qed

text \<open>
  C34: \<^verbatim>\<open>match_esc\<close> returns and agrees with the declarative reading, in which a
  backslash makes the next character literal and a dangling one never matches, for every
  mask in which no star is escaped.
\<close>

theorem match_esc_correct:
  "cstr msk \<Longrightarrow> cstr name \<Longrightarrow> no_esc_star msk \<Longrightarrow> match_esc msk name = Some (glob (esc_toks msk) name)"
  by (rule match_esc_glob)

theorem match_esc_correct_witness:
  "match_esc [CHR ''a'', CHR ''*'', CHR 0x5C, CHR ''?'', CHR ''c''] ''aab?c'' = Some True"
proof -
  have "glob (esc_toks [CHR ''a'', CHR ''*'', CHR 0x5C, CHR ''?'', CHR ''c'']) ''aab?c''" by code_simp
  moreover have "no_esc_star [CHR ''a'', CHR ''*'', CHR 0x5C, CHR ''?'', CHR ''c'']"
    by (auto simp: no_esc_star_def less_Suc_eq nth_Cons')
  ultimately show ?thesis
    using match_esc_correct [of "[CHR ''a'', CHR ''*'', CHR 0x5C, CHR ''?'', CHR ''c'']" "''aab?c''"]
    by (simp add: char_of_def)
qed

text \<open>
  an escaped star at the end of a mask behind a wildcard is taken for a wildcard by the
  backward scan: the mask \<^verbatim>\<open>*\*\<close> demands a final asterisk, yet \<^verbatim>\<open>match_esc\<close>
  accepts \<^verbatim>\<open>*x\<close>.
\<close>

theorem match_esc_escaped_star:
  "match_esc [CHR ''*'', CHR 0x5C, CHR ''*''] ''*x'' = Some True
   \<and> \<not> glob (esc_toks [CHR ''*'', CHR 0x5C, CHR ''*'']) ''*x''"
  by code_simp

text \<open>
  C35: \<^verbatim>\<open>collapse\<close> does not change what a pattern matches, read by \<^verbatim>\<open>match_simple\<close>
  or with escapes, and never lengthens it, as an in-place rewrite requires.
\<close>

theorem collapse_sound:
  "glob (esc_toks (collapse p)) s = glob (esc_toks p) s
   \<and> glob (simple_toks (collapse p)) s = glob (simple_toks p) s
   \<and> length (collapse p) \<le> length p"
  by (intro conjI ec.glob_collapse sc.glob_collapse length_collapse)

end
