(* ===== verification/Support.thy ===== *)
theory Support
  imports Ctype
begin

text \<open>
  String helpers (\<^verbatim>\<open>src/support.c\<close>). A destination buffer is the C string it holds;
  the capacity is the \<^verbatim>\<open>size\<close> argument, and the bounds lemmas show that the string
  written, with its terminating NUL, fits it. \<^verbatim>\<open>strtoken\<close> and
  \<^verbatim>\<open>strtoken_noskip\<close> return the token and the new value of \<^verbatim>\<open>*save\<close>, a suffix
  of the buffer or \<open>None\<close> for NULL; the token is the part of the buffer the call
  terminates.
\<close>

section \<open>The model\<close>

subsection \<open>Tokens\<close>

definition strtoken :: "cstring option \<Rightarrow> cstring option \<Rightarrow> cstring \<Rightarrow> cstring option \<times> cstring option" where
  "strtoken save str fs =
     (case (case str of Some s \<Rightarrow> Some s | None \<Rightarrow> save) of
        None \<Rightarrow> (None, None)
      | Some start \<Rightarrow>
          let pos = dropWhile (\<lambda>c. c \<in> set fs) start
          in if pos = [] then (None, None)
             else let tmp = takeWhile (\<lambda>c. c \<notin> set fs) pos;
                      rest = dropWhile (\<lambda>c. c \<notin> set fs) pos
                  in (Some tmp, if rest \<noteq> [] then Some (tl rest) else None))"

definition strtoken_noskip :: "cstring option \<Rightarrow> cstring option \<Rightarrow> cstring \<Rightarrow> cstring option \<times> cstring option" where
  "strtoken_noskip save str fs =
     (case (case str of Some s \<Rightarrow> Some s | None \<Rightarrow> save) of
        None \<Rightarrow> (None, None)
      | Some pos \<Rightarrow>
          let tmp = takeWhile (\<lambda>c. c \<notin> set fs) pos;
              rest = dropWhile (\<lambda>c. c \<notin> set fs) pos
          in (Some tmp, if rest = [] then None else Some (tl rest)))"

text \<open>The loop of the callers: a first call on the string, then calls on \<^verbatim>\<open>NULL\<close>.\<close>

definition save_len :: "cstring option \<Rightarrow> nat" where
  "save_len save = (case save of None \<Rightarrow> 0 | Some s \<Rightarrow> length s)"

lemma length_tl_dropWhile: "dropWhile P s \<noteq> [] \<Longrightarrow> length (tl (dropWhile P s)) < length s"
  using length_dropWhile_le [of P s] by (cases "dropWhile P s") auto

lemma strtoken_noskip_shrinks:
  "strtoken_noskip save None fs = (Some tok, Some save') \<Longrightarrow> length save' < save_len save"
  by (cases save)
     (auto simp: strtoken_noskip_def Let_def save_len_def
       simp del: length_tl dropWhile_eq_Nil_conv split: if_splits intro: length_tl_dropWhile)

lemma strtoken_shrinks: "strtoken save None fs = (Some tok, Some save') \<Longrightarrow> length save' < save_len save"
  by (cases save)
     (auto simp: strtoken_def Let_def save_len_def
       simp del: length_tl dropWhile_eq_Nil_conv split: if_splits
       intro: order_less_le_trans [OF length_tl_dropWhile length_dropWhile_le])

function strtoken_all :: "cstring \<Rightarrow> cstring option \<Rightarrow> cstring list" where
  "strtoken_all fs save =
     (case strtoken save None fs of
        (None, _) \<Rightarrow> []
      | (Some tok, None) \<Rightarrow> [tok]
      | (Some tok, Some save') \<Rightarrow> tok # strtoken_all fs (Some save'))"
  by pat_completeness auto
termination
  by (relation "measure (\<lambda>(fs, save). save_len save)", simp)
     (simp only: in_measure split_conv, metis strtoken_shrinks save_len_def option.case(2))

function strtoken_noskip_all :: "cstring \<Rightarrow> cstring option \<Rightarrow> cstring list" where
  "strtoken_noskip_all fs save =
     (case strtoken_noskip save None fs of
        (None, _) \<Rightarrow> []
      | (Some tok, None) \<Rightarrow> [tok]
      | (Some tok, Some save') \<Rightarrow> tok # strtoken_noskip_all fs (Some save'))"
  by pat_completeness auto
termination
  by (relation "measure (\<lambda>(fs, save). save_len save)", simp)
     (simp only: in_measure split_conv, metis strtoken_noskip_shrinks save_len_def option.case(2))

declare strtoken_all.simps [simp del] strtoken_noskip_all.simps [simp del]

subsection \<open>Bounded copies\<close>

definition stripcrlf :: "cstring \<Rightarrow> cstring" where
  "stripcrlf s = takeWhile (\<lambda>c. c \<noteq> CHR 0x0A \<and> c \<noteq> CHR 0x0D) s"

definition strnlen :: "cstring \<Rightarrow> nat \<Rightarrow> nat" where
  "strnlen s maxlen = (if length s < maxlen then length s else maxlen)"

definition strlcpy :: "cstring \<Rightarrow> cstring \<Rightarrow> nat \<Rightarrow> cstring \<times> nat" where
  "strlcpy dst src sz =
     (let ret = length src
      in if sz \<le> 0 then (dst, 0)
         else let len = (if ret \<ge> sz then sz - 1 else ret) in (take len src, ret))"

definition strlncpy :: "cstring \<Rightarrow> cstring \<Rightarrow> nat \<Rightarrow> nat \<Rightarrow> cstring \<times> nat" where
  "strlncpy dst src sz n =
     (let ret = strnlen src n
      in if sz \<le> 0 then (dst, 0)
         else let len = (if ret \<ge> sz then sz - 1 else ret) in (take len src, ret))"

definition strlcat :: "cstring \<Rightarrow> cstring \<Rightarrow> nat \<Rightarrow> cstring \<times> nat" where
  "strlcat dst src sz =
     (let len1 = length dst; len2 = length src; ret = len1 + len2
      in if sz \<le> len1 then (dst, sz)
         else let len2' = (if len1 + len2 \<ge> sz then sz - (len1 + 1) else len2)
              in (if len2' > 0 then dst @ take len2' src else dst, ret))"

definition strlncat :: "cstring \<Rightarrow> cstring \<Rightarrow> nat \<Rightarrow> nat \<Rightarrow> cstring \<times> nat" where
  "strlncat dst src sz n =
     (let len1 = length dst; len2 = strnlen src n; ret = len1 + len2
      in if sz \<le> len1 then (dst, sz)
         else let len2' = (if len1 + len2 \<ge> sz then sz - (len1 + 1) else len2)
              in (if len2' > 0 then dst @ take len2' src else dst, ret))"

definition strlcat_letter :: "cstring \<Rightarrow> char \<Rightarrow> nat \<Rightarrow> cstring" where
  "strlcat_letter buf c buflen =
     (let n = length buf
      in if buflen = 0 \<or> n \<ge> buflen - 1 then buf else buf @ (if c = NUL then [] else [c]))"

definition strldup :: "cstring option \<Rightarrow> nat \<Rightarrow> cstring option" where
  "strldup src mx =
     (case src of
        None \<Rightarrow> None
      | Some s \<Rightarrow>
          if mx = 0 then None
          else let n = (if length s > mx - 1 then mx - 1 else length s) in Some (take n s))"

subsection \<open>Case conversion and prefixes\<close>

fun tolower_copy :: "(char \<Rightarrow> char) \<Rightarrow> cstring \<Rightarrow> nat \<Rightarrow> cstring" where
  "tolower_copy f [] sz = []"
| "tolower_copy f (c # s) sz = (if sz = 0 then [] else f c # tolower_copy f s (sz - 1))"

definition strtolower_safe :: "cstring \<Rightarrow> cstring \<Rightarrow> nat \<Rightarrow> cstring" where
  "strtolower_safe dst src sz = (if sz = 0 then dst else tolower_copy tolower src (sz - 1))"

definition strtolower :: "cstring \<Rightarrow> cstring" where
  "strtolower = map tolower"

definition strtoupper_safe :: "cstring \<Rightarrow> cstring \<Rightarrow> nat \<Rightarrow> cstring" where
  "strtoupper_safe dst src sz = (if sz = 0 then dst else tolower_copy toupper src (sz - 1))"

definition strtoupper :: "cstring \<Rightarrow> cstring" where
  "strtoupper = map toupper"

text \<open>
  \<^verbatim>\<open>strncmp\<close> and \<^verbatim>\<open>strncasecmp\<close> of the C library as equality tests; the latter folds
  the ASCII letters, as \<open>tolower\<close> does.
\<close>

fun strneq :: "(char \<Rightarrow> char) \<Rightarrow> cstring \<Rightarrow> cstring \<Rightarrow> nat \<Rightarrow> bool" where
  "strneq f a b 0 \<longleftrightarrow> True"
| "strneq f (x # a) (y # b) (Suc n) \<longleftrightarrow> f x = f y \<and> strneq f a b n"
| "strneq f [] [] (Suc n) \<longleftrightarrow> True"
| "strneq f _ _ (Suc n) \<longleftrightarrow> False"

definition str_starts_with_case_sensitive :: "cstring \<Rightarrow> cstring \<Rightarrow> bool" where
  "str_starts_with_case_sensitive haystack needle = strneq id haystack needle (length needle)"

definition str_ends_with_case_sensitive :: "cstring \<Rightarrow> cstring \<Rightarrow> bool" where
  "str_ends_with_case_sensitive haystack needle =
     (if length haystack < length needle then False
      else strneq id (drop (length haystack - length needle) haystack) needle (length needle))"

definition str_starts_with_case_insensitive :: "cstring \<Rightarrow> cstring \<Rightarrow> bool" where
  "str_starts_with_case_insensitive haystack needle = strneq tolower haystack needle (length needle)"

definition str_ends_with_case_insensitive :: "cstring \<Rightarrow> cstring \<Rightarrow> bool" where
  "str_ends_with_case_insensitive haystack needle =
     (if length haystack < length needle then False
      else strneq tolower (drop (length haystack - length needle) haystack) needle (length needle))"

definition strcaseeq :: "cstring \<Rightarrow> cstring \<Rightarrow> bool" where
  "strcaseeq a b \<longleftrightarrow> map tolower a = map tolower b"

subsection \<open>Escaping\<close>

text \<open>
  \<^verbatim>\<open>xmlescape\<close> stops at the first character whose escape does not fit; \<open>xml_ent\<close> is the
  text each branch writes.
\<close>

definition xml_ent :: "char \<Rightarrow> cstring" where
  "xml_ent c =
     (if c = CHR 0x22 then ''&quot;'' else if c = CHR 0x27 then ''&apos;''
      else if c = CHR ''<'' then ''&lt;'' else if c = CHR ''>'' then ''&gt;''
      else if c = CHR ''&'' then ''&amp;'' else [c])"

fun xmlescape :: "cstring \<Rightarrow> int \<Rightarrow> cstring" where
  "xmlescape [] bufsize = []"
| "xmlescape (c # i) bufsize =
     (if bufsize \<le> int (length (xml_ent c)) then []
      else xml_ent c @ xmlescape i (bufsize - int (length (xml_ent c))))"

subsection \<open>Paths\<close>

definition is_sep :: "char \<Rightarrow> bool" where
  "is_sep c \<longleftrightarrow> c = CHR 0x5C \<or> c = CHR ''/''"

fun scan_back :: "cstring \<Rightarrow> nat \<Rightarrow> nat" where
  "scan_back s e = (if \<not> is_sep (c_at s e) \<and> e > 0 then scan_back s (e - 1) else e)"

declare scan_back.simps [simp del]

definition unreal_getpathname :: "nat \<Rightarrow> cstring \<Rightarrow> cstring option" where
  "unreal_getpathname path_max filepath =
     (let e = scan_back filepath (length filepath)
      in if e = 0 then None else if e \<ge> path_max then None else Some (take e filepath))"

fun filename_start :: "cstring \<Rightarrow> nat \<Rightarrow> nat" where
  "filename_start s 0 = 0"
| "filename_start s (Suc e) = (if is_sep (c_at s (Suc e)) then Suc e + 1 else filename_start s e)"

definition unreal_getfilename :: "cstring \<Rightarrow> cstring option" where
  "unreal_getfilename path =
     (if length path = 0 then None
      else if is_sep (c_at path (length path - 1)) then None
      else Some (drop (filename_start path (length path - 1)) path))"

fun last_sep :: "cstring \<Rightarrow> nat \<Rightarrow> nat option" where
  "last_sep s 0 = None"
| "last_sep s (Suc e) = (if is_sep (c_at s e) then Some e else last_sep s e)"

definition unreal_getmodfilename :: "cstring option \<Rightarrow> cstring option" where
  "unreal_getmodfilename path =
     (case path of
        None \<Rightarrow> None
      | Some p \<Rightarrow>
          if p = [] then Some p
          else let buf = take 511 p
               in Some (take 511
                    (case last_sep buf (length buf) of
                       None \<Rightarrow> buf
                     | Some i \<Rightarrow>
                         let name = drop (i + 1) buf;
                             front = take i buf;
                             directory = (case last_sep front i of None \<Rightarrow> front | Some j \<Rightarrow> drop (j + 1) front)
                         in if directory = ''modules'' then name else directory @ ''.'' @ name)))"

text \<open>
  \<^verbatim>\<open>mkdir\<close> is the system call, a parameter on a file system state: it returns 0 on
  success and -1 on failure.
\<close>

fun mkdir_prefixes :: "('s \<Rightarrow> cstring \<Rightarrow> 's \<times> int) \<Rightarrow> cstring \<Rightarrow> cstring \<Rightarrow> 's \<Rightarrow> 's" where
  "mkdir_prefixes mkdir pre [] s = s"
| "mkdir_prefixes mkdir pre (c # rest) s =
     mkdir_prefixes mkdir (pre @ [c]) rest (if c = CHR ''/'' then fst (mkdir s pre) else s)"

definition unreal_create_directory_structure ::
  "('s \<Rightarrow> cstring \<Rightarrow> 's \<times> int) \<Rightarrow> 's \<Rightarrow> cstring \<Rightarrow> 's \<times> int" where
  "unreal_create_directory_structure mkdir s dname =
     (let (s1, r) = mkdir s dname
      in if r = 0
         then let buf = take 511 dname;
                  s2 = mkdir_prefixes mkdir (take 1 buf) (drop 1 buf) s1;
                  (s3, r') = mkdir s2 dname
              in if r' \<noteq> 0 then (s3, 0) else (s3, 1)
         else (s1, 1))"

definition unreal_create_directory_structure_for_file ::
  "nat \<Rightarrow> ('s \<Rightarrow> cstring \<Rightarrow> 's \<times> int) \<Rightarrow> 's \<Rightarrow> cstring \<Rightarrow> 's \<times> int" where
  "unreal_create_directory_structure_for_file path_max mkdir s fname =
     (case unreal_getpathname path_max fname of
        None \<Rightarrow> (s, 0)
      | Some path \<Rightarrow> unreal_create_directory_structure mkdir s path)"

subsection \<open>Uncompressed IPv6 addresses\<close>

text \<open>
  \<^verbatim>\<open>inet_ntop\<close> is the C library's, a parameter. The first loop counts colons up to an
  embedded IPv4 part; the second copies and, where it sees two colons, fills in zeros.
\<close>

fun has_dcolon :: "cstring \<Rightarrow> bool" where
  "has_dcolon (a # b # s) \<longleftrightarrow> a = CHR '':'' \<and> b = CHR '':'' \<or> has_dcolon (b # s)"
| "has_dcolon _ \<longleftrightarrow> False"

fun colon_cnt :: "cstring \<Rightarrow> nat" where
  "colon_cnt [] = 0"
| "colon_cnt (c # s) = (if c = CHR '':'' then 1 else 0) + (if c = CHR ''.'' then 1 else colon_cnt s)"

fun expand_loop :: "bool \<Rightarrow> nat \<Rightarrow> cstring \<Rightarrow> cstring" where
  "expand_loop start cnt [] = []"
| "expand_loop start cnt (c # s) =
     (if c = CHR '':'' \<and> s \<noteq> [] \<and> hd s = CHR '':''
      then (if start then ''0:'' else '':'') @ ''0'' @ concat (replicate (7 - cnt) '':0'')
           @ expand_loop False (if cnt < 7 then 8 else cnt + 1) s
      else c # expand_loop False cnt s)"

definition inetntop :: "('af \<Rightarrow> 'addr \<Rightarrow> cstring) \<Rightarrow> 'af \<Rightarrow> 'addr \<Rightarrow> cstring \<Rightarrow> nat \<Rightarrow> cstring" where
  "inetntop inet_ntop af addr dst sz =
     (let tmp = inet_ntop af addr
      in if \<not> has_dcolon tmp then fst (strlcpy dst tmp sz)
         else let res = expand_loop True (colon_cnt tmp) tmp
              in if last res = CHR '':'' then res @ ''0'' else res)"

section \<open>Tokens are the fields of the string\<close>

text \<open>\<open>fields\<close> cuts a string at every separator and keeps empty fields.\<close>

fun fields :: "cstring \<Rightarrow> cstring \<Rightarrow> cstring list" where
  "fields fs [] = [[]]"
| "fields fs (c # s) =
     (if c \<in> set fs then [] # fields fs s
      else case fields fs s of [] \<Rightarrow> [[c]] | w # ws \<Rightarrow> (c # w) # ws)"

lemma fields_not_Nil [simp]: "fields fs s \<noteq> []"
  by (cases s) (auto split: list.splits)

lemma fields_unfold:
  "fields fs s = takeWhile (\<lambda>c. c \<notin> set fs) s
     # (case dropWhile (\<lambda>c. c \<notin> set fs) s of [] \<Rightarrow> [] | _ # rest \<Rightarrow> fields fs rest)"
  by (induction s) (auto split: list.splits)

lemma strtoken_noskip_all_fields: "strtoken_noskip_all fs (Some s) = fields fs s"
proof (induction s rule: measure_induct_rule [of length])
  case (less s)
  let ?rest = "dropWhile (\<lambda>c. c \<notin> set fs) s"
  show ?case
  proof (cases ?rest)
    case Nil
    then show ?thesis
      by (subst strtoken_noskip_all.simps, subst fields_unfold) (simp add: strtoken_noskip_def del: dropWhile_eq_Nil_conv)
  next
    case (Cons c rest)
    then have "length rest < length s" using length_dropWhile_le [of "\<lambda>c. c \<notin> set fs" s] by simp
    with less Cons show ?thesis
      by (subst strtoken_noskip_all.simps, subst fields_unfold)
         (simp add: strtoken_noskip_def del: dropWhile_eq_Nil_conv)
  qed
qed

lemma fields_dropWhile_sep:
  "filter (\<lambda>w. w \<noteq> []) (fields fs (dropWhile (\<lambda>c. c \<in> set fs) s)) = filter (\<lambda>w. w \<noteq> []) (fields fs s)"
  by (induction s) auto

lemma nonempty_fields:
  assumes "pos \<noteq> []" "hd pos \<notin> set fs"
  shows "filter (\<lambda>w. w \<noteq> []) (fields fs pos) = takeWhile (\<lambda>c. c \<notin> set fs) pos
     # (case dropWhile (\<lambda>c. c \<notin> set fs) pos of [] \<Rightarrow> [] | _ # r \<Rightarrow> filter (\<lambda>w. w \<noteq> []) (fields fs r))"
proof -
  have "takeWhile (\<lambda>c. c \<notin> set fs) pos \<noteq> []" using assms by (cases pos) auto
  then show ?thesis by (subst fields_unfold) (simp split: list.split del: dropWhile_eq_Nil_conv)
qed

lemma strtoken_all_step:
  "strtoken_all fs (Some s) =
     (let pos = dropWhile (\<lambda>c. c \<in> set fs) s in
      if pos = [] then []
      else takeWhile (\<lambda>c. c \<notin> set fs) pos
        # (case dropWhile (\<lambda>c. c \<notin> set fs) pos of [] \<Rightarrow> [] | _ # r \<Rightarrow> strtoken_all fs (Some r)))"
  by (subst strtoken_all.simps) (simp add: strtoken_def Let_def del: dropWhile_eq_Nil_conv split: list.split)

lemma strtoken_all_fields: "strtoken_all fs (Some s) = filter (\<lambda>w. w \<noteq> []) (fields fs s)"
proof (induction s rule: measure_induct_rule [of length])
  case (less s)
  define pos where "pos = dropWhile (\<lambda>c. c \<in> set fs) s"
  have sub: "filter (\<lambda>w. w \<noteq> []) (fields fs s) = filter (\<lambda>w. w \<noteq> []) (fields fs pos)"
    unfolding pos_def by (rule fields_dropWhile_sep [symmetric])
  show ?case
  proof (cases "pos = []")
    case True
    then show ?thesis unfolding sub by (subst strtoken_all_step) (simp add: pos_def [symmetric] del: dropWhile_eq_Nil_conv)
  next
    case False
    then have "hd pos \<notin> set fs" unfolding pos_def by (rule hd_dropWhile [of "\<lambda>c. c \<in> set fs"])
    moreover have "strtoken_all fs (Some r) = filter (\<lambda>w. w \<noteq> []) (fields fs r)"
      if "dropWhile (\<lambda>c. c \<notin> set fs) pos = c # r" for c r
    proof (rule less)
      have "length (c # r) \<le> length pos" unfolding that [symmetric] by (rule length_dropWhile_le)
      also have "\<dots> \<le> length s" unfolding pos_def by (rule length_dropWhile_le)
      finally show "length r < length s" by simp
    qed
    ultimately show ?thesis unfolding sub using False
      by (subst strtoken_all_step) (simp add: pos_def [symmetric] nonempty_fields split: list.split del: dropWhile_eq_Nil_conv)
  qed
qed

section \<open>Bounded copies stay in bounds\<close>

lemma fst_strlcpy: "0 < sz \<Longrightarrow> fst (strlcpy dst src sz) = take (sz - 1) src"
  by (auto simp: strlcpy_def Let_def)

lemma fst_strlncpy: "0 < sz \<Longrightarrow> fst (strlncpy dst src sz n) = take (sz - 1) (take n src)"
  by (auto simp: strlncpy_def strnlen_def Let_def min_def) (rule arg_cong2 [where f = take], simp_all)

lemma fst_strlcat: "length dst < sz \<Longrightarrow> fst (strlcat dst src sz) = take (sz - 1) (dst @ src)"
  by (auto simp: strlcat_def Let_def)

lemma fst_strlncat: "length dst < sz \<Longrightarrow> fst (strlncat dst src sz n) = take (sz - 1) (dst @ take n src)"
  by (auto simp: strlncat_def strnlen_def Let_def min_def) (rule arg_cong2 [where f = take], simp_all)

lemma strlcat_letter_eq:
  "c \<noteq> NUL \<Longrightarrow> length buf < sz \<Longrightarrow> strlcat_letter buf c sz = take (sz - 1) (buf @ [c])"
  by (auto simp: strlcat_letter_def Let_def)

lemma tolower_copy_take: "tolower_copy f src n = map f (take n src)"
  by (induction f src n rule: tolower_copy.induct) (auto simp: take_Cons')

lemma strneq_take: "strneq f a b (length b) \<longleftrightarrow> length b \<le> length a \<and> map f (take (length b) a) = map f b"
proof (induction b arbitrary: a)
  case (Cons y b)
  then show ?case by (cases a) auto
qed simp

lemma strneq_id_prefix: "strneq id a b (length b) \<longleftrightarrow> prefix b a"
  by (auto simp: strneq_take prefix_def) (metis append_take_drop_id)

section \<open>Escaping is a prefix code\<close>

lemma xml_ent_not_Nil [simp]: "xml_ent c \<noteq> []"
  by (simp add: xml_ent_def)

lemma xmlescape_prefix: "\<exists>k. xmlescape i n = concat (map xml_ent (take k i))"
proof (induction i n rule: xmlescape.induct)
  case (2 c i n)
  show ?case
  proof (cases "n \<le> int (length (xml_ent c))")
    case True
    then show ?thesis by (intro exI [of _ 0]) simp
  next
    case False
    with 2 obtain k where "xmlescape i (n - int (length (xml_ent c))) = concat (map xml_ent (take k i))" by blast
    with False show ?thesis by (intro exI [of _ "Suc k"]) simp
  qed
qed simp

lemma xmlescape_length: "0 < n \<Longrightarrow> int (length (xmlescape i n)) < n"
  by (induction i n rule: xmlescape.induct) auto

lemma xmlescape_fits: "int (length (concat (map xml_ent i))) < n \<Longrightarrow> xmlescape i n = concat (map xml_ent i)"
  by (induction i n rule: xmlescape.induct) auto

lemma xml_ent_safe: "x \<in> set (xml_ent c) \<Longrightarrow> x \<notin> set [CHR ''<'', CHR ''>'', CHR 0x22, CHR 0x27]"
  by (auto simp: xml_ent_def split: if_splits)

section \<open>File names\<close>

lemma filename_start_eq:
  "e < length s \<Longrightarrow> \<forall>i. b < i \<and> i \<le> e \<longrightarrow> \<not> is_sep (s ! i) \<Longrightarrow> b \<le> e \<Longrightarrow> b = 0 \<or> is_sep (s ! b)
   \<Longrightarrow> filename_start s e = (if b = 0 then 0 else b + 1)"
  by (induction e) (auto simp: le_Suc_eq)

lemma getfilename_split:
  assumes "is_sep d" "name \<noteq> []" "\<forall>c \<in> set name. \<not> is_sep c"
  shows "unreal_getfilename (front @ d # name) = Some (if front = [] then d # name else name)"
proof -
  let ?s = "front @ d # name"
  have last: "\<not> is_sep (c_at ?s (length ?s - 1))"
    using assms(2,3) by (simp add: nth_append nth_Cons')
  have "filename_start ?s (length ?s - 1) = (if length front = 0 then 0 else length front + 1)"
    using assms by (intro filename_start_eq) (auto simp: nth_append nth_Cons')
  with last assms(2) show ?thesis by (simp add: unreal_getfilename_def)
qed

section \<open>Expanding an IPv6 address\<close>

text \<open>\<open>colons\<close> is the text of a list of groups.\<close>

fun colons :: "cstring list \<Rightarrow> cstring" where
  "colons [] = []"
| "colons [w] = w"
| "colons (w # ws) = w @ CHR '':'' # colons ws"

definition group_ok :: "cstring \<Rightarrow> bool" where
  "group_ok w \<longleftrightarrow> w \<noteq> [] \<and> CHR '':'' \<notin> set w"

lemma expand_loop_group:
  "CHR '':'' \<notin> set w \<Longrightarrow> expand_loop st cnt (w @ t) = w @ expand_loop (st \<and> w = []) cnt t"
  by (induction w arbitrary: st) auto

lemma colons_hd: "group_ok w \<Longrightarrow> hd (colons (w # ws)) \<noteq> CHR '':'' \<and> colons (w # ws) \<noteq> []"
  by (cases ws; cases w) (auto simp: group_ok_def)

lemma expand_loop_colons:
  "\<forall>w \<in> set ws. group_ok w \<Longrightarrow> expand_loop st cnt (colons ws @ t) = colons ws @ expand_loop (st \<and> ws = []) cnt t"
proof (induction ws arbitrary: st rule: colons.induct)
  case (2 w)
  then show ?case by (simp add: expand_loop_group group_ok_def)
next
  case (3 w v ws)
  have "hd (colons (v # ws)) \<noteq> CHR '':''" "colons (v # ws) \<noteq> []" using colons_hd 3(2) by auto
  with 3 show ?case by (simp add: expand_loop_group group_ok_def)
qed simp

lemma colon_cnt_group:
  "CHR '':'' \<notin> set w \<Longrightarrow> CHR ''.'' \<notin> set w \<Longrightarrow> colon_cnt (w @ t) = colon_cnt t"
  by (induction w) auto

lemma colon_cnt_dotted: "CHR '':'' \<notin> set w \<Longrightarrow> colon_cnt w = (if CHR ''.'' \<in> set w then 1 else 0)"
  by (induction w) auto

definition no_dots :: "cstring list \<Rightarrow> bool" where
  "no_dots ws \<longleftrightarrow> (\<forall>w \<in> set ws. CHR ''.'' \<notin> set w)"

definition dotted :: "cstring list \<Rightarrow> nat" where
  "dotted ws = (if ws \<noteq> [] \<and> CHR ''.'' \<in> set (last ws) then 1 else 0)"

lemma colon_cnt_colons:
  "\<forall>w \<in> set ws. group_ok w \<Longrightarrow> no_dots ws \<Longrightarrow> colon_cnt (colons ws @ t) = length ws - 1 + colon_cnt t"
  by (induction ws rule: colons.induct) (auto simp: colon_cnt_group group_ok_def no_dots_def)

lemma colon_cnt_colons_dotted:
  "\<forall>w \<in> set ws. group_ok w \<Longrightarrow> no_dots (butlast ws) \<Longrightarrow> colon_cnt (colons ws) = length ws - 1 + dotted ws"
  by (induction ws rule: colons.induct)
     (auto simp: colon_cnt_group colon_cnt_dotted group_ok_def no_dots_def dotted_def)

lemma colons_append: "us \<noteq> [] \<Longrightarrow> vs \<noteq> [] \<Longrightarrow> colons (us @ vs) = colons us @ CHR '':'' # colons vs"
  by (induction us rule: colons.induct) (auto simp: neq_Nil_conv)

lemma colons_Cons: "ws \<noteq> [] \<Longrightarrow> colons (w # ws) = w @ CHR '':'' # colons ws"
  by (cases ws) auto

lemma colons_zeros: "colons (replicate (Suc k) ''0'') = ''0'' @ concat (replicate k '':0'')"
  by (induction k) auto

lemma has_dcolon_append: "has_dcolon (u @ CHR '':'' # CHR '':'' # t)"
proof (induction u)
  case (Cons a u)
  then show ?case by (cases u) auto
qed simp

lemma expand_full:
  assumes pre: "\<forall>w \<in> set pre. group_ok w" "no_dots pre"
    and suf: "\<forall>w \<in> set suf. group_ok w" "no_dots (butlast suf)"
    and fits: "length pre + length suf + dotted suf < 7"
  defines "tmp \<equiv> colons pre @ ''::'' @ colons suf"
  shows "expand_loop True (colon_cnt tmp) tmp @ (if suf = [] then ''0'' else [])
    = colons (pre @ replicate (8 - dotted suf - length pre - length suf) ''0'' @ suf)"
proof -
  let ?zs = "replicate (8 - dotted suf - length pre - length suf) ''0''"
  let ?k = "7 - colon_cnt tmp"
  have cnt: "colon_cnt tmp = (length pre - 1) + 2 + (length suf - 1) + dotted suf"
    unfolding tmp_def using pre suf by (simp add: colon_cnt_colons colon_cnt_colons_dotted)
  have tail: "expand_loop False n (CHR '':'' # colons suf) = CHR '':'' # colons suf" for n
    using suf(1) expand_loop_colons [of suf False n "[]"] colons_hd by (cases suf) auto
  have dcolon: "expand_loop st n (''::'' @ u) = (if st then ''0:'' else '':'') @ ''0''
      @ concat (replicate (7 - n) '':0'') @ expand_loop False (if n < 7 then 8 else n + 1) (CHR '':'' # u)" for st n u
    by simp
  have "expand_loop True n tmp = colons pre @ expand_loop (pre = []) n (''::'' @ colons suf)" for n
    unfolding tmp_def by (simp only: expand_loop_colons [OF pre(1)] simp_thms)
  then have loop: "expand_loop True (colon_cnt tmp) tmp =
      colons pre @ (if pre = [] then ''0:'' else '':'') @ ''0'' @ concat (replicate ?k '':0'') @ CHR '':'' # colons suf"
    by (simp only: dcolon tail)
  have zs: "8 - dotted suf - length pre - length suf
      = (if pre = [] then 1 else 0) + Suc ?k + (if suf = [] then 1 else 0)"
    using fits unfolding cnt by (cases pre; cases suf) (auto simp: dotted_def)
  have mid: "''0'' @ concat (replicate ?k '':0'') = colons (replicate (Suc ?k) ''0'')"
    by (rule colons_zeros [symmetric])
  have z: "?zs = (if pre = [] then [''0''] else []) @ replicate (Suc ?k) ''0'' @ (if suf = [] then [''0''] else [])"
    unfolding zs by (auto simp: replicate_add [symmetric] replicate_append_same)
  have "replicate (Suc ?k) ''0'' \<noteq> []" by simp
  then show ?thesis
    unfolding loop z
    by (cases "pre = []"; cases "suf = []")
       (simp_all add: colons_append colons_Cons mid [symmetric] del: replicate.simps)
qed

lemma colons_last: "\<forall>w \<in> set ws. group_ok w \<Longrightarrow> ws \<noteq> [] \<Longrightarrow> last (t @ colons ws) \<noteq> CHR '':''"
proof (induction ws arbitrary: t rule: colons.induct)
  case (2 w)
  then show ?case by (auto simp: group_ok_def) (metis last_in_set)
next
  case (3 w v ws)
  then show ?case using 3(1) [of "t @ w @ '':''"] by simp
qed simp

section \<open>Properties\<close>

text \<open>
  C39: calling \<^verbatim>\<open>strtoken_noskip\<close> until it returns NULL yields every field of the
  string, empty ones included, in order; \<^verbatim>\<open>strtoken\<close> yields exactly the non-empty ones.
\<close>

theorem strtoken_fields:
  "strtoken_noskip_all fs (Some s) = fields fs s
   \<and> strtoken_all fs (Some s) = filter (\<lambda>w. w \<noteq> []) (fields fs s)"
  by (simp add: strtoken_noskip_all_fields strtoken_all_fields)

text \<open>
  the BSD-style copies leave exactly what fits: the source (at most \<^verbatim>\<open>n\<close> bytes of it)
  appended to what was in the buffer, cut to one byte less than the size, so the NUL fits.
\<close>

theorem bounded_copies:
  assumes "length dst < sz" "c \<noteq> NUL"
  shows "fst (strlcpy dst src sz) = take (sz - 1) src
    \<and> fst (strlncpy dst src sz n) = take (sz - 1) (take n src)
    \<and> fst (strlcat dst src sz) = take (sz - 1) (dst @ src)
    \<and> fst (strlncat dst src sz n) = take (sz - 1) (dst @ take n src)
    \<and> strlcat_letter dst c sz = take (sz - 1) (dst @ [c])
    \<and> strldup (Some src) sz = Some (take (sz - 1) src)"
proof -
  have "0 < sz" using assms by simp
  then show ?thesis
    using assms by (simp add: fst_strlcpy fst_strlncpy fst_strlcat fst_strlncat strlcat_letter_eq strldup_def Let_def)
qed

theorem bounded_copies_witness:
  "fst (strlcat ''abc'' ''defg'' 6) = ''abcde'' \<and> strlcat_letter ''abc'' (CHR ''x'') 4 = ''abc''"
  using bounded_copies [of "''abc''" 6 "CHR ''x''" "''defg''" 0]
    bounded_copies [of "''abc''" 4 "CHR ''x''" "''defg''" 0] by simp

text \<open>
  \<^verbatim>\<open>xmlescape\<close> writes the entities of a prefix of its input, all of it if that fits,
  never fills the buffer, and what it writes holds no quote or angle bracket.
\<close>

theorem xmlescape_correct:
  assumes "0 < n"
  shows "(\<exists>k. xmlescape i n = concat (map xml_ent (take k i)))
    \<and> (int (length (concat (map xml_ent i))) < n \<longrightarrow> xmlescape i n = concat (map xml_ent i))
    \<and> int (length (xmlescape i n)) < n
    \<and> set (xmlescape i n) \<inter> {CHR ''<'', CHR ''>'', CHR 0x22, CHR 0x27} = {}"
proof (intro conjI impI)
  show ex: "\<exists>k. xmlescape i n = concat (map xml_ent (take k i))" by (rule xmlescape_prefix)
  then show "set (xmlescape i n) \<inter> {CHR ''<'', CHR ''>'', CHR 0x22, CHR 0x27} = {}"
    using xml_ent_safe by fastforce
qed (use assms in \<open>simp_all add: xmlescape_fits xmlescape_length\<close>)

theorem xmlescape_correct_witness: "length (xmlescape ''a<b>&'' 12) < 12 \<and> xmlescape ''a<b'' 7 = ''a&lt;b''"
  using xmlescape_correct [of 12 "''a<b>&''"] xmlescape_correct [of 7 "''a<b''"] by (simp add: xml_ent_def)

text \<open>
  \<^verbatim>\<open>unreal_getfilename\<close> returns what follows the last separator, but for a path
  whose only separator is its first character it returns the whole path, as the scan never
  looks at that character.
\<close>

theorem getfilename_last:
  assumes "is_sep d" "name \<noteq> []" "\<forall>c \<in> set name. \<not> is_sep c"
  shows "unreal_getfilename (front @ d # name) = Some (if front = [] then d # name else name)"
  by (rule getfilename_split [OF assms])

theorem getfilename_last_witness:
  "unreal_getfilename ''conf/tls/cert.pem'' = Some ''cert.pem'' \<and> unreal_getfilename ''/ircd.log'' = Some ''/ircd.log''"
  using getfilename_last [of "CHR ''/''" "''cert.pem''" "''conf/tls''"]
    getfilename_last [of "CHR ''/''" "''ircd.log''" "[]"] by (simp add: is_sep_def)

text \<open>
  \<^verbatim>\<open>unreal_create_directory_structure\<close> takes a failing \<^verbatim>\<open>mkdir\<close> for success:
  when the directory cannot be created at once it reports success and creates no parent.
\<close>

theorem create_directory_reports_success_on_failure:
  assumes "mkdir s dname = (s', -1)"
  shows "unreal_create_directory_structure mkdir s dname = (s', 1)"
  using assms by (simp add: unreal_create_directory_structure_def)

theorem create_directory_reports_success_on_failure_witness:
  "unreal_create_directory_structure
     (\<lambda>s d. if CHR ''/'' \<in> set d then (s, -1) else (d # s, 0)) [] ''logs/2022'' = ([], 1)"
  by (rule create_directory_reports_success_on_failure) simp

text \<open>
  \<^verbatim>\<open>inetntop\<close> writes out a compressed IPv6 address (two zero groups or more) in full: the groups before and
  after the double colon with exactly the zero groups it stands for between them, also when
  the last group is a dotted quad that stands for two.
\<close>

theorem inetntop_uncompressed:
  assumes ntop: "inet_ntop af addr = colons pre @ ''::'' @ colons suf"
    and ok: "\<forall>w \<in> set (pre @ suf). group_ok w" "no_dots pre" "no_dots (butlast suf)"
    and fits: "length pre + length suf + dotted suf < 7"
  shows "inetntop inet_ntop af addr dst sz
    = colons (pre @ replicate (8 - dotted suf - length pre - length suf) ''0'' @ suf)"
proof -
  let ?tmp = "colons pre @ ''::'' @ colons suf"
  let ?res = "expand_loop True (colon_cnt ?tmp) ?tmp"
  have full: "?res @ (if suf = [] then ''0'' else []) = colons (pre @ replicate (8 - dotted suf - length pre - length suf) ''0'' @ suf)"
    using expand_full [OF _ ok(2) _ ok(3) fits] ok(1) by auto
  have "last ?res = CHR '':'' \<longleftrightarrow> suf = []"
  proof (cases "suf = []")
    case True
    then show ?thesis using ok(1) by (simp add: expand_loop_colons)
  next
    case False
    then have "last ?res \<noteq> CHR '':''"
      using full colons_last [of suf "colons (pre @ replicate (8 - dotted suf - length pre - length suf) ''0'') @ '':''"]
        ok(1) fits colons_append [of "pre @ replicate (8 - dotted suf - length pre - length suf) ''0''" suf]
      by (auto simp: dotted_def split: if_splits)
    with False show ?thesis by simp
  qed
  then have "inetntop inet_ntop af addr dst sz = ?res @ (if suf = [] then ''0'' else [])"
    using ntop has_dcolon_append by (simp add: inetntop_def Let_def)
  with full show ?thesis by simp
qed

theorem inetntop_uncompressed_witness:
  "inetntop (\<lambda>_ _. ''2001:db8::ffff:10.0.0.1'') () () [] 64 = ''2001:db8:0:0:0:ffff:10.0.0.1''"
  using inetntop_uncompressed [of "\<lambda>_ _. ''2001:db8::ffff:10.0.0.1''" "()" "()" "[''2001'', ''db8'']" "[''ffff'', ''10.0.0.1'']" "[]" 64]
  by (simp add: group_ok_def no_dots_def dotted_def numeral_eq_Suc)

end
