(* ===== verification/Base64.thy ===== *)
theory Base64
  imports Support
begin

unbundle bit_operations_syntax

text \<open>
  Base64 (\<^verbatim>\<open>src/support.c\<close>: \<^verbatim>\<open>b64_encode\<close>, \<^verbatim>\<open>b64_decode\<close>) and the encoding of
  IP addresses in server traffic built on it (\<^verbatim>\<open>encode_ip\<close>, \<^verbatim>\<open>decode_ip\<close>). Bytes are
  8-bit words; the target array of the decoder is a list of fixed length that is updated by
  index, starting from whatever it held; a return of -1 is \<open>None\<close>. The lemmas show that
  decoding inverts encoding for every input and every large enough buffer.
\<close>

section \<open>The model\<close>

definition Base64 :: cstring where
  "Base64 = ''ABCDEFGHIJKLMNOPQRSTUVWXYZabcdefghijklmnopqrstuvwxyz0123456789+/''"

abbreviation Pad64 :: char where
  "Pad64 \<equiv> CHR ''=''"

type_synonym byte = "8 word"

definition enc0 :: "byte \<Rightarrow> byte" where
  "enc0 a = drop_bit 2 a"

definition enc1 :: "byte \<Rightarrow> byte \<Rightarrow> byte" where
  "enc1 a b = push_bit 4 (a AND 0x03) + drop_bit 4 b"

definition enc2 :: "byte \<Rightarrow> byte \<Rightarrow> byte" where
  "enc2 b c = push_bit 2 (b AND 0x0f) + drop_bit 6 c"

definition enc3 :: "byte \<Rightarrow> byte" where
  "enc3 c = c AND 0x3f"

definition b64_char :: "byte \<Rightarrow> char" where
  "b64_char w = Base64 ! unat w"

fun b64_encode_loop :: "byte list \<Rightarrow> nat \<Rightarrow> nat \<Rightarrow> cstring option" where
  "b64_encode_loop (a # b # c # src) datalength targsize =
     (if datalength + 4 > targsize then None
      else map_option (\<lambda>r. b64_char (enc0 a) # b64_char (enc1 a b) # b64_char (enc2 b c) # b64_char (enc3 c) # r)
             (b64_encode_loop src (datalength + 4) targsize))"
| "b64_encode_loop [a, b] datalength targsize =
     (if datalength + 4 > targsize then None
      else if datalength + 4 \<ge> targsize then None
      else Some [b64_char (enc0 a), b64_char (enc1 a b), b64_char (enc2 b 0), Pad64])"
| "b64_encode_loop [a] datalength targsize =
     (if datalength + 4 > targsize then None
      else if datalength + 4 \<ge> targsize then None
      else Some [b64_char (enc0 a), b64_char (enc1 a 0), Pad64, Pad64])"
| "b64_encode_loop [] datalength targsize = (if datalength \<ge> targsize then None else Some [])"

definition b64_encode :: "byte list \<Rightarrow> nat \<Rightarrow> cstring option" where
  "b64_encode src targsize = b64_encode_loop src 0 targsize"

fun strchr_pos :: "cstring \<Rightarrow> char \<Rightarrow> nat option" where
  "strchr_pos [] ch = None"
| "strchr_pos (c # s) ch = (if c = ch then Some 0 else map_option Suc (strchr_pos s ch))"

type_synonym target = "byte list option"

fun on_target :: "nat \<Rightarrow> (byte list \<Rightarrow> byte list) \<Rightarrow> target \<Rightarrow> target option" where
  "on_target need f None = Some None"
| "on_target need f (Some t) = (if need \<ge> length t then None else Some (Some (f t)))"

definition dec_hi4 :: "byte \<Rightarrow> byte" where
  "dec_hi4 p = push_bit 4 (p AND 0x0f)"

definition dec_hi2 :: "byte \<Rightarrow> byte" where
  "dec_hi2 p = push_bit 6 (p AND 0x03)"

definition b64_step :: "nat \<Rightarrow> nat \<times> nat \<times> target \<Rightarrow> (nat \<times> nat \<times> target) option" where
  "b64_step pos = (\<lambda>(state, i, target).
     let p = (of_nat pos :: byte) in
     if state = 0 then
       map_option (\<lambda>t. (1, i, t)) (on_target i (\<lambda>t. t[i := push_bit 2 p]) target)
     else if state = 1 then
       map_option (\<lambda>t. (2, i + 1, t))
         (on_target (i + 1) (\<lambda>t. t[i := t ! i OR drop_bit 4 p, i + 1 := dec_hi4 p]) target)
     else if state = 2 then
       map_option (\<lambda>t. (3, i + 1, t))
         (on_target (i + 1) (\<lambda>t. t[i := t ! i OR drop_bit 2 p, i + 1 := dec_hi2 p]) target)
     else
       map_option (\<lambda>t. (0, i + 1, t)) (on_target i (\<lambda>t. t[i := t ! i OR p]) target))"

text \<open>The loop stops with the source at the terminating NUL or at the padding character.\<close>

fun b64_decode_loop :: "cstring \<Rightarrow> nat \<times> nat \<times> target \<Rightarrow> (cstring \<times> nat \<times> nat \<times> target) option" where
  "b64_decode_loop [] s = Some ([], s)"
| "b64_decode_loop (ch # src) s =
     (if isspace ch then b64_decode_loop src s
      else if ch = Pad64 then Some (ch # src, s)
      else case strchr_pos Base64 ch of
             None \<Rightarrow> None
           | Some pos \<Rightarrow>
               (case b64_step pos s of None \<Rightarrow> None | Some s' \<Rightarrow> b64_decode_loop src s'))"

text \<open>What may follow the first padding character: in state 2 a second one, then blanks.\<close>

definition b64_second_pad :: "nat \<Rightarrow> cstring \<Rightarrow> cstring option" where
  "b64_second_pad state rest =
     (if state = 2
      then (case dropWhile isspace rest of
              [] \<Rightarrow> None
            | ch # r \<Rightarrow> if ch \<noteq> Pad64 then None else Some r)
      else Some rest)"

definition b64_decode :: "cstring \<Rightarrow> target \<Rightarrow> (nat \<times> target) option" where
  "b64_decode src target =
     (case b64_decode_loop src (0, 0, target) of
        None \<Rightarrow> None
      | Some ([], state, i, t) \<Rightarrow> if state \<noteq> 0 then None else Some (i, t)
      | Some (_ # rest, state, i, t) \<Rightarrow>
          if state = 0 \<or> state = 1 then None
          else (case b64_second_pad state rest of
                  None \<Rightarrow> None
                | Some r \<Rightarrow>
                    if list_ex (\<lambda>c. \<not> isspace c) r then None
                    else if (case t of None \<Rightarrow> False | Some b \<Rightarrow> b ! i \<noteq> 0) then None
                    else Some (i, t)))"

text \<open>
  \<^verbatim>\<open>inet_pton\<close> and \<^verbatim>\<open>inet_ntop\<close> are the C library's, parameters. An address that
  \<^verbatim>\<open>inet_pton\<close> rejects leaves the buffer uninitialised, and it is encoded all the same.
\<close>

datatype addr_family = AF_INET | AF_INET6

definition encode_ip :: "(addr_family \<Rightarrow> cstring \<Rightarrow> byte list option) \<Rightarrow> cstring option \<Rightarrow> fault + cstring option" where
  "encode_ip inet_pton ip =
     (case ip of
        None \<Rightarrow> Inr (Some ''*'')
      | Some s \<Rightarrow>
          (case inet_pton (if CHR '':'' \<in> set s then AF_INET6 else AF_INET) s of
             None \<Rightarrow> Inl Uninit_Read
           | Some addrbuf \<Rightarrow>
               if CHR '':'' \<in> set s then
                 if take 10 addrbuf = replicate 10 0 \<and> addrbuf ! 10 = 0xff \<and> addrbuf ! 11 = 0xff
                 then Inr (b64_encode (take 4 (drop 12 addrbuf)) 25)
                 else Inr (b64_encode (take 16 addrbuf) 25)
               else Inr (b64_encode (take 4 addrbuf) 25)))"

definition decode_ip :: "(addr_family \<Rightarrow> byte list \<Rightarrow> cstring) \<Rightarrow> byte list \<Rightarrow> cstring \<Rightarrow> cstring option" where
  "decode_ip inet_ntop targ buf =
     (case b64_decode buf (Some targ) of
        Some (n, Some t) \<Rightarrow>
          if n = 4 then Some (inetntop inet_ntop AF_INET (take 4 t) [] 64)
          else if n = 16 then Some (inetntop inet_ntop AF_INET6 (take 16 t) [] 64)
          else None
      | _ \<Rightarrow> None)"

section \<open>Six bits at a time\<close>

lemma low_masks: "(0x03 :: byte) = mask 2" "(0x0f :: byte) = mask 4" "(0x3f :: byte) = mask 6"
  by (simp_all add: mask_eq_exp_minus_1)

lemma enc_or:
  "enc1 a b = push_bit 4 (a AND 0x03) OR drop_bit 4 b"
  "enc2 b c = push_bit 2 (b AND 0x0f) OR drop_bit 6 c"
  unfolding enc1_def enc2_def low_masks
  by (rule disjunctive_add, force simp: bit_simps dest: bit_imp_le_length)+

lemma byte_eqI:
  fixes a b :: byte
  assumes "bit a 0 = bit b 0" "bit a 1 = bit b 1" "bit a 2 = bit b 2" "bit a 3 = bit b 3"
    "bit a 4 = bit b 4" "bit a 5 = bit b 5" "bit a 6 = bit b 6" "bit a 7 = bit b 7"
  shows "a = b"
proof (rule bit_word_eqI)
  fix n
  assume "n < LENGTH(8)"
  then have "n \<in> {0, 1, 2, 3, 4, 5, 6, 7}" by auto
  with assms show "bit a n = bit b n" by blast
qed

lemma dec_enc:
  "push_bit 2 (enc0 a) OR drop_bit 4 (enc1 a b) = a"
  "dec_hi4 (enc1 a b) OR drop_bit 2 (enc2 b c) = b"
  "dec_hi2 (enc2 b c) OR enc3 c = c"
  "dec_hi4 (enc1 a 0) = 0"
  "dec_hi2 (enc2 b 0) = 0"
  unfolding enc_or enc0_def enc3_def dec_hi4_def dec_hi2_def low_masks
  by (rule byte_eqI, simp_all add: bit_simps)+

lemma bit_byte_ge [simp]: "8 \<le> n \<Longrightarrow> \<not> bit (a :: byte) n"
  by (auto dest: bit_imp_le_length)

lemma enc_mask:
  "enc0 a AND mask 6 = enc0 a" "enc1 a b AND mask 6 = enc1 a b"
  "enc2 b c AND mask 6 = enc2 b c" "enc3 c AND mask 6 = enc3 c"
proof -
  show "enc0 a AND mask 6 = enc0 a" unfolding enc0_def by (rule byte_eqI) (simp_all add: bit_simps)
  show "enc1 a b AND mask 6 = enc1 a b"
    unfolding enc_or low_masks by (rule byte_eqI) (simp_all add: bit_simps)
  show "enc2 b c AND mask 6 = enc2 b c"
    unfolding enc_or low_masks by (rule byte_eqI) (simp_all add: bit_simps)
  show "enc3 c AND mask 6 = enc3 c" unfolding enc3_def low_masks by simp
qed

lemma unat_mask6: "w AND mask 6 = w \<Longrightarrow> unat (w :: byte) < 64"
proof -
  assume "w AND mask 6 = w"
  then have "unat w = unat w mod 2 ^ 6" by (metis take_bit_eq_mask take_bit_eq_mod unsigned_take_bit_eq)
  moreover have "unat w mod 2 ^ 6 < 2 ^ 6" by (rule mod_less_divisor) simp
  ultimately show ?thesis by simp
qed

lemma enc_less: "unat (enc0 a) < 64" "unat (enc1 a b) < 64" "unat (enc2 b c) < 64" "unat (enc3 c) < 64"
  by (rule unat_mask6, rule enc_mask)+

section \<open>Decoding inverts encoding\<close>

definition b64_index_ok :: "nat \<Rightarrow> bool" where
  "b64_index_ok n \<longleftrightarrow> \<not> isspace (Base64 ! n) \<and> Base64 ! n \<noteq> Pad64 \<and> strchr_pos Base64 (Base64 ! n) = Some n"

lemma b64_index_all: "list_all b64_index_ok [0..<64]"
  by code_simp

lemma b64_char_ok:
  assumes "unat w < 64"
  shows "\<not> isspace (b64_char w)" "b64_char w \<noteq> Pad64" "strchr_pos Base64 (b64_char w) = Some (unat w)"
  using b64_index_all assms by (auto simp: list_all_iff b64_index_ok_def b64_char_def)

declare b64_decode_loop.simps(2) [simp del]

lemma decode_char:
  "unat w < 64 \<Longrightarrow> b64_decode_loop (b64_char w # src) s =
     (case b64_step (unat w) s of None \<Rightarrow> None | Some s' \<Rightarrow> b64_decode_loop src s')"
  by (simp add: b64_decode_loop.simps(2) b64_char_ok)

lemma b64_step_Some:
  "i < length t \<Longrightarrow> b64_step pos (0, i, Some t) = Some (1, i, Some (t[i := push_bit 2 (of_nat pos)]))"
  "i + 1 < length t \<Longrightarrow> b64_step pos (1, i, Some t) =
     Some (2, i + 1, Some (t[i := t ! i OR drop_bit 4 (of_nat pos), i + 1 := dec_hi4 (of_nat pos)]))"
  "i + 1 < length t \<Longrightarrow> b64_step pos (2, i, Some t) =
     Some (3, i + 1, Some (t[i := t ! i OR drop_bit 2 (of_nat pos), i + 1 := dec_hi2 (of_nat pos)]))"
  "i < length t \<Longrightarrow> b64_step pos (3, i, Some t) = Some (0, i + 1, Some (t[i := t ! i OR of_nat pos]))"
  by (simp_all add: b64_step_def Let_def)

lemmas dec_simps = decode_char enc_less b64_step_Some dec_enc

lemma decode_two:
  assumes "i + 1 < length t"
  shows "b64_decode_loop (b64_char (enc0 a) # b64_char (enc1 a b) # src) (0, i, Some t) =
    b64_decode_loop src (2, i + 1, Some (t[i := a, i + 1 := dec_hi4 (enc1 a b)]))"
  using assms by (simp add: dec_simps del: One_nat_def)

lemma decode_three:
  assumes "i + 2 < length t"
  shows "b64_decode_loop (b64_char (enc0 a) # b64_char (enc1 a b) # b64_char (enc2 b c) # src) (0, i, Some t) =
    b64_decode_loop src (3, i + 2, Some (t[i := a, i + 1 := b, i + 2 := dec_hi2 (enc2 b c)]))"
  using assms by (subst decode_two) (simp_all add: dec_simps list_update_swap)

lemma decode_quad:
  assumes "i + 2 < length t"
  shows "b64_decode_loop (b64_char (enc0 a) # b64_char (enc1 a b) # b64_char (enc2 b c) # b64_char (enc3 c) # src) (0, i, Some t) =
    b64_decode_loop src (0, i + 3, Some (t[i := a, i + 1 := b, i + 2 := c]))"
  using assms by (subst decode_three) (simp_all add: dec_simps, simp add: numeral_3_eq_3)

text \<open>\<open>b64_text\<close> is the encoding itself, without the buffer.\<close>

fun b64_text :: "byte list \<Rightarrow> cstring" where
  "b64_text (a # b # c # src) =
     b64_char (enc0 a) # b64_char (enc1 a b) # b64_char (enc2 b c) # b64_char (enc3 c) # b64_text src"
| "b64_text [a, b] = [b64_char (enc0 a), b64_char (enc1 a b), b64_char (enc2 b 0), Pad64]"
| "b64_text [a] = [b64_char (enc0 a), b64_char (enc1 a 0), Pad64, Pad64]"
| "b64_text [] = []"

lemma length_b64_text: "length (b64_text src) = 4 * ((length src + 2) div 3)"
proof (induction src rule: b64_text.induct)
  case (1 a b c src)
  have "(length src + 3 + 2) div 3 = (length src + 2) div 3 + 1" by presburger
  moreover have "length (a # b # c # src) = length src + 3" by simp
  ultimately show ?case using 1 by (simp only:) simp
qed auto

lemma b64_encode_loop_text:
  "b64_encode_loop src n targsize = (if n + length (b64_text src) < targsize then Some (b64_text src) else None)"
  by (induction src n targsize rule: b64_encode_loop.induct) auto

lemma b64_encode_text:
  "b64_encode src targsize = (if length (b64_text src) < targsize then Some (b64_text src) else None)"
  by (simp add: b64_encode_def b64_encode_loop_text)

definition b64_finish :: "cstring \<times> nat \<times> nat \<times> target \<Rightarrow> (nat \<times> target) option" where
  "b64_finish = (\<lambda>(src, state, i, t).
     (case src of
        [] \<Rightarrow> if state \<noteq> 0 then None else Some (i, t)
      | _ # rest \<Rightarrow>
          if state = 0 \<or> state = 1 then None
          else (case b64_second_pad state rest of
                  None \<Rightarrow> None
                | Some r \<Rightarrow>
                    if list_ex (\<lambda>c. \<not> isspace c) r then None
                    else if (case t of None \<Rightarrow> False | Some b \<Rightarrow> b ! i \<noteq> 0) then None
                    else Some (i, t))))"

lemma b64_decode_finish: "b64_decode src t = Option.bind (b64_decode_loop src (0, 0, t)) b64_finish"
  by (cases "b64_decode_loop src (0, 0, t)")
     (auto simp: b64_decode_def b64_finish_def split: list.splits)

lemma decode_pad: "b64_decode_loop (Pad64 # src) s = Some (Pad64 # src, s)"
  by (simp add: b64_decode_loop.simps(2) isspace_code)

lemma isspace_pad [simp]: "\<not> isspace Pad64"
  by (simp add: isspace_code)

lemma overwrite_list:
  "i + length xs \<le> length t \<Longrightarrow> \<exists>u. length u = length t \<and> take i u = take i t \<and> take (length xs) (drop i u) = xs"
  by (rule exI [of _ "take i t @ xs @ drop (i + length xs) t"]) simp

lemma decode_text:
  assumes "i + length src < length t"
  shows "\<exists>u. Option.bind (b64_decode_loop (b64_text src) (0, i, Some t)) b64_finish = Some (i + length src, Some u)
    \<and> length u = length t \<and> take (i + length src) u = take i t @ src"
  using assms
proof (induction src arbitrary: i t rule: b64_text.induct)
  case (1 a b c src)
  let ?t = "t[i := a, i + 1 := b, i + 2 := c]"
  have "i + 3 + length src < length ?t" using 1(2) by simp
  from 1(1) [OF this] obtain u where
    "Option.bind (b64_decode_loop (b64_text src) (0, i + 3, Some ?t)) b64_finish = Some (i + 3 + length src, Some u)"
    "length u = length ?t" "take (i + 3 + length src) u = take (i + 3) ?t @ src" by blast
  moreover have "take (i + 3) ?t = take i t @ [a, b, c]"
    using 1(2) by (simp add: numeral_3_eq_3 take_Suc_conv_app_nth)
  ultimately show ?case using 1(2) decode_quad [of i t a b c]
    by (intro exI [of _ u]) (simp add: ac_simps, simp add: numeral_3_eq_3)
next
  case (2 a b)
  let ?u = "t[i := a, i + 1 := b, i + 2 := 0]"
  have "take (i + 2) ?u = take i t @ [a, b]"
    using 2 by (simp add: numeral_2_eq_2 take_Suc_conv_app_nth)
  then show ?case using 2
    by (intro exI [of _ ?u]) (simp add: decode_three decode_pad dec_enc b64_finish_def b64_second_pad_def)
next
  case (3 a)
  let ?u = "t[i := a, i + 1 := 0]"
  have "take (i + 1) ?u = take i t @ [a]"
    using 3 by (simp add: take_Suc_conv_app_nth)
  then show ?case using 3
    by (intro exI [of _ ?u]) (simp add: decode_two decode_pad dec_enc b64_finish_def b64_second_pad_def)
next
  case 4
  then show ?case by (intro exI [of _ t]) (simp add: b64_finish_def)
qed

lemma b64_decode_text:
  assumes "length src < length t"
  shows "\<exists>u. b64_decode (b64_text src) (Some t) = Some (length src, Some u) \<and> length u = length t \<and> take (length src) u = src"
  using decode_text [of 0 src t] assms by (simp add: b64_decode_finish)

section \<open>Properties\<close>

text \<open>
  C37: \<^verbatim>\<open>b64_encode\<close> succeeds exactly when the text and its NUL fit the buffer, the text
  has four characters for every three bytes begun, and \<^verbatim>\<open>b64_decode\<close> on it returns the
  number of bytes and has put them at the front of any target with room for one byte more.
\<close>

theorem b64_roundtrip:
  assumes "4 * ((length src + 2) div 3) < targsize" "length src < length t"
  shows "\<exists>txt u. b64_encode src targsize = Some txt \<and> length txt = 4 * ((length src + 2) div 3)
    \<and> b64_decode txt (Some t) = Some (length src, Some u) \<and> take (length src) u = src"
proof -
  obtain u where "b64_decode (b64_text src) (Some t) = Some (length src, Some u)" "take (length src) u = src"
    using b64_decode_text [OF assms(2)] by blast
  then show ?thesis
    using assms(1) by (intro exI [of _ "b64_text src"] exI [of _ u]) (simp add: b64_encode_text length_b64_text)
qed

theorem b64_roundtrip_witness:
  "\<exists>txt u. b64_encode [0x7f, 0, 0, 1] 25 = Some txt \<and> length txt = 8
    \<and> b64_decode txt (Some (replicate 25 0xaa)) = Some (4, Some u) \<and> take 4 u = [0x7f, 0, 0, 1]"
proof -
  let ?s = "[0x7f, 0, 0, 1] :: byte list"
  have l: "length ?s = 4" by simp
  show ?thesis using b64_roundtrip [of ?s 25 "replicate 25 0xaa"] unfolding l by simp
qed

text \<open>
  an address survives the trip between servers: \<^verbatim>\<open>decode_ip\<close> of what
  \<^verbatim>\<open>encode_ip\<close> sent prints the four or sixteen bytes \<^verbatim>\<open>inet_pton\<close> read, an
  IPv4-mapped IPv6 address as the IPv4 address it maps.
\<close>

theorem ip_roundtrip:
  assumes pton: "inet_pton (if CHR '':'' \<in> set ip then AF_INET6 else AF_INET) ip = Some bytes"
    and len: "length bytes = (if CHR '':'' \<in> set ip then 16 else 4)" and buf: "length targ = 25"
  shows "\<exists>txt. encode_ip inet_pton (Some ip) = Inr (Some txt)
    \<and> decode_ip inet_ntop targ txt = Some
        (if CHR '':'' \<notin> set ip then inetntop inet_ntop AF_INET bytes [] 64
         else if take 12 bytes = replicate 10 0 @ [0xff, 0xff]
         then inetntop inet_ntop AF_INET (drop 12 bytes) [] 64
         else inetntop inet_ntop AF_INET6 bytes [] 64)"
proof -
  have dec4: "decode_ip inet_ntop targ (b64_text b) = Some (inetntop inet_ntop AF_INET b [] 64)" if "length b = 4" for b
    using b64_decode_text [of b targ] that buf by (auto simp: decode_ip_def)
  have dec16: "decode_ip inet_ntop targ (b64_text b) = Some (inetntop inet_ntop AF_INET6 b [] 64)" if "length b = 16" for b
    using b64_decode_text [of b targ] that buf by (auto simp: decode_ip_def)
  have enc: "b64_encode b 25 = Some (b64_text b)" if "length b \<le> 16" for b
  proof -
    have "(length b + 2) div 3 \<le> 6" using that by simp
    then show ?thesis by (simp add: b64_encode_text length_b64_text)
  qed
  show ?thesis
  proof (cases "CHR '':'' \<in> set ip")
    case False
    then show ?thesis using pton len dec4 enc by (simp add: encode_ip_def)
  next
    case True
    have "take 12 bytes = take 10 bytes @ [bytes ! 10, bytes ! 11]"
      using len True by (simp add: numeral_eq_Suc take_Suc_conv_app_nth)
    then have "take 12 bytes = replicate 10 0 @ [0xff, 0xff]
      \<longleftrightarrow> take 10 bytes = replicate 10 0 \<and> bytes ! 10 = 0xff \<and> bytes ! 11 = 0xff" by auto
    then show ?thesis using True pton len dec4 dec16 enc by (simp add: encode_ip_def)
  qed
qed

theorem ip_roundtrip_witness:
  "\<exists>txt. encode_ip (\<lambda>af s. if s = ''10.0.0.1'' then Some [10, 0, 0, 1] else None) (Some ''10.0.0.1'') = Inr (Some txt)
    \<and> decode_ip (\<lambda>af b. if b = [10, 0, 0, 1] then ''10.0.0.1'' else ''?'') (replicate 25 0) txt = Some ''10.0.0.1''"
  using ip_roundtrip [of "\<lambda>af s. if s = ''10.0.0.1'' then Some [10, 0, 0, 1] else None" "''10.0.0.1''" "[10, 0, 0, 1]"
      "replicate 25 0" "\<lambda>af b. if b = [10, 0, 0, 1] then ''10.0.0.1'' else ''?''"]
  by (simp add: inetntop_def strlcpy_def)

end
