(* ===== verification/Natsort.thy ===== *)
theory Natsort
  imports Ctype
begin

text \<open>
  Natural-order comparison (\<^verbatim>\<open>src/support.c\<close>: \<^verbatim>\<open>strnatcmp\<close>, \<^verbatim>\<open>strnatcasecmp\<close> and
  their helpers). Pointers into the strings are suffixes; a suffix at its end reads the
  terminating NUL. The lemmas show that digit runs without leading zeros compare by the
  number they denote and that swapping the arguments negates the result.
\<close>

section \<open>The model\<close>

definition c_hd :: "cstring \<Rightarrow> char" where
  "c_hd s = (case s of [] \<Rightarrow> NUL | c # _ \<Rightarrow> c)"

lemma c_hd_simps [simp]: "c_hd [] = NUL" "c_hd (c # s) = c"
  by (simp_all add: c_hd_def)

abbreviation c_lt :: "char \<Rightarrow> char \<Rightarrow> bool" where
  "c_lt a b \<equiv> (of_char a :: int) < of_char b"

fun compare_right :: "cstring \<Rightarrow> cstring \<Rightarrow> int \<Rightarrow> int" where
  "compare_right [] [] bias = bias"
| "compare_right [] (y # b) bias = (if \<not> isdigit y then bias else -1)"
| "compare_right (x # a) [] bias = (if \<not> isdigit x then bias else 1)"
| "compare_right (x # a) (y # b) bias =
     (if \<not> isdigit x \<and> \<not> isdigit y then bias
      else if \<not> isdigit x then -1
      else if \<not> isdigit y then 1
      else compare_right a b
             (if c_lt x y then (if bias = 0 then -1 else bias)
              else if c_lt y x then (if bias = 0 then 1 else bias)
              else bias))"

fun compare_left :: "cstring \<Rightarrow> cstring \<Rightarrow> int" where
  "compare_left [] [] = 0"
| "compare_left [] (y # b) = (if \<not> isdigit y then 0 else -1)"
| "compare_left (x # a) [] = (if \<not> isdigit x then 0 else 1)"
| "compare_left (x # a) (y # b) =
     (if \<not> isdigit x \<and> \<not> isdigit y then 0
      else if \<not> isdigit x then -1
      else if \<not> isdigit y then 1
      else if c_lt x y then -1
      else if c_lt y x then 1
      else compare_left a b)"

definition nat_digits :: "cstring \<Rightarrow> cstring \<Rightarrow> int" where
  "nat_digits a b =
     (if isdigit (c_hd a) \<and> isdigit (c_hd b)
      then if c_hd a = CHR ''0'' \<or> c_hd b = CHR ''0'' then compare_left a b else compare_right a b 0
      else 0)"

lemma skipped_shrinks:
  "\<not> (dropWhile P a = [] \<and> dropWhile P b = []) \<Longrightarrow>
   length (tl (dropWhile P a)) + length (tl (dropWhile P b)) < length a + length b"
  using length_dropWhile_le [of P a] length_dropWhile_le [of P b]
  by (cases "dropWhile P a"; cases "dropWhile P b") (auto simp del: dropWhile_eq_Nil_conv)

function strnatcmp0 :: "bool \<Rightarrow> cstring \<Rightarrow> cstring \<Rightarrow> int" where
  "strnatcmp0 fold_case a0 b0 =
     (let a = dropWhile isspace a0; b = dropWhile isspace b0; result = nat_digits a b
      in if result \<noteq> 0 then result
         else if a = [] \<and> b = [] then 0
         else let ca = (if fold_case then toupper (c_hd a) else c_hd a);
                  cb = (if fold_case then toupper (c_hd b) else c_hd b)
              in if c_lt ca cb then -1
                 else if c_lt cb ca then 1
                 else strnatcmp0 fold_case (tl a) (tl b))"
  by pat_completeness auto
termination
  by (relation "measure (\<lambda>(f, a, b). length a + length b)", simp)
     (simp only: in_measure split_conv, metis skipped_shrinks)

declare strnatcmp0.simps [simp del]

definition strnatcmp :: "cstring \<Rightarrow> cstring \<Rightarrow> int" where
  "strnatcmp = strnatcmp0 False"

definition strnatcasecmp :: "cstring \<Rightarrow> cstring \<Rightarrow> int" where
  "strnatcasecmp = strnatcmp0 True"

section \<open>Swapping the arguments negates the result\<close>

lemma compare_right_swap: "compare_right b a (- bias) = - compare_right a b bias"
  by (induction a b bias rule: compare_right.induct) auto

lemma compare_left_swap: "compare_left b a = - compare_left a b"
  by (induction a b rule: compare_left.induct) auto

lemma nat_digits_swap: "nat_digits b a = - nat_digits a b"
  using compare_left_swap [of b a] compare_right_swap [of b a 0] by (auto simp: nat_digits_def)

definition fold_hd :: "bool \<Rightarrow> cstring \<Rightarrow> char" where
  "fold_hd f s = (if f then toupper (c_hd s) else c_hd s)"

lemma strnatcmp0_unfold:
  assumes "a = dropWhile isspace a0" "b = dropWhile isspace b0"
  shows "strnatcmp0 f a0 b0 =
     (if nat_digits a b \<noteq> 0 then nat_digits a b
      else if a = [] \<and> b = [] then 0
      else if c_lt (fold_hd f a) (fold_hd f b) then -1
      else if c_lt (fold_hd f b) (fold_hd f a) then 1
      else strnatcmp0 f (tl a) (tl b))"
  unfolding strnatcmp0.simps [of f a0 b0] Let_def assms [symmetric] fold_hd_def by (rule refl)

lemma strnatcmp0_swap: "strnatcmp0 f b a = - strnatcmp0 f a b"
proof (induction "length a + length b" arbitrary: a b rule: less_induct)
  case less
  define a' where "a' = dropWhile isspace a"
  define b' where "b' = dropWhile isspace b"
  have IH: "strnatcmp0 f (tl b') (tl a') = - strnatcmp0 f (tl a') (tl b')" if "\<not> (a' = [] \<and> b' = [])"
    using less skipped_shrinks [of isspace a b] that unfolding a'_def b'_def by blast
  show ?case
    unfolding strnatcmp0_unfold [OF a'_def b'_def, of f] strnatcmp0_unfold [OF b'_def a'_def, of f] nat_digits_swap [of b' a']
    by (simp add: IH)
qed

section \<open>Digit runs compare as numbers\<close>

definition digit_val :: "char \<Rightarrow> int" where
  "digit_val c = of_char c - 48"

fun num_val :: "cstring \<Rightarrow> int" where
  "num_val [] = 0"
| "num_val (c # s) = digit_val c * 10 ^ length s + num_val s"

lemma isdigit_val: "isdigit c \<Longrightarrow> 0 \<le> digit_val c \<and> digit_val c \<le> 9"
  by (simp add: isdigit_int digit_val_def Let_def)

lemma num_val_bounds: "list_all isdigit s \<Longrightarrow> 0 \<le> num_val s \<and> num_val s < 10 ^ length s"
proof (induction s)
  case (Cons c s)
  then have "0 \<le> digit_val c" "digit_val c \<le> 9" using isdigit_val by auto
  then have "digit_val c * 10 ^ length s \<le> 9 * 10 ^ length s" "0 \<le> digit_val c * 10 ^ length s"
    by (auto intro: mult_right_mono)
  moreover have "0 \<le> num_val s" "num_val s < 10 ^ length s" using Cons by auto
  ultimately show ?case unfolding num_val.simps list.size add_Suc_right add_0_right power_Suc by linarith
qed simp

lemma compare_right_bias:
  "list_all isdigit a \<Longrightarrow> list_all isdigit b \<Longrightarrow> length a = length b \<Longrightarrow> bias \<noteq> 0 \<Longrightarrow> compare_right a b bias = bias"
  by (induction a b bias rule: compare_right.induct) auto

lemma compare_right_length:
  "list_all isdigit a \<Longrightarrow> list_all isdigit b \<Longrightarrow> length a < length b \<Longrightarrow> compare_right a b bias = -1"
  by (induction a b bias rule: compare_right.induct) auto

lemma num_val_Cons_less:
  assumes "list_all isdigit (x # a)" "list_all isdigit (y # b)" "length a = length b" "c_lt x y"
  shows "num_val (x # a) < num_val (y # b)"
proof -
  have "digit_val x + 1 \<le> digit_val y" using assms(4) by (simp add: digit_val_def)
  then have "(digit_val x + 1) * 10 ^ length b \<le> digit_val y * 10 ^ length b" by (intro mult_right_mono) auto
  with num_val_bounds [of a] num_val_bounds [of b] assms show ?thesis by (simp add: algebra_simps)
qed

lemma compare_right_equal:
  "list_all isdigit a \<Longrightarrow> list_all isdigit b \<Longrightarrow> length a = length b \<Longrightarrow>
   compare_right a b 0 = sgn (num_val a - num_val b)"
proof (induction a b rule: list_induct2')
  case (4 x a y b)
  consider "c_lt x y" | "c_lt y x" | "x = y"
    using linorder_less_linear [of "of_char x :: int" "of_char y"] by (auto simp: of_char_eq_iff)
  then show ?case
  proof cases
    case 1
    then have "num_val (x # a) < num_val (y # b)" using 4 by (intro num_val_Cons_less) auto
    with 1 4 show ?thesis by (auto simp: compare_right_bias)
  next
    case 2
    then have "num_val (y # b) < num_val (x # a)" using 4 by (intro num_val_Cons_less) auto
    with 2 4 show ?thesis by (auto simp: compare_right_bias)
  next
    case 3
    with 4 show ?thesis by simp
  qed
qed auto

definition plain_number :: "cstring \<Rightarrow> bool" where
  "plain_number s \<longleftrightarrow> s \<noteq> [] \<and> list_all isdigit s \<and> hd s \<noteq> CHR ''0''"

lemma plain_number_ge: "plain_number s \<Longrightarrow> 10 ^ (length s - 1) \<le> num_val s"
proof (cases s)
  case (Cons c r)
  assume p: "plain_number s"
  have "of_char (CHR ''0'') = (48 :: int)" by simp
  then have "digit_val c \<noteq> 0"
    using p Cons of_char_eq_iff [of c "CHR ''0''", where ?'a = int] by (auto simp: plain_number_def digit_val_def)
  then have "1 \<le> digit_val c" using p Cons isdigit_val [of c] by (simp add: plain_number_def)
  then have "1 * 10 ^ length r \<le> digit_val c * 10 ^ length r" by (intro mult_right_mono) auto
  moreover have "0 \<le> num_val r" using p Cons num_val_bounds [of r] by (simp add: plain_number_def)
  ultimately have "10 ^ length r \<le> digit_val c * 10 ^ length r + num_val r" by linarith
  then show ?thesis using Cons by simp
qed (simp add: plain_number_def)

lemma plain_number_shorter:
  assumes "plain_number a" "plain_number b" "length a < length b"
  shows "num_val a < num_val b"
proof -
  have "num_val a < 10 ^ length a" using assms(1) num_val_bounds by (simp add: plain_number_def)
  also have "\<dots> \<le> 10 ^ (length b - 1)" using assms(3) by (intro power_increasing) auto
  also have "\<dots> \<le> num_val b" by (rule plain_number_ge [OF assms(2)])
  finally show ?thesis .
qed

lemma compare_right_number:
  assumes "plain_number a" "plain_number b"
  shows "compare_right a b 0 = sgn (num_val a - num_val b)"
proof -
  have d: "list_all isdigit a" "list_all isdigit b" using assms by (auto simp: plain_number_def)
  consider "length a < length b" | "length b < length a" | "length a = length b" by linarith
  then show ?thesis
  proof cases
    case 1
    then show ?thesis using d plain_number_shorter [OF assms] by (simp add: compare_right_length)
  next
    case 2
    then show ?thesis
      using d plain_number_shorter [OF assms(2,1)] compare_right_swap [of b a 0] by (simp add: compare_right_length)
  next
    case 3
    then show ?thesis using d compare_right_equal by blast
  qed
qed

lemma num_val_inj:
  "list_all isdigit a \<Longrightarrow> list_all isdigit b \<Longrightarrow> length a = length b \<Longrightarrow> num_val a = num_val b \<Longrightarrow> a = b"
proof (induction a b rule: list_induct2')
  case (4 x a y b)
  have "\<not> c_lt x y" "\<not> c_lt y x"
    using 4 num_val_Cons_less [of x a y b] num_val_Cons_less [of y b x a] by auto
  then have "x = y" by (metis linorder_less_linear of_char_eq_iff)
  with 4 show ?case by simp
qed auto

section \<open>Properties\<close>

text \<open>
  natural comparison orders plain decimal numbers by value, whatever their lengths, so
  that \<^verbatim>\<open>10\<close> comes after \<^verbatim>\<open>9\<close>.
\<close>

theorem strnatcmp_numbers:
  assumes "plain_number a" "plain_number b"
  shows "strnatcmp a b = sgn (num_val a - num_val b)"
proof (cases "a = b")
  case True
  then show ?thesis using strnatcmp0_swap [of False a a] by (simp add: strnatcmp_def)
next
  case False
  have ne: "num_val a \<noteq> num_val b"
    using False assms plain_number_shorter [OF assms] plain_number_shorter [OF assms(2,1)] num_val_inj
    by (metis less_irrefl linorder_neqE_nat plain_number_def)
  have run: "dropWhile isspace s = s \<and> isdigit (c_hd s) \<and> c_hd s \<noteq> CHR ''0''" if "plain_number s" for s
    using that by (cases s) (auto simp: plain_number_def isdigit_int isspace_int Let_def)
  have "nat_digits a b = sgn (num_val a - num_val b)"
    using run [OF assms(1)] run [OF assms(2)] by (simp add: nat_digits_def compare_right_number [OF assms])
  with ne run [OF assms(1)] run [OF assms(2)] show ?thesis
    unfolding strnatcmp_def by (subst strnatcmp0.simps) (simp add: sgn_0_0)
qed

theorem strnatcmp_numbers_witness: "strnatcmp ''6'' ''10'' = -1 \<and> strnatcmp ''110'' ''109'' = 1"
  using strnatcmp_numbers [of "''6''" "''10''"] strnatcmp_numbers [of "''110''" "''109''"]
  by (simp add: plain_number_def isdigit_int digit_val_def)

text \<open>
  natural comparison is antisymmetric in sign, folding case or not, and a string compares
  equal to itself.
\<close>

theorem strnatcmp_antisym:
  "strnatcmp b a = - strnatcmp a b \<and> strnatcasecmp b a = - strnatcasecmp a b
   \<and> strnatcmp a a = 0 \<and> strnatcasecmp a a = 0"
  using strnatcmp0_swap [of False a a] strnatcmp0_swap [of True a a]
  by (simp add: strnatcmp_def strnatcasecmp_def strnatcmp0_swap [of _ b a])

end
