(* ===== verification/Lists.thy ===== *)
theory Lists
  imports Support Glob "HOL-Library.List_Lexorder"
begin

text \<open>
  Linked lists (\<^verbatim>\<open>src/list.c\<close>). The first part models the generic doubly linked lists
  at the level of the heap: a node is an address, the heap maps it to its \<^verbatim>\<open>prev\<close>,
  \<^verbatim>\<open>next\<close> and \<^verbatim>\<open>priority\<close> fields, and the operations are the assignments of the C
  functions in their order. The walks may run forever on a cyclic heap, so they are
  partial functions. \<open>dll\<close> says that a heap represents a list of addresses; the lemmas show
  that every operation implements the corresponding operation on that list. The second part
  models the typed lists built on them (name lists, name/value/priority lists) as lists of
  values, and the third the binary search over alphabetised name/value tables.
\<close>

section \<open>The model\<close>

subsection \<open>Doubly linked lists\<close>

record node =
  prv :: "nat option"
  nxt :: "nat option"
  priority :: int

type_synonym heap = "nat \<Rightarrow> node"

definition set_prv :: "nat \<Rightarrow> nat option \<Rightarrow> heap \<Rightarrow> heap" where
  "set_prv a p h = h(a := (h a)\<lparr>prv := p\<rparr>)"

definition set_nxt :: "nat \<Rightarrow> nat option \<Rightarrow> heap \<Rightarrow> heap" where
  "set_nxt a n h = h(a := (h a)\<lparr>nxt := n\<rparr>)"

definition add_ListItem :: "nat \<Rightarrow> heap \<Rightarrow> nat option \<Rightarrow> heap \<times> nat option" where
  "add_ListItem item h lst =
     (let h1 = set_nxt item lst h;
          h2 = set_prv item None h1;
          h3 = (case lst of None \<Rightarrow> h2 | Some l \<Rightarrow> set_prv l (Some item) h2)
      in (h3, Some item))"

partial_function (option) last_item :: "heap \<Rightarrow> nat \<Rightarrow> nat option" where
  "last_item h l = (case nxt (h l) of None \<Rightarrow> Some l | Some l' \<Rightarrow> last_item h l')"

definition append_ListItem :: "nat \<Rightarrow> heap \<Rightarrow> nat option \<Rightarrow> (heap \<times> nat option) option" where
  "append_ListItem item h lst =
     (case lst of
        None \<Rightarrow> Some (h, Some item)
      | Some head \<Rightarrow>
          (case last_item h head of
             None \<Rightarrow> None
           | Some l \<Rightarrow> Some (set_prv item (Some l) (set_nxt l (Some item) h), lst)))"

definition del_ListItem :: "nat option \<Rightarrow> heap \<Rightarrow> nat option \<Rightarrow> heap \<times> nat option" where
  "del_ListItem it h lst =
     (case it of
        None \<Rightarrow> (h, lst)
      | Some item \<Rightarrow>
          let h1 = (case prv (h item) of None \<Rightarrow> h | Some p \<Rightarrow> set_nxt p (nxt (h item)) h);
              h2 = (case nxt (h1 item) of None \<Rightarrow> h1 | Some n \<Rightarrow> set_prv n (prv (h1 item)) h1);
              lst' = (if lst = Some item then nxt (h2 item) else lst)
          in (set_prv item None (set_nxt item None h2), lst'))"

text \<open>The search of \<^verbatim>\<open>add_ListItemPrio\<close>: the node it stops at, if any, and \<^verbatim>\<open>last\<close>.\<close>

partial_function (option) prio_walk :: "heap \<Rightarrow> int \<Rightarrow> nat option \<Rightarrow> nat option \<Rightarrow> (nat option \<times> nat option) option" where
  "prio_walk h p x lst =
     (case x of
        None \<Rightarrow> Some (None, lst)
      | Some a \<Rightarrow> if priority (h a) \<ge> p then Some (x, x) else prio_walk h p (nxt (h a)) x)"

definition add_ListItemPrio :: "nat \<Rightarrow> heap \<Rightarrow> nat option \<Rightarrow> int \<Rightarrow> (heap \<times> nat option) option" where
  "add_ListItemPrio new h lst p =
     (case lst of
        None \<Rightarrow> Some (h, Some new)
      | Some _ \<Rightarrow>
          (case prio_walk h p lst None of
             None \<Rightarrow> None
           | Some (Some x, _) \<Rightarrow>
               (case prv (h x) of
                  Some q \<Rightarrow>
                    Some (set_prv x (Some new) (set_nxt q (Some new) (set_nxt new (Some x) (set_prv new (Some q) h))), lst)
                | None \<Rightarrow> Some (set_prv x (Some new) (set_nxt new (Some x) h), Some new))
           | Some (None, Some z) \<Rightarrow> Some (set_prv new (Some z) (set_nxt z (Some new) h), lst)
           | Some (None, None) \<Rightarrow> None))"

subsection \<open>Name lists\<close>

type_synonym name_list = "cstring list"

definition add_name_list :: "name_list \<Rightarrow> cstring \<Rightarrow> name_list" where
  "add_name_list lst name = name # lst"

definition append_name_list :: "name_list \<Rightarrow> cstring \<Rightarrow> name_list" where
  "append_name_list lst name = lst @ [name]"

fun duplicate_name_list :: "name_list \<Rightarrow> name_list" where
  "duplicate_name_list [] = []"
| "duplicate_name_list (e # es) = e # duplicate_name_list es"

definition find_name_list :: "name_list \<Rightarrow> cstring \<Rightarrow> cstring option" where
  "find_name_list lst name = find (\<lambda>e. strcaseeq e name) lst"

fun del_name_list :: "name_list \<Rightarrow> cstring \<Rightarrow> name_list" where
  "del_name_list [] name = []"
| "del_name_list (e # es) name = (if strcaseeq e name then es else e # del_name_list es name)"

definition find_name_list_match :: "name_list \<Rightarrow> cstring \<Rightarrow> cstring option" where
  "find_name_list_match lst name = find (\<lambda>e. match_simple e name = Some True) lst"

subsection \<open>Name/value/priority lists\<close>

record nvp =
  nvp_priority :: int
  nvp_name :: cstring
  nvp_value :: "cstring option"

definition add_nvplist :: "nvp list \<Rightarrow> int \<Rightarrow> cstring \<Rightarrow> cstring option \<Rightarrow> nvp list" where
  "add_nvplist lst p name val =
     (let e = \<lparr>nvp_priority = p, nvp_name = name,
               nvp_value = (case val of None \<Rightarrow> None | Some v \<Rightarrow> if v \<noteq> [] then Some v else None)\<rparr>
      in takeWhile (\<lambda>x. nvp_priority x < p) lst @ e # dropWhile (\<lambda>x. nvp_priority x < p) lst)"

definition find_nvplist :: "nvp list \<Rightarrow> cstring \<Rightarrow> nvp option" where
  "find_nvplist lst name = find (\<lambda>e. strcaseeq (nvp_name e) name) lst"

definition get_nvplist :: "nvp list \<Rightarrow> cstring \<Rightarrow> cstring option" where
  "get_nvplist lst name = (case find_nvplist lst name of None \<Rightarrow> None | Some e \<Rightarrow> nvp_value e)"

fun duplicate_nvplist_append :: "nvp list \<Rightarrow> nvp list \<Rightarrow> nvp list" where
  "duplicate_nvplist_append [] lst = lst"
| "duplicate_nvplist_append (e # es) lst =
     duplicate_nvplist_append es (add_nvplist lst (nvp_priority e) (nvp_name e) (nvp_value e))"

definition duplicate_nvplist :: "nvp list \<Rightarrow> nvp list" where
  "duplicate_nvplist es = duplicate_nvplist_append es []"

subsection \<open>Name/value tables\<close>

type_synonym nv_table = "(cstring \<times> int) list"

function nv_search :: "nv_table \<Rightarrow> cstring \<Rightarrow> int \<Rightarrow> int \<Rightarrow> int" where
  "nv_search table cmd start stop =
     (if start \<le> stop
      then let mid = (start + stop) div 2; (name, val) = table ! nat mid
           in if smycmp cmd name < 0 then nv_search table cmd start (mid - 1)
              else if cmd = name then val
              else nv_search table cmd (mid + 1) stop
      else 0)"
  by pat_completeness auto
termination
  by (relation "measure (\<lambda>(t, c, a, b). nat (b + 1 - a))") auto

declare nv_search.simps [simp del]

definition do_nv_find_by_name :: "nv_table \<Rightarrow> cstring \<Rightarrow> int \<Rightarrow> int" where
  "do_nv_find_by_name table cmd numelements = nv_search table cmd 0 (numelements - 1)"

fun do_nv_find_by_value :: "nv_table \<Rightarrow> int \<Rightarrow> cstring option" where
  "do_nv_find_by_value [] v = None"
| "do_nv_find_by_value ((name, val) # t) v = (if val = v then Some name else do_nv_find_by_value t v)"

text \<open>The tables of \<^verbatim>\<open>src/conf.c\<close>, with the flag values of \<^verbatim>\<open>include/struct.h\<close>.\<close>

definition ListenerFlags :: nv_table where
  "ListenerFlags = [(''clientsonly'', 0x2), (''defer-accept'', 0x40), (''serversonly'', 0x4), (''ssl'', 0x10),
     (''standard'', 0x1), (''tls'', 0x10)]"

definition LinkOutgoingFlags :: nv_table where
  "LinkOutgoingFlags = [(''autoconnect'', 0x2), (''insecure'', 0x8), (''quarantine'', 0x1), (''ssl'', 0x1), (''tls'', 0x1)]"

definition LinkFlags :: nv_table where
  "LinkFlags = [(''no-certificate-verification'', 0x2), (''quarantine'', 0x1)]"

definition TLSFlags :: nv_table where
  "TLSFlags = [(''fail-if-no-clientcert'', 0x1), (''no-client-certificate'', 0x4), (''no-starttls'', 0x2)]"

section \<open>The heap represents a list\<close>

text \<open>
  \<open>seg h p s xs e\<close>: following \<^verbatim>\<open>next\<close> from \<open>s\<close> visits \<open>xs\<close> and arrives at \<open>e\<close>; every
  \<^verbatim>\<open>prev\<close> points to the node before, the first one to \<open>p\<close>.
\<close>

fun seg :: "heap \<Rightarrow> nat option \<Rightarrow> nat option \<Rightarrow> nat list \<Rightarrow> nat option \<Rightarrow> bool" where
  "seg h p s [] e \<longleftrightarrow> s = e"
| "seg h p s (x # xs) e \<longleftrightarrow> s = Some x \<and> prv (h x) = p \<and> seg h (Some x) (nxt (h x)) xs e"

definition dll :: "heap \<Rightarrow> nat option \<Rightarrow> nat list \<Rightarrow> bool" where
  "dll h lst xs \<longleftrightarrow> distinct xs \<and> seg h None lst xs None"

definition end_of :: "nat option \<Rightarrow> nat list \<Rightarrow> nat option" where
  "end_of p xs = (if xs = [] then p else Some (last xs))"

definition start_of :: "nat list \<Rightarrow> nat option \<Rightarrow> nat option" where
  "start_of xs e = (case xs of [] \<Rightarrow> e | x # _ \<Rightarrow> Some x)"

lemma end_of_simps [simp]: "end_of p [] = p" "end_of p (x # xs) = end_of (Some x) xs" "end_of p (xs @ [y]) = Some y"
  by (simp_all add: end_of_def)

lemma start_of_simps [simp]: "start_of [] e = e" "start_of (x # xs) e = Some x"
  by (simp_all add: start_of_def)

lemma seg_start: "seg h p s xs e \<Longrightarrow> s = start_of xs e"
  by (cases xs) auto

lemma seg_append:
  "seg h p s (xs @ ys) e \<longleftrightarrow> seg h p s xs (start_of ys e) \<and> seg h (end_of p xs) (start_of ys e) ys e"
proof (induction xs arbitrary: p s)
  case Nil
  then show ?case by (cases ys) auto
qed auto

lemma seg_frame [simp]: "a \<notin> set xs \<Longrightarrow> seg (h(a := n)) p s xs e = seg h p s xs e"
  by (induction xs arbitrary: p s) auto

lemma set_frame [simp]:
  "a \<notin> set xs \<Longrightarrow> seg (set_prv a q h) p s xs e = seg h p s xs e"
  "a \<notin> set xs \<Longrightarrow> seg (set_nxt a q h) p s xs e = seg h p s xs e"
  by (simp_all add: set_prv_def set_nxt_def)

lemma set_sel [simp]:
  "prv (set_prv a q h b) = (if b = a then q else prv (h b))" "nxt (set_prv a q h b) = nxt (h b)"
  "prv (set_nxt a q h b) = prv (h b)" "nxt (set_nxt a q h b) = (if b = a then q else nxt (h b))"
  "priority (set_prv a q h b) = priority (h b)" "priority (set_nxt a q h b) = priority (h b)"
  by (simp_all add: set_prv_def set_nxt_def)

text \<open>The nodes around a position, as the assignments see them.\<close>

lemma seg_mid:
  "seg h p s (ys @ x # zs) e \<longleftrightarrow>
     seg h p s ys (Some x) \<and> prv (h x) = end_of p ys \<and> nxt (h x) = start_of zs e \<and> seg h (Some x) (start_of zs e) zs e"
  by (auto simp: seg_append) (metis seg_start)+

lemma seg_snoc: "seg h p s (ys @ [y]) e \<longleftrightarrow> seg h p s ys (Some y) \<and> prv (h y) = end_of p ys \<and> nxt (h y) = e"
  by (simp add: seg_mid)

lemma add_ListItem_dll:
  assumes "dll h lst xs" "item \<notin> set xs" "add_ListItem item h lst = (h', lst')"
  shows "dll h' lst' (item # xs)"
  using assms by (cases xs) (auto simp: dll_def add_ListItem_def Let_def)

lemma last_item_seg: "seg h p (Some x) (xs @ [y]) None \<Longrightarrow> last_item h x = Some y"
proof (induction xs arbitrary: p x)
  case Nil
  then show ?case by (subst last_item.simps) simp
next
  case (Cons a xs)
  then have "seg h (Some x) (nxt (h x)) (xs @ [y]) None" "a = x" by auto
  moreover from this obtain b where "nxt (h x) = Some b" using seg_start by (cases xs) fastforce+
  ultimately show ?case using Cons.IH by (subst last_item.simps) auto
qed

lemma append_ListItem_dll:
  assumes "dll h lst xs" "item \<notin> set xs" "nxt (h item) = None" "prv (h item) = None"
  shows "\<exists>h' lst'. append_ListItem item h lst = Some (h', lst') \<and> dll h' lst' (xs @ [item])"
proof (cases xs rule: rev_cases)
  case Nil
  then show ?thesis using assms by (simp add: append_ListItem_def dll_def)
next
  case (snoc ys y)
  then have sg: "seg h None lst (ys @ [y]) None" "distinct (ys @ [y])" "item \<notin> set (ys @ [y])" using assms by (auto simp: dll_def)
  then obtain head where head: "lst = Some head" using seg_start by (cases ys) fastforce+
  then have "last_item h head = Some y" using last_item_seg sg by blast
  with head sg assms(3) show ?thesis
    by (simp add: append_ListItem_def dll_def snoc seg_mid)
qed

lemma del_ListItem_dll:
  assumes "dll h lst (ys @ item # zs)" "del_ListItem (Some item) h lst = (h', lst')"
  shows "dll h' lst' (ys @ zs) \<and> prv (h' item) = None \<and> nxt (h' item) = None"
proof (cases ys rule: rev_cases)
  case Nil
  with assms show ?thesis by (cases zs) (auto simp: dll_def del_ListItem_def Let_def)
next
  case (snoc ys' y)
  with assms(1) have "lst \<noteq> Some item" by (cases ys') (auto simp: dll_def)
  with assms snoc show ?thesis
    by (cases zs) (auto simp: dll_def del_ListItem_def Let_def seg_mid)
qed

lemma prio_walk_seg:
  "seg h p s xs None \<Longrightarrow>
   prio_walk h k s p = Some (case dropWhile (\<lambda>x. priority (h x) < k) xs of
       [] \<Rightarrow> (None, end_of p xs) | x # _ \<Rightarrow> (Some x, Some x))"
proof (induction xs arbitrary: p s)
  case Nil
  then show ?case by (subst prio_walk.simps) simp
next
  case (Cons a xs)
  then show ?case
    by (subst prio_walk.simps) (auto split: list.split simp del: dropWhile_eq_Nil_conv)
qed

lemma add_ListItemPrio_dll:
  assumes "dll h lst xs" "new \<notin> set xs" "nxt (h new) = None" "prv (h new) = None"
  shows "\<exists>h' lst'. add_ListItemPrio new h lst k = Some (h', lst')
    \<and> dll h' lst' (takeWhile (\<lambda>x. priority (h x) < k) xs @ new # dropWhile (\<lambda>x. priority (h x) < k) xs)
    \<and> (\<forall>a. priority (h' a) = priority (h a))"
proof -
  define us where "us = takeWhile (\<lambda>x. priority (h x) < k) xs"
  define vs where "vs = dropWhile (\<lambda>x. priority (h x) < k) xs"
  have xs: "xs = us @ vs" by (simp add: us_def vs_def)
  have sg: "seg h None lst xs None" "distinct xs" using assms by (auto simp: dll_def)
  have walk: "prio_walk h k lst None = Some (case vs of [] \<Rightarrow> (None, end_of None xs) | x # _ \<Rightarrow> (Some x, Some x))"
    using prio_walk_seg [OF sg(1)] by (simp add: vs_def)
  have "\<exists>h' lst'. add_ListItemPrio new h lst k = Some (h', lst') \<and> dll h' lst' (us @ new # vs)
    \<and> (\<forall>a. priority (h' a) = priority (h a))"
  proof (cases "xs = []")
    case True
    then show ?thesis using assms sg xs by (simp add: add_ListItemPrio_def dll_def)
  next
    case False
    then obtain head where head: "lst = Some head" using seg_start [OF sg(1)] by (cases xs) auto
    show ?thesis
    proof (cases vs)
      case Nil
      with xs False obtain us' y where us: "us = us' @ [y]" by (cases us rule: rev_cases) auto
      with xs Nil head walk sg assms show ?thesis
        by (simp add: add_ListItemPrio_def dll_def seg_mid)
    next
      case (Cons v vs')
      show ?thesis
      proof (cases us rule: rev_cases)
        case Nil
        with xs Cons head walk sg assms show ?thesis
          by (simp add: add_ListItemPrio_def dll_def)
      next
        case (snoc us' y)
        with xs Cons head walk sg assms show ?thesis
          by (auto simp: add_ListItemPrio_def dll_def seg_mid)
      qed
    qed
  qed
  then show ?thesis by (simp add: us_def vs_def)
qed

section \<open>Priority lists of values\<close>

lemma add_nvplist_value: "e \<in> set (add_nvplist lst p name val) \<Longrightarrow> e \<in> set lst \<or> nvp_value e \<noteq> Some []"
  by (auto simp: add_nvplist_def Let_def dest: set_takeWhileD set_dropWhileD split: option.splits if_splits)

lemma duplicate_append_value:
  "\<forall>e \<in> set lst. nvp_value e \<noteq> Some [] \<Longrightarrow> e \<in> set (duplicate_nvplist_append es lst) \<Longrightarrow> nvp_value e \<noteq> Some []"
  by (induction es lst rule: duplicate_nvplist_append.induct) (auto dest: add_nvplist_value)

lemma duplicate_append_same_prio:
  assumes "\<forall>e \<in> set (es @ lst). nvp_priority e = p" "\<forall>e \<in> set es. nvp_value e \<noteq> Some []"
  shows "duplicate_nvplist_append es lst = rev es @ lst"
  using assms
proof (induction es arbitrary: lst)
  case (Cons e es)
  have "add_nvplist lst (nvp_priority e) (nvp_name e) (nvp_value e) = e # lst"
    using Cons.prems by (cases lst) (auto simp: add_nvplist_def Let_def split: option.splits)
  with Cons show ?case by simp
qed simp

section \<open>Binary search\<close>

abbreviation fold_codes :: "cstring \<Rightarrow> int list" where
  "fold_codes s \<equiv> map (\<lambda>c. of_char (toupper c)) s"

lemma of_char_pos: "c \<noteq> NUL \<Longrightarrow> 0 < (of_char (toupper c) :: int)"
proof -
  assume "c \<noteq> NUL"
  then have "of_char (toupper c) \<noteq> (0 :: int)" by (simp add: of_char_0_iff)
  moreover have "0 \<le> (of_char (toupper c) :: int)"
    using of_nat_of_char [of "toupper c", where ?'a = int, symmetric] by simp
  ultimately show ?thesis by linarith
qed

lemma smycmp_less_iff: "cstr a \<Longrightarrow> cstr b \<Longrightarrow> smycmp a b < 0 \<longleftrightarrow> fold_codes a < fold_codes b"
  by (induction a b rule: smycmp.induct) (auto simp: of_char_pos Let_def dest: of_char_pos)

definition nv_sorted :: "nv_table \<Rightarrow> bool" where
  "nv_sorted t \<longleftrightarrow> sorted_wrt (\<lambda>x y. smycmp (fst x) (fst y) < 0) t \<and> list_all (\<lambda>x. cstr (fst x)) t"

lemma nv_sorted_less: "nv_sorted t \<Longrightarrow> i < j \<Longrightarrow> j < length t \<Longrightarrow> fold_codes (fst (t ! i)) < fold_codes (fst (t ! j))"
  using smycmp_less_iff by (auto simp: nv_sorted_def sorted_wrt_iff_nth_less list_all_length)

lemma nv_sorted_distinct: "nv_sorted t \<Longrightarrow> distinct (map fst t)"
  using nv_sorted_less by (force simp: distinct_conv_nth nat_neq_iff)

lemma nv_search_correct:
  assumes "nv_sorted t" "cstr cmd"
  shows "0 \<le> start \<Longrightarrow> stop < int (length t) \<Longrightarrow>
    \<forall>i < length t. fst (t ! i) = cmd \<longrightarrow> start \<le> int i \<and> int i \<le> stop \<Longrightarrow>
    nv_search t cmd start stop = (case map_of t cmd of None \<Rightarrow> 0 | Some v \<Rightarrow> v)"
proof (induction "nat (stop + 1 - start)" arbitrary: start stop rule: less_induct)
  case less
  show ?case
  proof (cases "start \<le> stop")
    case False
    then have "cmd \<notin> fst ` set t" using less.prems(3) by (fastforce simp: in_set_conv_nth)
    then have "map_of t cmd = None" by (simp add: map_of_eq_None_iff)
    with False show ?thesis by (subst nv_search.simps) simp
  next
    case True
    define mid where "mid = (start + stop) div 2"
    obtain name val where nv: "t ! nat mid = (name, val)" by (cases "t ! nat mid")
    have m: "start \<le> mid" "mid \<le> stop" "nat mid < length t" using True less.prems by (auto simp: mid_def)
    have cn: "cstr name" using assms(1) m(3) nv by (auto simp: nv_sorted_def list_all_length)
    have step: "nv_search t cmd start stop = (if smycmp cmd name < 0 then nv_search t cmd start (mid - 1)
        else if cmd = name then val else nv_search t cmd (mid + 1) stop)"
      using True nv by (subst nv_search.simps) (simp add: mid_def)
    consider "smycmp cmd name < 0" | "\<not> smycmp cmd name < 0" "cmd = name" | "\<not> smycmp cmd name < 0" "cmd \<noteq> name" by blast
    then show ?thesis
    proof cases
      case 1
      have "int i \<le> mid - 1" if "i < length t" "fst (t ! i) = cmd" for i
      proof (rule ccontr)
        assume "\<not> int i \<le> mid - 1"
        then have "nat mid \<le> i" by linarith
        then have "fold_codes name \<le> fold_codes cmd"
          using nv_sorted_less [OF assms(1), of "nat mid" i] that nv by (cases "nat mid = i") auto
        then show False using 1 smycmp_less_iff [OF assms(2) cn] by simp
      qed
      with less.hyps [of "mid - 1" start] less.prems m show ?thesis unfolding step using 1 by auto
    next
      case 2
      have "(cmd, val) \<in> set t" using nv m(3) 2 nth_mem by fastforce
      then have "map_of t cmd = Some val" using nv_sorted_distinct [OF assms(1)] by simp
      then show ?thesis unfolding step using 2 by simp
    next
      case 3
      have "mid + 1 \<le> int i" if "i < length t" "fst (t ! i) = cmd" for i
      proof (rule ccontr)
        assume "\<not> mid + 1 \<le> int i"
        moreover have "i \<noteq> nat mid" using that 3 nv by auto
        ultimately have "fold_codes cmd < fold_codes name"
          using nv_sorted_less [OF assms(1), of i "nat mid"] that nv m by auto
        then show False using 3 smycmp_less_iff [OF assms(2) cn] by simp
      qed
      with less.hyps [of stop "mid + 1"] less.prems m show ?thesis unfolding step using 3 by auto
    qed
  qed
qed

lemma do_nv_find_correct:
  "nv_sorted t \<Longrightarrow> cstr cmd \<Longrightarrow>
   do_nv_find_by_name t cmd (int (length t)) = (case map_of t cmd of None \<Rightarrow> 0 | Some v \<Rightarrow> v)"
  unfolding do_nv_find_by_name_def by (rule nv_search_correct) auto

lemma conf_tables_sorted:
  "nv_sorted ListenerFlags" "nv_sorted LinkOutgoingFlags" "nv_sorted LinkFlags" "nv_sorted TLSFlags"
  by code_simp+

section \<open>Properties\<close>



text \<open>
  \<^verbatim>\<open>add_ListItemPrio\<close> returns on every well-formed list and inserts the new node before
  the first one whose priority is not smaller: among equal priorities the new node comes
  first.
\<close>

theorem add_prio_before_equal:
  assumes "dll h lst xs" "new \<notin> set xs" "nxt (h new) = None" "prv (h new) = None"
  shows "\<exists>h' lst'. add_ListItemPrio new h lst k = Some (h', lst')
    \<and> dll h' lst' (takeWhile (\<lambda>x. priority (h x) < k) xs @ new # dropWhile (\<lambda>x. priority (h x) < k) xs)
    \<and> (\<forall>a. priority (h' a) = priority (h a))"
  by (rule add_ListItemPrio_dll [OF assms])

theorem add_prio_before_equal_witness:
  "\<exists>h' lst'. add_ListItemPrio 2 (\<lambda>a. \<lparr>prv = None, nxt = None, priority = 5\<rparr>) (Some 1) 5 = Some (h', lst')
    \<and> dll h' lst' [2, 1]"
  using add_prio_before_equal [of "\<lambda>a. \<lparr>prv = None, nxt = None, priority = 5\<rparr>" "Some 1" "[1]" 2 5]
  by (fastforce simp: dll_def)

text \<open>
  duplicating a name/value list whose entries share one priority reverses it, so where a
  name occurs twice a lookup in the copy can find the other entry.
\<close>

theorem duplicate_nvplist_reverses:
  assumes "\<forall>e \<in> set es. nvp_priority e = p \<and> nvp_value e \<noteq> Some []"
  shows "duplicate_nvplist es = rev es"
  using duplicate_append_same_prio [of es "[]" p] assms by (simp add: duplicate_nvplist_def)

theorem duplicate_nvplist_reverses_witness:
  "let es = [\<lparr>nvp_priority = 0, nvp_name = ''k'', nvp_value = Some ''old''\<rparr>, \<lparr>nvp_priority = 0, nvp_name = ''K'', nvp_value = Some ''new''\<rparr>]
   in get_nvplist es ''k'' = Some ''old'' \<and> get_nvplist (duplicate_nvplist es) ''k'' = Some ''new''"
proof -
  let ?es = "[\<lparr>nvp_priority = 0, nvp_name = ''k'', nvp_value = Some ''old''\<rparr>, \<lparr>nvp_priority = 0, nvp_name = ''K'', nvp_value = Some ''new''\<rparr>]"
  have d: "duplicate_nvplist ?es = rev ?es" by (rule duplicate_nvplist_reverses) auto
  have "strcaseeq ''K'' ''k''" "strcaseeq ''k'' ''k''" by code_simp+
  then show ?thesis unfolding Let_def d by (simp add: get_nvplist_def find_nvplist_def)
qed

text \<open>
  C38: on an alphabetised table the binary search of \<^verbatim>\<open>do_nv_find_by_name\<close> returns the
  value of the entry with exactly that name, and 0 if there is none.
\<close>

theorem nv_find_lookup:
  "nv_sorted t \<Longrightarrow> cstr cmd \<Longrightarrow>
   do_nv_find_by_name t cmd (int (length t)) = (case map_of t cmd of None \<Rightarrow> 0 | Some v \<Rightarrow> v)"
  by (rule do_nv_find_correct)

theorem nv_find_lookup_witness: "do_nv_find_by_name ListenerFlags ''standard'' (int (length ListenerFlags)) = 1"
  using nv_find_lookup [OF conf_tables_sorted(1), of "''standard''"] by (simp add: ListenerFlags_def)

text \<open>
  the option name \<^verbatim>\<open>quarantine\<close> in the outgoing part of a link block yields the flag
  that the name \<^verbatim>\<open>tls\<close> yields, so it turns on TLS.
\<close>

theorem outgoing_quarantine_is_tls:
  "do_nv_find_by_name LinkOutgoingFlags ''quarantine'' 5 = do_nv_find_by_name LinkOutgoingFlags ''tls'' 5
   \<and> do_nv_find_by_name LinkOutgoingFlags ''tls'' 5 = 1"
  using do_nv_find_correct [OF conf_tables_sorted(2), of "''quarantine''"]
    do_nv_find_correct [OF conf_tables_sorted(2), of "''tls''"] by (simp add: LinkOutgoingFlags_def)

end
