(* ===== verification/Varstring.thy ===== *)
theory Varstring
  imports Lists
begin

unbundle bit_operations_syntax

text \<open>
  Variable substitution (\<^verbatim>\<open>src/support.c\<close>: \<^verbatim>\<open>buildvarstring_nvp\<close>, \<^verbatim>\<open>buildvarstring\<close>)
  and the URL encoding it can apply (\<^verbatim>\<open>src/url_unreal.c\<close>: \<^verbatim>\<open>urlencode\<close>). The output
  buffer is the text written so far, \<^verbatim>\<open>left\<close> the counter of the C code. A result of
  \<open>None\<close> is a return that leaves the buffer without a terminating NUL.
\<close>

section \<open>The model\<close>

definition url_plain :: "char \<Rightarrow> bool" where
  "url_plain c \<longleftrightarrow> isalpha c \<or> isdigit c \<or> c \<in> set ''-._~''"

definition hexchar :: "8 word \<Rightarrow> char" where
  "hexchar w = ''0123456789abcdef'' ! unat w"

definition url_hex :: "char \<Rightarrow> cstring" where
  "url_hex c = (let w = of_char c :: 8 word
                in [CHR ''%'', hexchar (drop_bit 4 w AND 0xF), hexchar (w AND 0xF)])"

text \<open>
  The loop yields the text and the final value of \<^verbatim>\<open>wlen\<close>, which is decremented also on
  the way out when a plain character does not fit. \<open>urlencode\<close> yields the text, whether a
  terminating NUL was written, and whether the result is non-NULL.
\<close>

fun urlencode_loop :: "cstring \<Rightarrow> int \<Rightarrow> cstring \<times> int" where
  "urlencode_loop [] wlen = ([], wlen)"
| "urlencode_loop (c # s) wlen =
     (if url_plain c
      then if wlen \<le> 1 then ([], wlen - 1)
           else (case urlencode_loop s (wlen - 1) of (t, w) \<Rightarrow> (c # t, w))
      else if wlen \<le> 3 then ([], wlen)
           else (case urlencode_loop s (wlen - 3) of (t, w) \<Rightarrow> (url_hex c @ t, w)))"

definition urlencode :: "cstring option \<Rightarrow> int \<Rightarrow> cstring \<times> bool \<times> bool" where
  "urlencode s wlen =
     (case s of
        None \<Rightarrow> ([], wlen > 0, False)
      | Some t \<Rightarrow> (case urlencode_loop t wlen of (txt, w) \<Rightarrow> (txt, w \<noteq> 0, True)))"

record bvs_flags =
  bvs_urlencode :: bool
  bvs_xml :: bool
  bvs_unknown_var_is_empty :: bool
  bvs_keep_space :: bool

definition validvarcharacter :: "char \<Rightarrow> bool" where
  "validvarcharacter c \<longleftrightarrow> isalnum c \<or> c = CHR ''_''"

text \<open>
  The encoders write to a static buffer of 4096 zeroed bytes; its last byte is never
  overwritten by anything but a NUL, so the text read back is the text written.
\<close>

definition bvs_encode :: "bvs_flags \<Rightarrow> cstring \<Rightarrow> cstring" where
  "bvs_encode fl v =
     (let v1 = (if bvs_urlencode fl then fst (urlencode (Some v) 4096) else v)
      in if bvs_xml fl then xmlescape v1 4096 else v1)"

text \<open>
  What a variable's value does to the output: \<open>Inl\<close> is the return inside the loop,
  \<open>Inr\<close> the output and \<^verbatim>\<open>left\<close> to go on with.
\<close>

definition bvs_value :: "bvs_flags \<Rightarrow> cstring \<Rightarrow> cstring \<Rightarrow> int \<Rightarrow> cstring option + cstring \<times> int" where
  "bvs_value fl output res left =
     (if output = [] \<and> \<not> bvs_keep_space fl
      then if res \<noteq> [] \<and> last res = CHR '' '' then Inr (butlast res, left + 1) else Inr (res, left)
      else let left' = left - int (length output)
           in if left' \<le> 0
              then Inl (if left \<le> 0 then None else Some (res @ take (nat left - 1) output))
              else Inr (res @ output, left'))"

definition bvs_literal :: "char \<Rightarrow> cstring \<Rightarrow> int \<Rightarrow> cstring option + cstring \<times> int" where
  "bvs_literal c res left =
     (if left = 0 then Inl (Some res)
      else if left - 1 = 0 then Inl (Some (res @ [c]))
      else Inr (res @ [c], left - 1))"

text \<open>One step of the loop at a nonempty input: what happens and where the input goes on.\<close>

definition bvs_step :: "bvs_flags \<Rightarrow> nvp list \<Rightarrow> char \<Rightarrow> cstring \<Rightarrow> cstring \<Rightarrow> int
    \<Rightarrow> (cstring option + cstring \<times> int) \<times> cstring" where
  "bvs_step fl lst c s res left =
     (if c = CHR ''$'' then
        if s \<noteq> [] \<and> hd s = CHR ''$'' then (bvs_literal (CHR ''$'') res left, tl s)
        else if s = [] \<or> \<not> validvarcharacter (hd s) then (bvs_literal c res left, s)
        else let name = take 255 (takeWhile validvarcharacter s);
                 rest = dropWhile validvarcharacter s
             in (case find_nvplist lst name of
                   Some n \<Rightarrow>
                     (case nvp_value n of
                        None \<Rightarrow> (Inr (res, left), rest)
                      | Some v \<Rightarrow> (bvs_value fl (bvs_encode fl v) res left, rest))
                 | None \<Rightarrow>
                     if bvs_unknown_var_is_empty fl then (Inr (res, left), rest)
                     else (bvs_literal c res left, s))
      else (bvs_literal c res left, s))"

lemma bvs_step_rest: "length (snd (bvs_step fl lst c s res left)) \<le> length s"
  by (auto simp: bvs_step_def Let_def length_dropWhile_le split: option.splits)

function bvs_loop :: "bvs_flags \<Rightarrow> nvp list \<Rightarrow> cstring \<Rightarrow> cstring \<Rightarrow> int \<Rightarrow> cstring option" where
  "bvs_loop fl lst [] res left = Some res"
| "bvs_loop fl lst (c # s) res left =
     (case fst (bvs_step fl lst c s res left) of
        Inl r \<Rightarrow> r
      | Inr (res', left') \<Rightarrow> bvs_loop fl lst (snd (bvs_step fl lst c s res left)) res' left')"
  by pat_completeness auto
termination
  by (relation "measure (\<lambda>(fl, lst, s, res, left). length s)") (auto simp: less_Suc_eq_le bvs_step_rest)

definition buildvarstring_nvp :: "cstring \<Rightarrow> nat \<Rightarrow> nvp list \<Rightarrow> bvs_flags \<Rightarrow> cstring option" where
  "buildvarstring_nvp inbuf len lst fl = bvs_loop fl lst inbuf [] (int len - 1)"

definition bvs_no_flags :: bvs_flags where
  "bvs_no_flags = \<lparr>bvs_urlencode = False, bvs_xml = False, bvs_unknown_var_is_empty = False, bvs_keep_space = False\<rparr>"

fun add_vars :: "(cstring \<times> cstring option) list \<Rightarrow> nvp list \<Rightarrow> nvp list" where
  "add_vars [] lst = lst"
| "add_vars ((name, val) # vs) lst = add_vars vs (add_nvplist lst 0 name val)"

definition buildvarstring :: "cstring \<Rightarrow> nat \<Rightarrow> (cstring \<times> cstring option) list \<Rightarrow> cstring option" where
  "buildvarstring inbuf len vars = buildvarstring_nvp inbuf len (add_vars vars []) bvs_no_flags"

section \<open>URL encoding\<close>

lemma url_hex_length [simp]: "length (url_hex c) = 3"
  by (simp add: url_hex_def Let_def)

lemma urlencode_length: "0 < wlen \<Longrightarrow> int (length (fst (urlencode_loop s wlen))) < wlen"
  by (induction s wlen rule: urlencode_loop.induct) (auto split: prod.splits)

definition url_text :: "cstring \<Rightarrow> cstring" where
  "url_text s = concat (map (\<lambda>c. if url_plain c then [c] else url_hex c) s)"

lemma urlencode_fits:
  "int (length (url_text s)) < wlen \<Longrightarrow> urlencode_loop s wlen = (url_text s, wlen - int (length (url_text s)))"
proof (induction s wlen rule: urlencode_loop.induct)
  case (2 c s wlen)
  have "url_text (c # s) = (if url_plain c then [c] else url_hex c) @ url_text s" by (simp add: url_text_def)
  with 2 show ?case by (cases "url_plain c") auto
qed (simp add: url_text_def)

lemma urlencode_full:
  "list_all url_plain s \<Longrightarrow> wlen = int n + 1 \<Longrightarrow> n < length s \<Longrightarrow> urlencode_loop s wlen = (take n s, 0)"
proof (induction s wlen arbitrary: n rule: urlencode_loop.induct)
  case (2 c s wlen)
  then show ?case by (cases n) auto
qed simp

section \<open>The output stays in the buffer\<close>

text \<open>\<open>bvs_ok\<close>: the bytes written and the bytes left make up the buffer but for the NUL.\<close>

definition bvs_ok :: "nat \<Rightarrow> cstring option + cstring \<times> int \<Rightarrow> bool" where
  "bvs_ok len r \<longleftrightarrow> (case r of
     Inl t \<Rightarrow> (\<exists>s. t = Some s \<and> length s < len)
   | Inr (res, left) \<Rightarrow> 0 < left \<and> int (length res) + left = int len - 1)"

lemma bvs_literal_ok: "0 < left \<Longrightarrow> int (length res) + left = int len - 1 \<Longrightarrow> bvs_ok len (bvs_literal c res left)"
  by (auto simp: bvs_literal_def bvs_ok_def)

lemma bvs_value_ok: "0 < left \<Longrightarrow> int (length res) + left = int len - 1 \<Longrightarrow> bvs_ok len (bvs_value fl v res left)"
  by (cases res rule: rev_cases) (auto simp: bvs_value_def bvs_ok_def Let_def)

lemma bvs_step_ok:
  "0 < left \<Longrightarrow> int (length res) + left = int len - 1 \<Longrightarrow> bvs_ok len (fst (bvs_step fl lst c s res left))"
  by (auto simp: bvs_step_def Let_def bvs_literal_ok bvs_value_ok split: option.splits) (simp add: bvs_ok_def)+

lemma bvs_loop_ok:
  "0 < left \<Longrightarrow> int (length res) + left = int len - 1 \<Longrightarrow> \<exists>t. bvs_loop fl lst s res left = Some t \<and> length t < len"
proof (induction fl lst s res left rule: bvs_loop.induct)
  case (2 fl lst c s res left)
  have ok: "bvs_ok len (fst (bvs_step fl lst c s res left))" by (rule bvs_step_ok [OF 2(2,3)])
  show ?case
  proof (cases "fst (bvs_step fl lst c s res left)")
    case (Inl r)
    with ok show ?thesis by (auto simp: bvs_ok_def)
  next
    case (Inr b)
    obtain res' left' where b: "b = (res', left')" by (cases b)
    have "0 < left'" "int (length res') + left' = int len - 1" using ok Inr b by (auto simp: bvs_ok_def)
    with 2(1) [OF Inr b [symmetric]] Inr b show ?thesis by simp
  qed
qed simp

section \<open>Text without variables\<close>

lemma bvs_loop_plain:
  "CHR ''$'' \<notin> set s \<Longrightarrow> 0 < left \<Longrightarrow> bvs_loop fl lst s res left = Some (res @ take (nat left) s)"
proof (induction s arbitrary: res left)
  case (Cons c s)
  then show ?case
    by (auto simp: bvs_step_def bvs_literal_def take_Cons' nat_diff_distrib)
qed simp

lemma add_vars_no_empty:
  "\<forall>e \<in> set lst. nvp_value e \<noteq> Some [] \<Longrightarrow> \<forall>e \<in> set (add_vars vs lst). nvp_value e \<noteq> Some []"
  by (induction vs lst rule: add_vars.induct) (auto dest: add_nvplist_value)

section \<open>Properties\<close>

text \<open>
  C40: \<^verbatim>\<open>urlencode\<close> writes the whole encoding and a NUL when they fit and never more than
  fits, but when plain text is longer than the buffer holds it fills all bytes but one and
  returns without writing the NUL.
\<close>

theorem urlencode_correct:
  assumes "0 < wlen"
  shows "(int (length (url_text s)) < wlen \<longrightarrow> urlencode (Some s) wlen = (url_text s, True, True))
    \<and> int (length (fst (urlencode (Some s) wlen))) < wlen
    \<and> (list_all url_plain s \<and> wlen \<le> int (length s) \<longrightarrow> urlencode (Some s) wlen = (take (nat wlen - 1) s, False, True))"
proof (intro conjI impI)
  show "int (length (fst (urlencode (Some s) wlen))) < wlen"
    using urlencode_length [OF assms, of s] by (cases "urlencode_loop s wlen") (simp add: urlencode_def)
  assume a: "list_all url_plain s \<and> wlen \<le> int (length s)"
  then have "nat wlen - 1 < length s" using assms by linarith
  with a show "urlencode (Some s) wlen = (take (nat wlen - 1) s, False, True)"
    using urlencode_full [of s wlen "nat wlen - 1"] assms by (simp add: urlencode_def)
qed (simp add: urlencode_def urlencode_fits)

theorem urlencode_correct_witness: "urlencode (Some ''abcd'') 4 = (''abc'', False, True)"
  using urlencode_correct [of 4 "''abcd''"] by (simp add: url_plain_def isalpha_int)

text \<open>
  with a buffer of two bytes or more \<^verbatim>\<open>buildvarstring_nvp\<close> returns a terminated string
  that fits it, whatever the input, the variables and the flags; text without a dollar sign
  is copied as far as it fits.
\<close>

theorem buildvarstring_bounded:
  assumes "2 \<le> len"
  shows "(\<exists>t. buildvarstring_nvp s len lst fl = Some t \<and> length t < len)
    \<and> (CHR ''$'' \<notin> set s \<longrightarrow> buildvarstring_nvp s len lst fl = Some (take (len - 1) s))"
proof -
  have "0 < int len - 1" using assms by simp
  moreover have "nat (int len - 1) = len - 1" by simp
  ultimately show ?thesis
    unfolding buildvarstring_nvp_def using bvs_loop_ok [of "int len - 1" "[]" len] bvs_loop_plain by auto
qed

theorem buildvarstring_bounded_witness:
  "(\<exists>t. buildvarstring_nvp ''$a!'' 4 [\<lparr>nvp_priority = 0, nvp_name = ''a'', nvp_value = Some ''abcdef''\<rparr>] bvs_no_flags = Some t \<and> length t < 4)
   \<and> buildvarstring_nvp ''abcdef'' 4 [] bvs_no_flags = Some ''abc''"
  using buildvarstring_bounded [of 4 "''$a!''" "[\<lparr>nvp_priority = 0, nvp_name = ''a'', nvp_value = Some ''abcdef''\<rparr>]" bvs_no_flags]
    buildvarstring_bounded [of 4 "''abcdef''" "[]" bvs_no_flags] by simp

text \<open>
  with a one-byte buffer and an input that begins with a set variable,
  \<^verbatim>\<open>buildvarstring_nvp\<close> returns without terminating the buffer.
\<close>

theorem buildvarstring_unterminated:
  "buildvarstring_nvp ''$a'' 1 [\<lparr>nvp_priority = 0, nvp_name = ''a'', nvp_value = Some ''x''\<rparr>] bvs_no_flags = None"
  by code_simp

text \<open>
  \<^verbatim>\<open>add_nvplist\<close> stores an empty value as NULL, so the rule that an empty variable
  takes the space before it with it never applies to \<^verbatim>\<open>buildvarstring\<close>: the text
  \<^verbatim>\<open>Something. $var\<close> keeps its trailing space.
\<close>

theorem buildvarstring_keeps_space:
  "list_all (\<lambda>e. nvp_value e \<noteq> Some []) (add_vars vars [])
   \<and> buildvarstring ''Hi. $var'' 64 [(''var'', Some [])] = Some ''Hi. ''"
proof
  show "list_all (\<lambda>e. nvp_value e \<noteq> Some []) (add_vars vars [])"
    unfolding list_all_iff by (rule add_vars_no_empty) simp
  show "buildvarstring ''Hi. $var'' 64 [(''var'', Some [])] = Some ''Hi. ''" by code_simp
qed

end
