(* ===== verification/Hash.thy ===== *)
theory Hash
  imports Support
begin

unbundle bit_operations_syntax

text \<open>
  Hash tables of clients and channels (\<^verbatim>\<open>src/hash.c\<close>). The keyed hash is modelled on
  64-bit words; the model is that of a little-endian machine, where writing the result to
  \<^verbatim>\<open>hash\<close> byte by byte gives its value. Clients and channels are addresses, with their
  fields in a separate store; a bucket is the list of the addresses chained in it. The
  locale \<open>folded_hash\<close> is what the tables rely on: names that compare equal hash
  equally. It is interpreted for the three hash functions of the server.
\<close>

section \<open>The model\<close>

subsection \<open>SipHash\<close>

type_synonym u64 = "64 word"
type_synonym sip_state = "u64 \<times> u64 \<times> u64 \<times> u64"

definition ROTL :: "u64 \<Rightarrow> nat \<Rightarrow> u64" where
  "ROTL x b = push_bit b x OR drop_bit (64 - b) x"

definition U8TO64_LE :: "(char \<Rightarrow> char) \<Rightarrow> char list \<Rightarrow> u64" where
  "U8TO64_LE f p =
     of_char (f (p ! 0)) OR push_bit 8 (of_char (f (p ! 1)))
     OR push_bit 16 (of_char (f (p ! 2))) OR push_bit 24 (of_char (f (p ! 3)))
     OR push_bit 32 (of_char (f (p ! 4))) OR push_bit 40 (of_char (f (p ! 5)))
     OR push_bit 48 (of_char (f (p ! 6))) OR push_bit 56 (of_char (f (p ! 7)))"

definition SIPROUND :: "sip_state \<Rightarrow> sip_state" where
  "SIPROUND = (\<lambda>(v0, v1, v2, v3).
     let v0 = v0 + v1; v1 = ROTL v1 13; v1 = v1 XOR v0; v0 = ROTL v0 32;
         v2 = v2 + v3; v3 = ROTL v3 16; v3 = v3 XOR v2;
         v0 = v0 + v3; v3 = ROTL v3 21; v3 = v3 XOR v0;
         v2 = v2 + v1; v1 = ROTL v1 17; v1 = v1 XOR v2; v2 = ROTL v2 32
     in (v0, v1, v2, v3))"

definition sip_absorb :: "u64 \<Rightarrow> sip_state \<Rightarrow> sip_state" where
  "sip_absorb m = (\<lambda>(v0, v1, v2, v3).
     let (v0, v1, v2, v3) = SIPROUND (SIPROUND (v0, v1, v2, v3 XOR m)) in (v0 XOR m, v1, v2, v3))"

text \<open>The loop over whole blocks of eight bytes; the rest is what the \<^verbatim>\<open>switch\<close> sees.\<close>

function sip_blocks :: "(char \<Rightarrow> char) \<Rightarrow> char list \<Rightarrow> sip_state \<Rightarrow> char list \<times> sip_state" where
  "sip_blocks f inp v =
     (if length inp < 8 then (inp, v)
      else sip_blocks f (drop 8 inp) (sip_absorb (U8TO64_LE f (take 8 inp)) v))"
  by pat_completeness auto
termination
  by (relation "measure (\<lambda>(f, inp, v). length inp)") auto

declare sip_blocks.simps [simp del]

definition sip_left :: "(char \<Rightarrow> char) \<Rightarrow> char list \<Rightarrow> u64 \<Rightarrow> u64" where
  "sip_left f inp b =
     (let left = length inp;
          b = (if left \<ge> 7 then b OR push_bit 48 (of_char (f (inp ! 6))) else b);
          b = (if left \<ge> 6 then b OR push_bit 40 (of_char (f (inp ! 5))) else b);
          b = (if left \<ge> 5 then b OR push_bit 32 (of_char (f (inp ! 4))) else b);
          b = (if left \<ge> 4 then b OR push_bit 24 (of_char (f (inp ! 3))) else b);
          b = (if left \<ge> 3 then b OR push_bit 16 (of_char (f (inp ! 2))) else b);
          b = (if left \<ge> 2 then b OR push_bit 8 (of_char (f (inp ! 1))) else b)
      in if left \<ge> 1 then b OR of_char (f (inp ! 0)) else b)"

definition siphash_with :: "(char \<Rightarrow> char) \<Rightarrow> char list \<Rightarrow> char list \<Rightarrow> u64" where
  "siphash_with f inp k =
     (let k0 = U8TO64_LE id (take 8 k); k1 = U8TO64_LE id (drop 8 k);
          b = push_bit 56 (of_nat (length inp));
          v = (0x736f6d6570736575 XOR k0, 0x646f72616e646f6d XOR k1,
               0x6c7967656e657261 XOR k0, 0x7465646279746573 XOR k1);
          (rest, v) = sip_blocks f inp v;
          (v0, v1, v2, v3) = sip_absorb (sip_left f rest b) v;
          (v0, v1, v2, v3) = SIPROUND (SIPROUND (SIPROUND (SIPROUND (v0, v1, v2 XOR 0xff, v3))))
      in v0 XOR v1 XOR v2 XOR v3)"

definition siphash_raw :: "char list \<Rightarrow> char list \<Rightarrow> u64" where
  "siphash_raw inp k = siphash_with id inp k"

definition siphash_nocase :: "cstring \<Rightarrow> char list \<Rightarrow> u64" where
  "siphash_nocase inp k = siphash_with tolower inp k"

definition siphash :: "cstring \<Rightarrow> char list \<Rightarrow> u64" where
  "siphash inp k = siphash_raw inp k"

subsection \<open>The tables\<close>

definition NICK_HASH_TABLE_SIZE :: nat where
  "NICK_HASH_TABLE_SIZE = 32768"

definition CHAN_HASH_TABLE_SIZE :: nat where
  "CHAN_HASH_TABLE_SIZE = 32768"

definition WHOWAS_HASH_TABLE_SIZE :: nat where
  "WHOWAS_HASH_TABLE_SIZE = 32768"

type_synonym addr = nat
type_synonym buckets = "nat \<Rightarrow> addr list"

text \<open>
  What the functions read of a client: \<^verbatim>\<open>cl_user\<close> is \<^verbatim>\<open>client->user->server\<close>, or
  \<open>None\<close> for a NULL \<^verbatim>\<open>client->user\<close>.
\<close>

record client =
  cl_name :: cstring
  cl_id :: cstring
  IsServer :: bool
  IsMe :: bool
  IsUser :: bool
  cl_user :: "cstring option"

record hash_state =
  tainted :: bool
  siphashkey_nick :: "char list"
  siphashkey_chan :: "char list"
  siphashkey_whowas :: "char list"
  clientTable :: buckets
  idTable :: buckets
  channelTable :: buckets

text \<open>
  \<^verbatim>\<open>getrandom8\<close> is the server's random source, here the list of the bytes it yields.
\<close>

definition siphash_generate_key :: "char list \<Rightarrow> char list \<times> char list" where
  "siphash_generate_key rnd = (take 16 rnd, drop 16 rnd)"

definition init_hash :: "char list \<Rightarrow> cstring \<Rightarrow> cstring \<Rightarrow> hash_state" where
  "init_hash rnd base_version logo =
     (let (k1, r1) = siphash_generate_key rnd;
          (k2, r2) = siphash_generate_key r1;
          (k3, r3) = siphash_generate_key r2
      in \<lparr>tainted = (base_version \<noteq> logo), siphashkey_nick = k1, siphashkey_chan = k2, siphashkey_whowas = k3,
          clientTable = (\<lambda>_. []), idTable = (\<lambda>_. []), channelTable = (\<lambda>_. [])\<rparr>)"

definition hash_client_name :: "char list \<Rightarrow> cstring \<Rightarrow> nat" where
  "hash_client_name k name = unat (siphash_nocase name k) mod NICK_HASH_TABLE_SIZE"

definition hash_channel_name :: "char list \<Rightarrow> cstring \<Rightarrow> nat" where
  "hash_channel_name k name = unat (siphash_nocase name k) mod CHAN_HASH_TABLE_SIZE"

definition hash_whowas_name :: "char list \<Rightarrow> cstring \<Rightarrow> nat" where
  "hash_whowas_name k name = unat (siphash_nocase name k) mod WHOWAS_HASH_TABLE_SIZE"

definition list_add :: "nat \<Rightarrow> addr \<Rightarrow> buckets \<Rightarrow> buckets" where
  "list_add i a t = t(i := a # t i)"

text \<open>\<^verbatim>\<open>list_del\<close> unlinks a node from the one bucket that holds it.\<close>

definition list_del :: "addr \<Rightarrow> buckets \<Rightarrow> buckets" where
  "list_del a t = (\<lambda>i. remove1 a (t i))"

definition add_to_client_hash_table :: "cstring \<Rightarrow> addr \<Rightarrow> hash_state \<Rightarrow> hash_state" where
  "add_to_client_hash_table name c st =
     (if tainted st then st
      else st\<lparr>clientTable := list_add (hash_client_name (siphashkey_nick st) name) c (clientTable st)\<rparr>)"

definition add_to_id_hash_table :: "cstring \<Rightarrow> addr \<Rightarrow> hash_state \<Rightarrow> hash_state" where
  "add_to_id_hash_table name c st =
     st\<lparr>idTable := list_add (hash_client_name (siphashkey_nick st) name) c (idTable st)\<rparr>"

definition add_to_channel_hash_table :: "cstring \<Rightarrow> addr \<Rightarrow> hash_state \<Rightarrow> hash_state" where
  "add_to_channel_hash_table name ch st =
     st\<lparr>channelTable := list_add (hash_channel_name (siphashkey_chan st) name) ch (channelTable st)\<rparr>"

definition del_from_client_hash_table :: "cstring \<Rightarrow> addr \<Rightarrow> hash_state \<Rightarrow> hash_state" where
  "del_from_client_hash_table name c st = st\<lparr>clientTable := list_del c (clientTable st)\<rparr>"

definition del_from_id_hash_table :: "cstring \<Rightarrow> addr \<Rightarrow> hash_state \<Rightarrow> hash_state" where
  "del_from_id_hash_table name c st = st\<lparr>idTable := list_del c (idTable st)\<rparr>"

fun unchain :: "addr \<Rightarrow> addr list \<Rightarrow> addr list" where
  "unchain ch [] = []"
| "unchain ch (tmp # chain) = (if tmp = ch then chain else tmp # unchain ch chain)"

definition del_from_channel_hash_table :: "cstring \<Rightarrow> addr \<Rightarrow> hash_state \<Rightarrow> hash_state" where
  "del_from_channel_hash_table name ch st =
     (let hashv = hash_channel_name (siphashkey_chan st) name
      in st\<lparr>channelTable := (channelTable st)(hashv := unchain ch (channelTable st hashv))\<rparr>)"

type_synonym clients = "addr \<Rightarrow> client"

definition hash_find_client :: "clients \<Rightarrow> hash_state \<Rightarrow> cstring \<Rightarrow> addr option \<Rightarrow> addr option" where
  "hash_find_client cs st name def =
     (case find (\<lambda>tmp. smycmp name (cl_name (cs tmp)) = 0)
             (clientTable st (hash_client_name (siphashkey_nick st) name)) of
        Some tmp \<Rightarrow> Some tmp
      | None \<Rightarrow> def)"

definition hash_find_id :: "clients \<Rightarrow> hash_state \<Rightarrow> cstring \<Rightarrow> addr option \<Rightarrow> addr option" where
  "hash_find_id cs st name def =
     (case find (\<lambda>tmp. smycmp name (cl_id (cs tmp)) = 0)
             (idTable st (hash_client_name (siphashkey_nick st) name)) of
        Some tmp \<Rightarrow> Some tmp
      | None \<Rightarrow> def)"

definition find_client :: "clients \<Rightarrow> hash_state \<Rightarrow> cstring \<Rightarrow> addr option \<Rightarrow> addr option" where
  "find_client cs st name requester =
     (if (case requester of None \<Rightarrow> True | Some r \<Rightarrow> IsServer (cs r)) \<and> hash_find_id cs st name None \<noteq> None
      then hash_find_id cs st name None
      else hash_find_client cs st name None)"

definition find_server :: "clients \<Rightarrow> hash_state \<Rightarrow> cstring option \<Rightarrow> addr option \<Rightarrow> addr option" where
  "find_server cs st name requester =
     (case name of
        None \<Rightarrow> None
      | Some n \<Rightarrow>
          (case find_client cs st n None of
             None \<Rightarrow> None
           | Some c \<Rightarrow> if IsServer (cs c) \<or> IsMe (cs c) then Some c else None))"

definition find_user :: "clients \<Rightarrow> hash_state \<Rightarrow> cstring \<Rightarrow> addr option \<Rightarrow> addr option" where
  "find_user cs st name requester =
     (case find_client cs st name requester of
        None \<Rightarrow> None
      | Some c \<Rightarrow> if IsUser (cs c) \<and> cl_user (cs c) \<noteq> None then Some c else None)"

text \<open>The buffer holds \<^verbatim>\<open>NICKLEN + HOSTLEN + 1\<close> bytes, 94 with the limits of the server.\<close>

definition hash_find_nickatserver :: "clients \<Rightarrow> hash_state \<Rightarrow> cstring \<Rightarrow> addr option \<Rightarrow> addr option" where
  "hash_find_nickatserver cs st str def =
     (let buf = take 93 str;
          nick = takeWhile (\<lambda>c. c \<noteq> CHR ''@'') buf;
          serv = (case dropWhile (\<lambda>c. c \<noteq> CHR ''@'') buf of [] \<Rightarrow> None | _ # s \<Rightarrow> Some s)
      in (case find_user cs st nick None of
            None \<Rightarrow> None
          | Some c \<Rightarrow>
              (case serv of
                 None \<Rightarrow> Some c
               | Some s \<Rightarrow>
                   (case cl_user (cs c) of
                      None \<Rightarrow> def
                    | Some us \<Rightarrow> if smycmp s us = 0 then Some c else def))))"

definition hash_find_server :: "clients \<Rightarrow> hash_state \<Rightarrow> cstring \<Rightarrow> addr option \<Rightarrow> addr option" where
  "hash_find_server cs st server def =
     (case find (\<lambda>tmp. (IsServer (cs tmp) \<or> IsMe (cs tmp)) \<and> smycmp server (cl_name (cs tmp)) = 0)
             (clientTable st (hash_client_name (siphashkey_nick st) server)) of
        Some tmp \<Rightarrow> Some tmp
      | None \<Rightarrow> def)"

definition find_channel :: "(addr \<Rightarrow> cstring) \<Rightarrow> hash_state \<Rightarrow> cstring \<Rightarrow> addr option" where
  "find_channel chname st name =
     find (\<lambda>ch. smycmp name (chname ch) = 0) (channelTable st (hash_channel_name (siphashkey_chan st) name))"

definition hash_get_chan_bucket :: "hash_state \<Rightarrow> nat \<Rightarrow> addr list" where
  "hash_get_chan_bucket st hashv = (if hashv \<ge> CHAN_HASH_TABLE_SIZE then [] else channelTable st hashv)"

definition find_server_by_uid :: "clients \<Rightarrow> hash_state \<Rightarrow> cstring \<Rightarrow> addr option" where
  "find_server_by_uid cs st uid =
     (if \<not> isdigit (c_at uid 0) then None else hash_find_id cs st (take 3 uid) None)"

section \<open>Hashing ignores case\<close>

lemma nth_0_map: "0 < length p \<Longrightarrow> map f p ! 0 = f (p ! 0)"
  by (rule nth_map)

lemma U8TO64_LE_map: "8 \<le> length p \<Longrightarrow> U8TO64_LE f p = U8TO64_LE id (map f p)"
  by (simp add: U8TO64_LE_def nth_0_map [OF order_less_le_trans [of 0 8]])

lemma sip_blocks_map:
  "sip_blocks id (map f inp) v = (case sip_blocks f inp v of (rest, w) \<Rightarrow> (map f rest, w))"
proof (induction f inp v rule: sip_blocks.induct)
  case (1 f inp v)
  show ?case
  proof (cases "length inp < 8")
    case True
    then show ?thesis by (subst (1 2) sip_blocks.simps) simp
  next
    case False
    then have "U8TO64_LE id (take 8 (map f inp)) = U8TO64_LE f (take 8 inp)"
      using U8TO64_LE_map [of "take 8 inp" f] by (simp add: take_map)
    with False 1 show ?thesis
      by (subst (1 2) sip_blocks.simps) (simp add: drop_map [symmetric] id_def)
  qed
qed

lemma sip_left_map: "sip_left f inp b = sip_left id (map f inp) b"
  by (simp add: sip_left_def Let_def del: length_greater_0_conv)

lemma siphash_with_map: "siphash_with f inp k = siphash_with id (map f inp) k"
  by (simp add: siphash_with_def sip_blocks_map sip_left_map [of f] Let_def split: prod.split)

lemma siphash_nocase_raw: "siphash_nocase inp k = siphash_raw (map tolower inp) k"
  unfolding siphash_nocase_def siphash_raw_def by (rule siphash_with_map)

lemma siphash_nocase_cong: "map tolower a = map tolower b \<Longrightarrow> siphash_nocase a k = siphash_nocase b k"
  by (simp add: siphash_nocase_raw)

section \<open>The published test vector\<close>

text \<open>The rounds of the reference vector for SipHash-2-4, one rewrite rule each.\<close>

definition vec_key :: "char list" where
  "vec_key = [CHR 0x00, CHR 0x01, CHR 0x02, CHR 0x03, CHR 0x04, CHR 0x05, CHR 0x06, CHR 0x07, CHR 0x08, CHR 0x09, CHR 0x0a, CHR 0x0b, CHR 0x0c, CHR 0x0d, CHR 0x0e, CHR 0x0f]"

definition vec_msg :: "char list" where
  "vec_msg = [CHR 0x00, CHR 0x01, CHR 0x02, CHR 0x03, CHR 0x04, CHR 0x05, CHR 0x06, CHR 0x07, CHR 0x08, CHR 0x09, CHR 0x0a, CHR 0x0b, CHR 0x0c, CHR 0x0d, CHR 0x0e]"

lemma vec_rounds:
  "SIPROUND (0x7469686173716475, 0x6b617f6d656e6665, 0x6b7f62616d677361, 0x7c6d6c6a717c6d7b)
     = (0x64668a929363847f, 0x4ed232083d9aa8dc, 0xf2f74892d8141a2e, 0x9290f9810552f4a8)"
  "SIPROUND (0x64668a929363847f, 0x4ed232083d9aa8dc, 0xf2f74892d8141a2e, 0x9290f9810552f4a8)
     = (0x4d07749cdd0858e0, 0xd52f6f62a4f59a4, 0x634cb3577b01fd3d, 0xa5224d6f55c7d9c8)"
  "SIPROUND (0x4a017198de0a59e0, 0xd52f6f62a4f59a4, 0x634cb3577b01fd3d, 0xaa2c40635ecdd0c0)
     = (0x557560fb6063d060, 0x4c8e675bd961133e, 0xbd3d002b1703a181, 0xfb9441179a4a7315)"
  "SIPROUND (0x557560fb6063d060, 0x4c8e675bd961133e, 0xbd3d002b1703a181, 0xfb9441179a4a7315)
     = (0x338bbea7645fb759, 0x414fc3fb98efe374, 0xccf13ea527b9f4bd, 0x5293f5da84008f82)"
  "SIPROUND (0x3c85b3ab6f55be51, 0x414fc3fb98efe374, 0xccf13ea527b9f442, 0x5293f5da84008f82)
     = (0xf2a55244a20e48fe, 0xac5ad16ccc3ca6e4, 0x9fe5adb0a52f393a, 0xfd41d55e88f30308)"
  "SIPROUND (0xf2a55244a20e48fe, 0xac5ad16ccc3ca6e4, 0x9fe5adb0a52f393a, 0xfd41d55e88f30308)
     = (0xb6c3fbdecc2ae4b4, 0x1638c86adc6b3cf0, 0x28b8b6ab62553d46, 0xc9465e86ec43eb95)"
  "SIPROUND (0xb6c3fbdecc2ae4b4, 0x1638c86adc6b3cf0, 0x28b8b6ab62553d46, 0xc9465e86ec43eb95)
     = (0x58101b167209a5e6, 0xf8792ae75b66e7dd, 0x1da14c3ec7f0b4f7, 0x7624ba8a41bc4ad9)"
  "SIPROUND (0x58101b167209a5e6, 0xf8792ae75b66e7dd, 0x1da14c3ec7f0b4f7, 0x7624ba8a41bc4ad9)
     = (0xf6bcd53893fecff1, 0x54b9964c7ea0d937, 0x1b38329c099bb55a, 0x1814bb89ad7be679)"
  by (simp_all add: SIPROUND_def ROTL_def Let_def)

lemma vec_words:
  "U8TO64_LE id (take 8 vec_key) = 0x706050403020100" "U8TO64_LE id (drop 8 vec_key) = 0xf0e0d0c0b0a0908"
  "U8TO64_LE id (take 8 vec_msg) = 0x706050403020100" "length vec_msg = 15"
  "sip_left id (drop 8 vec_msg) 0xf00000000000000 = 0xf0e0d0c0b0a0908"
  by (simp_all add: U8TO64_LE_def vec_key_def vec_msg_def sip_left_def)

lemma vec_blocks: "sip_blocks id vec_msg v = (drop 8 vec_msg, sip_absorb (U8TO64_LE id (take 8 vec_msg)) v)"
  by (subst sip_blocks.simps, simp add: vec_words, subst sip_blocks.simps, simp add: vec_words)

lemma vec_hash: "siphash_raw vec_msg vec_key = 0xa129ca6149be45e5"
  unfolding siphash_raw_def siphash_with_def vec_blocks
  by (simp add: vec_words sip_absorb_def vec_rounds)

section \<open>Tables keyed by folded names\<close>

text \<open>
  What a table of names relies on: the hash does not see case and stays below the table
  size. \<open>table_ok\<close> is the invariant that every entry sits in the bucket of its name.
\<close>

lemma smycmp_fold: "cstr a \<Longrightarrow> cstr b \<Longrightarrow> smycmp a b = 0 \<longleftrightarrow> map tolower a = map tolower b"
  by (simp add: smycmp_0_iff map_toupper_eq_iff_map_tolower_eq)

definition table_ok :: "(cstring \<Rightarrow> nat) \<Rightarrow> (addr \<Rightarrow> cstring) \<Rightarrow> buckets \<Rightarrow> bool" where
  "table_ok h nm t \<longleftrightarrow> (\<forall>i. \<forall>a \<in> set (t i). h (nm a) = i) \<and> (\<forall>i. distinct (t i))"

definition entries :: "buckets \<Rightarrow> addr set" where
  "entries t = (\<Union>i. set (t i))"

locale folded_hash =
  fixes h :: "cstring \<Rightarrow> nat" and sz :: nat
  assumes h_fold: "map tolower a = map tolower b \<Longrightarrow> h a = h b"
    and h_bound: "h a < sz"
begin

lemma table_ok_empty: "table_ok h nm (\<lambda>_. [])"
  by (simp add: table_ok_def)

lemma entries_bounded: "table_ok h nm t \<Longrightarrow> sz \<le> i \<Longrightarrow> t i = []"
  using h_bound by (metis list.set_intros(1) neq_Nil_conv not_le table_ok_def)

lemma table_ok_add: "table_ok h nm t \<Longrightarrow> a \<notin> entries t \<Longrightarrow> table_ok h nm (list_add (h (nm a)) a t)"
  by (auto simp: table_ok_def entries_def list_add_def)

lemma table_ok_del: "table_ok h nm t \<Longrightarrow> table_ok h nm (list_del a t)"
  using set_remove1_subset by (fastforce simp: table_ok_def list_del_def)

lemma entries_add: "entries (list_add i a t) = insert a (entries t)"
proof
  show "insert a (entries t) \<subseteq> entries (list_add i a t)"
    by (auto simp: entries_def list_add_def split: if_splits)
qed (auto simp: entries_def list_add_def split: if_splits)

lemma entries_del: "table_ok h nm t \<Longrightarrow> entries (list_del a t) = entries t - {a}"
  by (auto simp: entries_def list_del_def table_ok_def)

text \<open>A lookup in one bucket is a lookup in the whole table, in any spelling.\<close>

lemma bucket_complete:
  assumes "table_ok h nm t" "a \<in> entries t" "cstr n" "cstr (nm a)" "smycmp n (nm a) = 0" "P a"
  shows "\<exists>b \<in> entries t. find (\<lambda>x. P x \<and> smycmp n (nm x) = 0) (t (h n)) = Some b \<and> P b \<and> smycmp n (nm b) = 0"
proof -
  have "h n = h (nm a)" using assms(3-5) by (intro h_fold) (simp add: smycmp_fold)
  then have "a \<in> set (t (h n))" using assms(1,2) by (auto simp: table_ok_def entries_def)
  then have "find (\<lambda>x. P x \<and> smycmp n (nm x) = 0) (t (h n)) \<noteq> None"
    using assms(5,6) by (auto simp: find_None_iff)
  then obtain b where b: "find (\<lambda>x. P x \<and> smycmp n (nm x) = 0) (t (h n)) = Some b" by blast
  then have "b \<in> set (t (h n))" "P b" "smycmp n (nm b) = 0" using find_SomeD [OF b] by auto
  with b show ?thesis unfolding entries_def by blast
qed

lemma bucket_sound:
  "find (\<lambda>x. P x \<and> smycmp n (nm x) = 0) (t (h n)) = Some b \<Longrightarrow> b \<in> entries t \<and> P b \<and> smycmp n (nm b) = 0"
  unfolding entries_def using find_SomeD [of "\<lambda>x. P x \<and> smycmp n (nm x) = 0"] by blast

lemma find_added: "smycmp n (nm a) = 0 \<Longrightarrow> P a \<Longrightarrow> cstr n \<Longrightarrow> cstr (nm a) \<Longrightarrow>
  find (\<lambda>x. P x \<and> smycmp n (nm x) = 0) (list_add (h (nm a)) a t (h n)) = Some a"
  using h_fold [of n "nm a"] by (simp add: list_add_def smycmp_fold)

end

interpretation cn: folded_hash "hash_client_name k" NICK_HASH_TABLE_SIZE
  by unfold_locales (simp_all add: hash_client_name_def siphash_nocase_raw NICK_HASH_TABLE_SIZE_def)

interpretation chn: folded_hash "hash_channel_name k" CHAN_HASH_TABLE_SIZE
  by unfold_locales (simp_all add: hash_channel_name_def siphash_nocase_raw CHAN_HASH_TABLE_SIZE_def)

interpretation wn: folded_hash "hash_whowas_name k" WHOWAS_HASH_TABLE_SIZE
  by unfold_locales (simp_all add: hash_whowas_name_def siphash_nocase_raw WHOWAS_HASH_TABLE_SIZE_def)

section \<open>The state invariant\<close>

definition hash_inv :: "clients \<Rightarrow> (addr \<Rightarrow> cstring) \<Rightarrow> hash_state \<Rightarrow> bool" where
  "hash_inv cs chname st \<longleftrightarrow>
     table_ok (hash_client_name (siphashkey_nick st)) (\<lambda>a. cl_name (cs a)) (clientTable st)
     \<and> table_ok (hash_client_name (siphashkey_nick st)) (\<lambda>a. cl_id (cs a)) (idTable st)
     \<and> table_ok (hash_channel_name (siphashkey_chan st)) chname (channelTable st)"

lemma unchain_remove1: "unchain a xs = remove1 a xs"
  by (induction xs) auto

lemma del_channel_list_del:
  assumes "table_ok (hash_channel_name (siphashkey_chan st)) chname (channelTable st)"
  shows "del_from_channel_hash_table (chname ch) ch st = st\<lparr>channelTable := list_del ch (channelTable st)\<rparr>"
proof -
  have "remove1 ch (channelTable st i) = channelTable st i" if "i \<noteq> hash_channel_name (siphashkey_chan st) (chname ch)" for i
    using assms that by (intro remove1_idem) (auto simp: table_ok_def)
  then have "(channelTable st)(hash_channel_name (siphashkey_chan st) (chname ch) :=
      remove1 ch (channelTable st (hash_channel_name (siphashkey_chan st) (chname ch)))) = list_del ch (channelTable st)"
    by (auto simp: list_del_def fun_eq_iff)
  then show ?thesis by (simp add: del_from_channel_hash_table_def Let_def unchain_remove1)
qed

lemma hash_inv_init: "hash_inv cs chname (init_hash rnd v logo)"
  by (simp add: hash_inv_def init_hash_def siphash_generate_key_def cn.table_ok_empty chn.table_ok_empty)

lemma hash_inv_add [inv_intros]:
  "hash_inv cs chname st \<Longrightarrow> c \<notin> entries (clientTable st) \<Longrightarrow> hash_inv cs chname (add_to_client_hash_table (cl_name (cs c)) c st)"
  "hash_inv cs chname st \<Longrightarrow> c \<notin> entries (idTable st) \<Longrightarrow> hash_inv cs chname (add_to_id_hash_table (cl_id (cs c)) c st)"
  "hash_inv cs chname st \<Longrightarrow> ch \<notin> entries (channelTable st) \<Longrightarrow> hash_inv cs chname (add_to_channel_hash_table (chname ch) ch st)"
  using cn.table_ok_add [of _ "\<lambda>a. cl_name (cs a)"] cn.table_ok_add [of _ "\<lambda>a. cl_id (cs a)"] chn.table_ok_add [of _ chname]
  by (auto simp: hash_inv_def add_to_client_hash_table_def add_to_id_hash_table_def add_to_channel_hash_table_def)

lemma hash_inv_del [inv_intros]:
  "hash_inv cs chname st \<Longrightarrow> hash_inv cs chname (del_from_client_hash_table n c st)"
  "hash_inv cs chname st \<Longrightarrow> hash_inv cs chname (del_from_id_hash_table n c st)"
  "hash_inv cs chname st \<Longrightarrow> hash_inv cs chname (del_from_channel_hash_table (chname ch) ch st)"
  by (auto simp: hash_inv_def del_from_client_hash_table_def del_from_id_hash_table_def del_channel_list_del
      cn.table_ok_del chn.table_ok_del)

text \<open>The operations as steps, and the states they lead to from start-up.\<close>

inductive hash_step :: "clients \<Rightarrow> (addr \<Rightarrow> cstring) \<Rightarrow> hash_state \<Rightarrow> hash_state \<Rightarrow> bool" for cs chname where
  add_client: "c \<notin> entries (clientTable st) \<Longrightarrow> hash_step cs chname st (add_to_client_hash_table (cl_name (cs c)) c st)"
| add_id: "c \<notin> entries (idTable st) \<Longrightarrow> hash_step cs chname st (add_to_id_hash_table (cl_id (cs c)) c st)"
| add_channel: "ch \<notin> entries (channelTable st) \<Longrightarrow> hash_step cs chname st (add_to_channel_hash_table (chname ch) ch st)"
| del_client: "hash_step cs chname st (del_from_client_hash_table (cl_name (cs c)) c st)"
| del_id: "hash_step cs chname st (del_from_id_hash_table (cl_id (cs c)) c st)"
| del_channel: "hash_step cs chname st (del_from_channel_hash_table (chname ch) ch st)"

lemma hash_step_inv: "hash_step cs chname st st' \<Longrightarrow> hash_inv cs chname st \<Longrightarrow> hash_inv cs chname st'"
  by (induction rule: hash_step.induct) (auto intro: inv_intros)

lemma hash_reach_inv: "(hash_step cs chname)\<^sup>*\<^sup>* st st' \<Longrightarrow> hash_inv cs chname st \<Longrightarrow> hash_inv cs chname st'"
  by (induction rule: rtranclp_induct) (auto intro: hash_step_inv)

lemma hash_find_client_add:
  assumes "\<not> tainted st" "cstr n" "cstr (cl_name (cs c))" "smycmp n (cl_name (cs c)) = 0"
  shows "hash_find_client cs (add_to_client_hash_table (cl_name (cs c)) c st) n def = Some c"
  using cn.find_added [of n "\<lambda>a. cl_name (cs a)" c "\<lambda>_. True" "siphashkey_nick st" "clientTable st"] assms
  by (simp add: hash_find_client_def add_to_client_hash_table_def)

lemma hash_find_client_complete:
  assumes "hash_inv cs chname st" "c \<in> entries (clientTable st)" "cstr n" "cstr (cl_name (cs c))" "smycmp n (cl_name (cs c)) = 0"
  shows "\<exists>d \<in> entries (clientTable st). hash_find_client cs st n def = Some d \<and> smycmp n (cl_name (cs d)) = 0"
  using cn.bucket_complete [of "siphashkey_nick st" "\<lambda>a. cl_name (cs a)" "clientTable st" c n "\<lambda>_. True"] assms
  by (auto simp: hash_inv_def hash_find_client_def)

lemma hash_find_client_del:
  assumes "hash_inv cs chname st"
  shows "hash_find_client cs (del_from_client_hash_table m c st) n None \<noteq> Some c"
proof
  assume "hash_find_client cs (del_from_client_hash_table m c st) n None = Some c"
  then have "c \<in> entries (list_del c (clientTable st))"
    using find_SomeD by (fastforce simp: hash_find_client_def del_from_client_hash_table_def entries_def split: option.splits)
  moreover have "entries (list_del c (clientTable st)) = entries (clientTable st) - {c}"
    using assms by (intro cn.entries_del [of "siphashkey_nick st" "\<lambda>a. cl_name (cs a)"]) (simp add: hash_inv_def)
  ultimately show False by blast
qed

lemma find_channel_complete:
  assumes "hash_inv cs chname st" "ch \<in> entries (channelTable st)" "cstr n" "cstr (chname ch)" "smycmp n (chname ch) = 0"
  shows "\<exists>d \<in> entries (channelTable st). find_channel chname st n = Some d \<and> smycmp n (chname d) = 0"
  using chn.bucket_complete [of "siphashkey_chan st" chname "channelTable st" ch n "\<lambda>_. True"] assms
  by (auto simp: hash_inv_def find_channel_def)

section \<open>Properties\<close>



text \<open>
  C36: a client that was just added is the one a lookup of its name returns, and once removed
  it is never returned again.
\<close>

theorem hash_add_del_client:
  assumes "hash_inv cs chname st" "\<not> tainted st" "cstr n" "cstr (cl_name (cs c))" "smycmp n (cl_name (cs c)) = 0"
  shows "hash_find_client cs (add_to_client_hash_table (cl_name (cs c)) c st) n def = Some c
    \<and> hash_find_client cs (del_from_client_hash_table m c st) n None \<noteq> Some c"
  using hash_find_client_add [of st n cs c def] hash_find_client_del [of cs chname st m c n] assms by simp

theorem hash_add_del_client_witness:
  "hash_find_client (\<lambda>_. \<lparr>cl_name = ''Nick'', cl_id = ''001A'', IsServer = False, IsMe = False, IsUser = True, cl_user = None\<rparr>)
     (add_to_client_hash_table ''Nick'' 7 (init_hash [] [] [])) ''NICK'' None = Some 7"
proof -
  have "smycmp ''NICK'' ''Nick'' = 0" by code_simp
  then show ?thesis
    using hash_add_del_client [OF hash_inv_init, of "[]" "[]" "[]" "''NICK''"
        "\<lambda>_. \<lparr>cl_name = ''Nick'', cl_id = ''001A'', IsServer = False, IsMe = False, IsUser = True, cl_user = None\<rparr>" 7 None "[]"]
    by (simp add: init_hash_def siphash_generate_key_def)
qed

text \<open>
  the keyed hash agrees with the published test vector of SipHash-2-4, the
  case-insensitive variant is the raw hash of the lower-cased name, and names that compare
  equal hash equally.
\<close>

theorem siphash_reference:
  "siphash_raw vec_msg vec_key = 0xa129ca6149be45e5
   \<and> siphash_nocase a k = siphash_raw (map tolower a) k
   \<and> (cstr a \<and> cstr b \<and> smycmp a b = 0 \<longrightarrow> siphash_nocase a k = siphash_nocase b k)"
  using vec_hash siphash_nocase_raw siphash_nocase_cong smycmp_fold by blast

theorem siphash_reference_witness: "siphash_nocase ''Nick'' vec_key = siphash_nocase ''nICK'' vec_key"
proof -
  have "cstr ''Nick'' \<and> cstr ''nICK'' \<and> smycmp ''Nick'' ''nICK'' = 0" by code_simp
  then show ?thesis using siphash_reference [of "''Nick''" vec_key "''nICK''"] by blast
qed



end
