(* ===== verification/Operclass.thy ===== *)
theory Operclass
  imports Support
begin

text \<open>
  Operator permissions (\<^verbatim>\<open>src/operclass.c\<close>, with the lookups \<^verbatim>\<open>find_oper\<close> and
  \<^verbatim>\<open>find_operclass\<close> of \<^verbatim>\<open>src/conf.c\<close>). A path such as \<^verbatim>\<open>channel:see:who\<close> is the
  list of its identifiers, the access lists of an operclass are a tree, and the registered
  validators are a second tree whose root has no identifier. A node pointer that the code
  goes on to walk as a list is the list of that node and its siblings, NULL the empty list.
  Callbacks are parameters of the model. The walk through parent classes may cycle; the
  counter of the code bounds it.
\<close>

section \<open>The model\<close>

subsection \<open>Data\<close>

datatype entry_type = OPERCLASSENTRY_ALLOW | OPERCLASSENTRY_DENY

datatype oper_permission = OPER_ALLOW | OPER_DENY

record acl_entry =
  entry_variables :: "(cstring \<times> cstring) list"
  entry_type :: entry_type

datatype acl = ACL (acl_name: cstring) (acl_entries: "acl_entry list") (acl_acls: "acl list")

record oper_class =
  oc_isa :: "cstring option"
  oc_name :: cstring
  oc_acls :: "acl list"

record conf_oper =
  oper_name :: cstring
  oper_operclass :: "cstring option"

type_synonym 'p callback = "(cstring \<times> cstring) list \<Rightarrow> 'p \<Rightarrow> nat"

datatype 'p path_node =
  PNode (pn_identifier: "cstring option") (pn_callbacks: "(nat \<times> 'p callback) list") (pn_children: "'p path_node list")

subsection \<open>Paths\<close>

text \<open>
  \<^verbatim>\<open>OperClass_parsePath\<close> first pushes every token in front of the list and then turns the
  list around by swapping the links of each node, from the head to the last one.
\<close>

fun turn_path :: "cstring list \<Rightarrow> cstring list \<Rightarrow> fault + cstring list" where
  "turn_path done [] = Inl Null_Deref"
| "turn_path done [x] = Inr (x # done)"
| "turn_path done (x # y # ps) = turn_path (x # done) (y # ps)"

definition OperClass_parsePath :: "cstring \<Rightarrow> fault + cstring list" where
  "OperClass_parsePath path = turn_path [] (fold (\<lambda>str head. str # head) (strtoken_all '':'' (Some path)) [])"

subsection \<open>Validators\<close>

fun OperClass_findPathNodeForIdentifier :: "cstring \<Rightarrow> 'p path_node list \<Rightarrow> fault + 'p path_node option" where
  "OperClass_findPathNodeForIdentifier ident [] = Inr None"
| "OperClass_findPathNodeForIdentifier ident (n # head) =
     (case pn_identifier n of
        None \<Rightarrow> Inl Null_Deref
      | Some i \<Rightarrow> if i = ident then Inr (Some n) else OperClass_findPathNodeForIdentifier ident head)"

text \<open>
  The descent of \<^verbatim>\<open>OperClassAddValidator\<close>: the child with the identifier is replaced by its
  updated version, or a new node is put in front of the children.
\<close>

fun replace_child :: "cstring \<Rightarrow> 'p path_node \<Rightarrow> 'p path_node list \<Rightarrow> 'p path_node list" where
  "replace_child ident n [] = []"
| "replace_child ident n (c # cs) = (if pn_identifier c = Some ident then n # cs else c # replace_child ident n cs)"

fun add_callback :: "cstring list \<Rightarrow> nat \<times> 'p callback \<Rightarrow> 'p path_node \<Rightarrow> fault + 'p path_node" where
  "add_callback [] cb (PNode i cbs cs) = Inr (PNode i (cb # cbs) cs)"
| "add_callback (p # ps) cb (PNode i cbs cs) =
     (case OperClass_findPathNodeForIdentifier p cs of
        Inl f \<Rightarrow> Inl f
      | Inr None \<Rightarrow>
          (case add_callback ps cb (PNode (Some p) [] []) of
             Inl f \<Rightarrow> Inl f
           | Inr n \<Rightarrow> Inr (PNode i cbs (n # cs)))
      | Inr (Some nd) \<Rightarrow>
          (case add_callback ps cb nd of
             Inl f \<Rightarrow> Inl f
           | Inr n \<Rightarrow> Inr (PNode i cbs (replace_child p n cs))))"

text \<open>
  A validator is the address of its callback node; \<^verbatim>\<open>objects\<close> are the validators recorded
  with each module.
\<close>

record 'p oc_state =
  rootEvalNode :: "'p path_node option"
  module_objects :: "nat \<Rightarrow> nat list"

definition OperClassAddValidator ::
  "nat option \<Rightarrow> cstring \<Rightarrow> nat \<Rightarrow> 'p callback \<Rightarrow> 'p oc_state \<Rightarrow> fault + 'p oc_state" where
  "OperClassAddValidator module pathStr node callback st =
     (case OperClass_parsePath pathStr of
        Inl f \<Rightarrow> Inl f
      | Inr path \<Rightarrow>
          (case add_callback path (node, callback)
                  (case rootEvalNode st of None \<Rightarrow> PNode None [] [] | Some r \<Rightarrow> r) of
             Inl f \<Rightarrow> Inl f
           | Inr root \<Rightarrow>
               Inr (st\<lparr>rootEvalNode := Some root,
                       module_objects := (case module of
                           None \<Rightarrow> module_objects st
                         | Some m \<Rightarrow> (module_objects st)(m := node # module_objects st m))\<rparr>)))"

fun del_callback :: "nat \<Rightarrow> 'p path_node \<Rightarrow> 'p path_node" where
  "del_callback v (PNode i cbs cs) = PNode i (filter (\<lambda>cb. fst cb \<noteq> v) cbs) (map (del_callback v) cs)"

definition OperClassValidatorDel :: "nat option \<Rightarrow> nat \<Rightarrow> 'p oc_state \<Rightarrow> 'p oc_state" where
  "OperClassValidatorDel owner v st =
     st\<lparr>rootEvalNode := map_option (del_callback v) (rootEvalNode st),
        module_objects := (case owner of
            None \<Rightarrow> module_objects st
          | Some m \<Rightarrow> (module_objects st)(m := remove1 v (module_objects st m)))\<rparr>"

subsection \<open>Evaluation\<close>

fun OperClass_FindACL :: "acl list \<Rightarrow> cstring \<Rightarrow> acl option" where
  "OperClass_FindACL [] name = None"
| "OperClass_FindACL (a # as) name = (if acl_name a = name then Some a else OperClass_FindACL as name)"

text \<open>
  The loop of \<^verbatim>\<open>OperClass_evaluateACLEntry\<close>: \<open>Inr None\<close> is its return of 0, otherwise
  the list headed by the node and the path it stops with.
\<close>

fun eval_walk :: "'p path_node list \<Rightarrow> cstring list \<Rightarrow> fault + ('p path_node list \<times> cstring list) option" where
  "eval_walk nodes (p # q # ps) =
     (if nodes = [] then Inr (Some ([], p # q # ps))
      else (case OperClass_findPathNodeForIdentifier p nodes of
              Inl f \<Rightarrow> Inl f
            | Inr None \<Rightarrow> Inr None
            | Inr (Some n) \<Rightarrow> eval_walk (pn_children n) (q # ps)))"
| "eval_walk nodes path = Inr (Some (nodes, path))"

definition OperClass_evaluateACLEntry ::
  "'p path_node option \<Rightarrow> acl_entry \<Rightarrow> cstring list \<Rightarrow> 'p \<Rightarrow> fault + nat" where
  "OperClass_evaluateACLEntry root entry path params =
     (if entry_variables entry = [] then Inr 1
      else if path = [] then Inl Null_Deref
      else (case eval_walk (case root of None \<Rightarrow> [] | Some r \<Rightarrow> [r]) path of
              Inl f \<Rightarrow> Inl f
            | Inr None \<Rightarrow> Inr 0
            | Inr (Some (nodes, path')) \<Rightarrow>
                if length path' > 1 then Inr 0
                else (case nodes of
                        [] \<Rightarrow> Inl Null_Deref
                      | n # _ \<Rightarrow> Inr (fold (\<lambda>cb ev. snd cb (entry_variables entry) params) (pn_callbacks n) 0))))"

fun acl_walk :: "acl \<Rightarrow> cstring list \<Rightarrow> acl \<times> bool" where
  "acl_walk acl [] = (acl, False)"
| "acl_walk acl (p # ps) =
     (if acl_acls acl = [] then (acl, False)
      else (case OperClass_FindACL (acl_acls acl) p of
              None \<Rightarrow> (acl, True)
            | Some tmp \<Rightarrow> acl_walk tmp ps))"

fun process_entries :: "(acl_entry \<Rightarrow> fault + nat) \<Rightarrow> acl_entry list \<Rightarrow> nat \<times> nat \<Rightarrow> fault + (nat \<times> nat)" where
  "process_entries ev [] ad = Inr ad"
| "process_entries ev (e # es) (allow, deny) =
     (if entry_type e = OPERCLASSENTRY_ALLOW \<and> allow \<noteq> 0 then process_entries ev es (allow, deny)
      else if entry_type e = OPERCLASSENTRY_DENY \<and> deny \<noteq> 0 then process_entries ev es (allow, deny)
      else (case ev e of
              Inl f \<Rightarrow> Inl f
            | Inr result \<Rightarrow>
                process_entries ev es
                  (if entry_type e = OPERCLASSENTRY_ALLOW then (result, deny) else (allow, result))))"

definition ValidatePermissionsForPathEx ::
  "'p path_node option \<Rightarrow> acl \<Rightarrow> cstring list \<Rightarrow> 'p \<Rightarrow> fault + oper_permission" where
  "ValidatePermissionsForPathEx root acl path params =
     (let (node, aclNotFound) = acl_walk acl (tl path)
      in if path = [] then Inl Null_Deref
         else if acl_acls node \<noteq> [] \<and> aclNotFound then Inr OPER_DENY
         else if acl_entries node = [] then Inr OPER_ALLOW
         else (case process_entries (\<lambda>e. OperClass_evaluateACLEntry root e path params) (acl_entries node) (0, 0) of
                 Inl f \<Rightarrow> Inl f
               | Inr (allow, deny) \<Rightarrow> Inr (if allow \<noteq> 0 \<and> deny = 0 then OPER_ALLOW else OPER_DENY)))"

definition find_oper :: "conf_oper list \<Rightarrow> cstring option \<Rightarrow> conf_oper option" where
  "find_oper opers name = (case name of None \<Rightarrow> None | Some n \<Rightarrow> find (\<lambda>e. n = oper_name e) opers)"

definition find_operclass :: "oper_class list \<Rightarrow> cstring option \<Rightarrow> oper_class option" where
  "find_operclass classes name = (case name of None \<Rightarrow> None | Some n \<Rightarrow> find (\<lambda>e. n = oc_name e) classes)"

text \<open>
  The loop of \<^verbatim>\<open>ValidatePermissionsForPath\<close> over a class and its parents; the argument
  \<open>left\<close> is 11 minus \<^verbatim>\<open>looping\<close>.
\<close>

fun class_loop :: "(acl \<Rightarrow> fault + oper_permission) \<Rightarrow> oper_class list \<Rightarrow> cstring \<Rightarrow> nat \<Rightarrow> oper_class \<Rightarrow> fault + oper_permission" where
  "class_loop check classes p 0 oc = Inr OPER_DENY"
| "class_loop check classes p (Suc left) oc =
     (case OperClass_FindACL (oc_acls oc) p of
        Some acl \<Rightarrow> check acl
      | None \<Rightarrow>
          (case oc_isa oc of
             None \<Rightarrow> Inr OPER_DENY
           | Some isa \<Rightarrow>
               (case find_operclass classes (Some isa) of
                  None \<Rightarrow> Inr OPER_DENY
                | Some parent \<Rightarrow> class_loop check classes p left parent)))"

record perm_client =
  pc_server :: bool
  pc_me :: bool
  pc_uline :: bool
  pc_oper :: bool
  pc_my_user :: bool
  pc_operlogin :: "cstring option"
  pc_moddata_operclass :: "cstring option"

definition ValidatePermissionsForPath ::
  "'p path_node option \<Rightarrow> conf_oper list \<Rightarrow> oper_class list \<Rightarrow> cstring \<Rightarrow> perm_client option \<Rightarrow> 'p \<Rightarrow> fault + oper_permission" where
  "ValidatePermissionsForPath root opers classes path cl params =
     (case cl of
        None \<Rightarrow> Inr OPER_DENY
      | Some c \<Rightarrow>
          if pc_server c \<or> pc_me c \<or> pc_uline c \<or> (pc_oper c \<and> \<not> pc_my_user c) then Inr OPER_ALLOW
          else if \<not> pc_oper c then Inr OPER_DENY
          else (case (case find_oper opers (pc_operlogin c) of
                        None \<Rightarrow> pc_moddata_operclass c
                      | Some o' \<Rightarrow> oper_operclass o') of
                  None \<Rightarrow> Inr OPER_DENY
                | Some cls \<Rightarrow>
                    (case find_operclass classes (Some cls) of
                       None \<Rightarrow> Inr OPER_DENY
                     | Some oc \<Rightarrow>
                         (case OperClass_parsePath path of
                            Inl f \<Rightarrow> Inl f
                          | Inr operPath \<Rightarrow>
                              class_loop (\<lambda>acl. ValidatePermissionsForPathEx root acl operPath params)
                                classes (hd operPath) 11 oc))))"

section \<open>Paths are the tokens in order\<close>

lemma turn_path_rev: "ps \<noteq> [] \<Longrightarrow> turn_path done ps = Inr (rev ps @ done)"
  by (induction "done" ps rule: turn_path.induct) auto

lemma fold_Cons_rev: "fold (\<lambda>str head. str # head) xs acc = rev xs @ acc"
  by (induction xs arbitrary: acc) auto

lemma parsePath_tokens:
  "OperClass_parsePath path = (let ts = filter (\<lambda>w. w \<noteq> []) (Support.fields '':'' path) in if ts = [] then Inl Null_Deref else Inr ts)"
  by (simp add: OperClass_parsePath_def fold_Cons_rev strtoken_all_fields Let_def turn_path_rev)

section \<open>Entries\<close>

lemma process_entries_result:
  assumes "\<forall>e \<in> set es. \<exists>n. ev e = Inr n"
  shows "\<exists>a d. process_entries ev es (allow, deny) = Inr (a, d)
    \<and> (a \<noteq> 0 \<longleftrightarrow> allow \<noteq> 0 \<or> (\<exists>e \<in> set es. entry_type e = OPERCLASSENTRY_ALLOW \<and> (\<exists>n. ev e = Inr n \<and> n \<noteq> 0)))
    \<and> (d \<noteq> 0 \<longleftrightarrow> deny \<noteq> 0 \<or> (\<exists>e \<in> set es. entry_type e = OPERCLASSENTRY_DENY \<and> (\<exists>n. ev e = Inr n \<and> n \<noteq> 0)))"
  using assms
proof (induction es arbitrary: allow deny)
  case (Cons e es)
  obtain n where n: "ev e = Inr n" using Cons.prems by auto
  have rest: "\<forall>e \<in> set es. \<exists>n. ev e = Inr n" using Cons.prems by auto
  note IH = Cons.IH [OF rest]
  show ?case
  proof (cases "entry_type e")
    case OPERCLASSENTRY_ALLOW
    then show ?thesis using n IH [of allow deny] IH [of n deny] by auto
  next
    case OPERCLASSENTRY_DENY
    then show ?thesis using n IH [of allow deny] IH [of allow n] by auto
  qed
qed simp

section \<open>The node a path leads to\<close>

inductive acl_path :: "acl \<Rightarrow> cstring list \<Rightarrow> acl \<Rightarrow> bool" where
  acl_here: "acl_path a [] a"
| acl_down: "OperClass_FindACL (acl_acls a) p = Some b \<Longrightarrow> acl_path b ps c \<Longrightarrow> acl_path a (p # ps) c"

inductive_cases acl_path_NilE: "acl_path a [] c"

inductive_cases acl_path_ConsE: "acl_path a (p # ps) c"

lemma FindACL_NilD: "OperClass_FindACL as p = Some b \<Longrightarrow> as \<noteq> []"
  by auto

lemma acl_walk_path: "acl_path a ps c \<Longrightarrow> acl_walk a (ps @ rs) = acl_walk c rs"
  by (induction rule: acl_path.induct) (auto dest: FindACL_NilD)

lemma acl_walk_leaf: "acl_acls c = [] \<Longrightarrow> acl_walk c rs = (c, False)"
  by (cases rs) auto

section \<open>Parent classes\<close>

fun ancestor :: "oper_class list \<Rightarrow> nat \<Rightarrow> oper_class \<Rightarrow> oper_class option" where
  "ancestor classes 0 oc = Some oc"
| "ancestor classes (Suc k) oc =
     (case find_operclass classes (oc_isa oc) of
        None \<Rightarrow> None
      | Some parent \<Rightarrow> ancestor classes k parent)"

definition has_acl :: "cstring \<Rightarrow> oper_class \<Rightarrow> bool" where
  "has_acl p oc \<longleftrightarrow> OperClass_FindACL (oc_acls oc) p \<noteq> None"

lemma class_loop_found:
  assumes "ancestor classes k oc = Some oc'" and "OperClass_FindACL (oc_acls oc') p = Some acl"
    and "\<forall>j x. j < k \<longrightarrow> ancestor classes j oc = Some x \<longrightarrow> \<not> has_acl p x"
  shows "class_loop check classes p left oc = (if k < left then check acl else Inr OPER_DENY)"
  using assms
proof (induction k arbitrary: left oc)
  case 0
  then show ?case by (cases left) auto
next
  case (Suc k)
  from Suc.prems(1) obtain parent where par: "find_operclass classes (oc_isa oc) = Some parent"
    and anc: "ancestor classes k parent = Some oc'" by (auto split: option.splits)
  have none: "OperClass_FindACL (oc_acls oc) p = None"
    using Suc.prems(3) [rule_format, of 0 oc] by (simp add: has_acl_def)
  have rest: "\<forall>j x. j < k \<longrightarrow> ancestor classes j parent = Some x \<longrightarrow> \<not> has_acl p x"
  proof (intro allI impI)
    fix j x assume "j < k" and "ancestor classes j parent = Some x"
    then show "\<not> has_acl p x" using Suc.prems(3) [rule_format, of "Suc j" x] par by simp
  qed
  obtain isa where isa: "oc_isa oc = Some isa" using par by (cases "oc_isa oc") (auto simp: find_operclass_def)
  show ?case
    using Suc.IH [OF anc Suc.prems(2) rest] none par isa by (cases left) auto
qed

lemma class_loop_none:
  assumes "\<forall>j x. ancestor classes j oc = Some x \<longrightarrow> \<not> has_acl p x"
  shows "class_loop check classes p left oc = Inr OPER_DENY"
  using assms
proof (induction left arbitrary: oc)
  case (Suc left)
  have none: "OperClass_FindACL (oc_acls oc) p = None"
    using Suc.prems [rule_format, of 0 oc] by (simp add: has_acl_def)
  have up: "class_loop check classes p left parent = Inr OPER_DENY"
    if "find_operclass classes (oc_isa oc) = Some parent" for parent
  proof (rule Suc.IH, intro allI impI)
    fix j x assume "ancestor classes j parent = Some x"
    then show "\<not> has_acl p x" using Suc.prems [rule_format, of "Suc j" x] that by simp
  qed
  show ?case using none up by (auto split: option.splits)
qed simp

definition local_oper :: "perm_client \<Rightarrow> bool" where
  "local_oper c \<longleftrightarrow> pc_oper c \<and> pc_my_user c \<and> \<not> pc_server c \<and> \<not> pc_me c \<and> \<not> pc_uline c"

section \<open>The validator tree\<close>

lemma add_callback_root: "add_callback ps cb n = Inr n' \<Longrightarrow> pn_identifier n' = pn_identifier n"
  by (cases n; cases ps) (auto split: sum.splits option.splits)

lemma del_callback_root: "pn_identifier (del_callback v n) = pn_identifier n"
  by (cases n) simp

text \<open>The states that registrations and removals of validators can lead to.\<close>

inductive oc_reach :: "'p oc_state \<Rightarrow> bool" where
  oc_init: "oc_reach \<lparr>rootEvalNode = None, module_objects = (\<lambda>_. [])\<rparr>"
| oc_add: "oc_reach st \<Longrightarrow> OperClassAddValidator m path n cb st = Inr st' \<Longrightarrow> oc_reach st'"
| oc_del: "oc_reach st \<Longrightarrow> oc_reach (OperClassValidatorDel m v st)"

lemma oc_reach_root:
  assumes "oc_reach st"
  shows "rootEvalNode st = Some r \<Longrightarrow> pn_identifier r = None"
  using assms
proof (induction arbitrary: r)
  case (oc_add st m path n cb st')
  then show ?case
    by (auto simp: OperClassAddValidator_def split: sum.splits option.splits dest!: add_callback_root)
next
  case (oc_del st m v)
  then show ?case by (auto simp: OperClassValidatorDel_def del_callback_root)
qed simp

lemma add_validator_root: "OperClassAddValidator m path n cb st = Inr st' \<Longrightarrow> rootEvalNode st' \<noteq> None"
  by (auto simp: OperClassAddValidator_def split: sum.splits option.splits)

section \<open>Properties\<close>

text \<open>
  C12: the meaning of an access list. Let the identifiers after the first one lead to a node,
  and let every entry of that node be evaluated without a fault. When the path ends there, or
  the node has no deeper lists, permission is given exactly if the node has no entries, or
  some allow entry matches and no deny entry does. When the path goes on to a list that the
  node does not have, although it has others, permission is denied.
\<close>

theorem permission_semantics:
  assumes "acl_path acl qs node"
    and "\<forall>e \<in> set (acl_entries node). \<exists>n. OperClass_evaluateACLEntry root e (p # qs @ rs) params = Inr n"
  shows "(rs = [] \<or> acl_acls node = [] \<longrightarrow>
      ValidatePermissionsForPathEx root acl (p # qs @ rs) params = Inr (
        if acl_entries node = []
           \<or> (\<exists>e \<in> set (acl_entries node). entry_type e = OPERCLASSENTRY_ALLOW
                \<and> OperClass_evaluateACLEntry root e (p # qs @ rs) params \<noteq> Inr 0)
             \<and> (\<forall>e \<in> set (acl_entries node). entry_type e = OPERCLASSENTRY_DENY
                \<longrightarrow> OperClass_evaluateACLEntry root e (p # qs @ rs) params = Inr 0)
        then OPER_ALLOW else OPER_DENY))
    \<and> (acl_acls node \<noteq> [] \<and> rs \<noteq> [] \<and> OperClass_FindACL (acl_acls node) (hd rs) = None
       \<longrightarrow> ValidatePermissionsForPathEx root acl (p # qs @ rs) params = Inr OPER_DENY)"
proof (intro conjI impI)
  let ?ev = "\<lambda>e. OperClass_evaluateACLEntry root e (p # qs @ rs) params"
  assume "rs = [] \<or> acl_acls node = []"
  then have walk: "acl_walk acl (qs @ rs) = (node, False)"
    using acl_walk_path [OF assms(1), of rs] by (auto simp: acl_walk_leaf)
  have nz: "(\<exists>n. ?ev e = Inr n \<and> n \<noteq> 0) \<longleftrightarrow> ?ev e \<noteq> Inr 0" if "e \<in> set (acl_entries node)" for e
    using assms(2) that by fastforce
  obtain a d where pe: "process_entries ?ev (acl_entries node) (0, 0) = Inr (a, d)"
    and a: "a \<noteq> 0 \<longleftrightarrow> (\<exists>e \<in> set (acl_entries node). entry_type e = OPERCLASSENTRY_ALLOW \<and> ?ev e \<noteq> Inr 0)"
    and d: "d \<noteq> 0 \<longleftrightarrow> (\<exists>e \<in> set (acl_entries node). entry_type e = OPERCLASSENTRY_DENY \<and> ?ev e \<noteq> Inr 0)"
    using process_entries_result [OF assms(2), of 0 0] nz by auto
  have both: "(a \<noteq> 0 \<and> d = 0) \<longleftrightarrow>
      (\<exists>e \<in> set (acl_entries node). entry_type e = OPERCLASSENTRY_ALLOW \<and> ?ev e \<noteq> Inr 0)
      \<and> (\<forall>e \<in> set (acl_entries node). entry_type e = OPERCLASSENTRY_DENY \<longrightarrow> ?ev e = Inr 0)"
    using a d by blast
  show "ValidatePermissionsForPathEx root acl (p # qs @ rs) params = Inr (
        if acl_entries node = []
           \<or> (\<exists>e \<in> set (acl_entries node). entry_type e = OPERCLASSENTRY_ALLOW \<and> ?ev e \<noteq> Inr 0)
             \<and> (\<forall>e \<in> set (acl_entries node). entry_type e = OPERCLASSENTRY_DENY \<longrightarrow> ?ev e = Inr 0)
        then OPER_ALLOW else OPER_DENY)"
    unfolding both [symmetric] using walk pe by (simp add: ValidatePermissionsForPathEx_def)
next
  assume "acl_acls node \<noteq> [] \<and> rs \<noteq> [] \<and> OperClass_FindACL (acl_acls node) (hd rs) = None"
  then show "ValidatePermissionsForPathEx root acl (p # qs @ rs) params = Inr OPER_DENY"
    using acl_walk_path [OF assms(1), of rs]
    by (cases rs) (auto simp: ValidatePermissionsForPathEx_def)
qed

theorem permission_semantics_witness:
  "ValidatePermissionsForPathEx (None :: unit path_node option)
     (ACL ''kill'' [] [ACL ''global'' [\<lparr>entry_variables = [], entry_type = OPERCLASSENTRY_ALLOW\<rparr>] []])
     ([''kill''] @ [''global''] @ []) () = Inr OPER_ALLOW"
proof -
  let ?e = "\<lparr>entry_variables = [], entry_type = OPERCLASSENTRY_ALLOW\<rparr>"
  let ?n = "ACL ''global'' [?e] []"
  let ?a = "ACL ''kill'' [] [?n]"
  have path: "acl_path ?a [''global''] ?n" by (rule acl_down [OF _ acl_here]) simp
  have ev: "\<forall>e \<in> set (acl_entries ?n). \<exists>n. OperClass_evaluateACLEntry (None :: unit path_node option) e (''kill'' # [''global''] @ []) () = Inr n"
    by (simp add: OperClass_evaluateACLEntry_def)
  show ?thesis
    using permission_semantics [OF path ev] by (simp add: OperClass_evaluateACLEntry_def)
qed

text \<open>
  C26: inheritance. For a local operator whose class exists, the access list that decides is
  that of the nearest ancestor with one for the first identifier, if it is among the first
  eleven classes of the chain; permission is denied when the list lies deeper or when there is
  none, so the search ends also when the parents form a cycle.
\<close>

theorem inherited_permission:
  assumes "local_oper c" and "find_oper opers (pc_operlogin c) = Some o'"
    and "find_operclass classes (oper_operclass o') = Some oc"
    and "OperClass_parsePath path = Inr (p # ps)"
  shows "(ancestor classes k oc = Some oc' \<and> OperClass_FindACL (oc_acls oc') p = Some acl
       \<and> (\<forall>j x. j < k \<longrightarrow> ancestor classes j oc = Some x \<longrightarrow> \<not> has_acl p x)
       \<longrightarrow> ValidatePermissionsForPath root opers classes path (Some c) params
           = (if k < 11 then ValidatePermissionsForPathEx root acl (p # ps) params else Inr OPER_DENY))
    \<and> ((\<forall>j x. ancestor classes j oc = Some x \<longrightarrow> \<not> has_acl p x)
       \<longrightarrow> ValidatePermissionsForPath root opers classes path (Some c) params = Inr OPER_DENY)"
proof -
  obtain cls where cls: "oper_operclass o' = Some cls"
    using assms(3) by (cases "oper_operclass o'") (auto simp: find_operclass_def)
  have "ValidatePermissionsForPath root opers classes path (Some c) params
      = class_loop (\<lambda>acl. ValidatePermissionsForPathEx root acl (p # ps) params) classes p 11 oc"
    using assms cls by (auto simp: ValidatePermissionsForPath_def local_oper_def)
  then show ?thesis using class_loop_found class_loop_none by auto
qed

theorem inherited_permission_witness:
  "ValidatePermissionsForPath (None :: unit path_node option) [\<lparr>oper_name = ''joe'', oper_operclass = Some ''a''\<rparr>]
     [\<lparr>oc_isa = Some ''b'', oc_name = ''a'', oc_acls = []\<rparr>, \<lparr>oc_isa = Some ''a'', oc_name = ''b'', oc_acls = [ACL ''kill'' [] []]\<rparr>]
     ''kill:global''
     (Some \<lparr>pc_server = False, pc_me = False, pc_uline = False, pc_oper = True, pc_my_user = True,
       pc_operlogin = Some ''joe'', pc_moddata_operclass = None\<rparr>) () = Inr OPER_ALLOW"
proof -
  let ?c = "\<lparr>pc_server = False, pc_me = False, pc_uline = False, pc_oper = True, pc_my_user = True,
       pc_operlogin = Some ''joe'', pc_moddata_operclass = None\<rparr>"
  let ?os = "[\<lparr>oper_name = ''joe'', oper_operclass = Some ''a''\<rparr>]"
  let ?a = "\<lparr>oc_isa = Some ''b'', oc_name = ''a'', oc_acls = []\<rparr>"
  let ?b = "\<lparr>oc_isa = Some ''a'', oc_name = ''b'', oc_acls = [ACL ''kill'' [] []]\<rparr>"
  have 1: "local_oper ?c" by (simp add: local_oper_def)
  have 2: "find_oper ?os (pc_operlogin ?c) = Some \<lparr>oper_name = ''joe'', oper_operclass = Some ''a''\<rparr>"
    by (simp add: find_oper_def)
  have 3: "find_operclass [?a, ?b] (oper_operclass \<lparr>oper_name = ''joe'', oper_operclass = Some ''a''\<rparr>) = Some ?a"
    by (simp add: find_operclass_def)
  have 4: "OperClass_parsePath ''kill:global'' = Inr (''kill'' # [''global''])"
    by (simp add: parsePath_tokens Let_def)
  have 5: "ancestor [?a, ?b] 1 ?a = Some ?b" by (simp add: find_operclass_def)
  have 6: "\<forall>j x. j < 1 \<longrightarrow> ancestor [?a, ?b] j ?a = Some x \<longrightarrow> \<not> has_acl ''kill'' x"
    by (simp add: has_acl_def)
  show ?thesis
    using inherited_permission [OF 1 2 3 4, of 1 ?b "ACL ''kill'' [] []" "None :: unit path_node option" "()"] 5 6
    by (simp add: ValidatePermissionsForPathEx_def)
qed

text \<open>
  the root of the validator tree has no identifier. In every reachable state in which a
  validator was ever registered, evaluating an entry with variables for a path of two or more
  identifiers compares the missing identifier with \<^verbatim>\<open>strcmp\<close>; and without any validator the
  evaluation of an entry with variables for a path of one identifier reads through NULL.
\<close>

theorem validator_root_fault:
  assumes "oc_reach st" and "entry_variables e \<noteq> []"
  shows "(rootEvalNode st \<noteq> None
       \<longrightarrow> OperClass_evaluateACLEntry (rootEvalNode st) e (p # q # ps) params = Inl Null_Deref)
    \<and> (rootEvalNode st = None
       \<longrightarrow> OperClass_evaluateACLEntry (rootEvalNode st) e [p] params = Inl Null_Deref)"
  using oc_reach_root [OF assms(1)] assms(2)
  by (cases "rootEvalNode st") (auto simp: OperClass_evaluateACLEntry_def)

theorem validator_root_fault_witness:
  "OperClass_evaluateACLEntry
     (rootEvalNode (case OperClassAddValidator None ''kill'' 1 (\<lambda>_ _. 1) \<lparr>rootEvalNode = None, module_objects = (\<lambda>_. [])\<rparr> of Inr st \<Rightarrow> st))
     \<lparr>entry_variables = [(''a'', ''b'')], entry_type = OPERCLASSENTRY_ALLOW\<rparr> [''kill'', ''global''] ()
   = Inl Null_Deref"
proof -
  let ?i = "\<lparr>rootEvalNode = None, module_objects = (\<lambda>_. [])\<rparr> :: unit oc_state"
  obtain st where st: "OperClassAddValidator None ''kill'' 1 (\<lambda>_ _. 1) ?i = Inr st"
    by (simp add: OperClassAddValidator_def parsePath_tokens Let_def)
  have "rootEvalNode st \<noteq> None" by (rule add_validator_root [OF st])
  with st show ?thesis
    using validator_root_fault [OF oc_add [OF oc_init st],
      of "\<lparr>entry_variables = [(''a'', ''b'')], entry_type = OPERCLASSENTRY_ALLOW\<rparr>" "''kill''" "''global''" "[]" "()"]
    by simp
qed

end
