(* ===== verification/Crule_Funcs.thy ===== *)
theory Crule_Funcs
  imports Operclass Glob
begin

text \<open>
  The functions that connection and spamfilter rules can call (the \<^verbatim>\<open>crule_*\<close> functions of
  \<^verbatim>\<open>src/modules/crule.c\<close>) and the small helpers of \<^verbatim>\<open>src/user.c\<close>, \<^verbatim>\<open>src/misc.c\<close>,
  \<^verbatim>\<open>src/channel.c\<close>, \<^verbatim>\<open>src/api-channelmode.c\<close>, \<^verbatim>\<open>src/api-usermode.c\<close> and
  \<^verbatim>\<open>src/modules/utf8functions.c\<close> they use. A function takes the state of the server that it
  reads (\<open>crule_env\<close>), the context, which may be NULL, and its arguments. Subsystems with
  a model elsewhere or none (ban matching, security groups, capabilities, connection counts)
  are functions in the environment.
\<close>

unbundle bit_operations_syntax

section \<open>Data\<close>

datatype client_status =
    CLIENT_STATUS_RPC | CLIENT_STATUS_CONTROL | CLIENT_STATUS_LOG
  | CLIENT_STATUS_TLS_STARTTLS_HANDSHAKE | CLIENT_STATUS_CONNECTING
  | CLIENT_STATUS_TLS_CONNECT_HANDSHAKE | CLIENT_STATUS_TLS_ACCEPT_HANDSHAKE
  | CLIENT_STATUS_HANDSHAKE | CLIENT_STATUS_ME | CLIENT_STATUS_UNKNOWN
  | CLIENT_STATUS_SERVER | CLIENT_STATUS_USER

record cr_user =
  u_away :: "cstring option"
  u_server :: "cstring option"
  u_operlogin :: "cstring option"
  u_realhost :: cstring
  u_virthost :: "cstring option"
  u_account :: cstring
  u_swhois :: "cstring list"
  u_channel :: "(cstring \<times> cstring) list"
  u_joined :: int

record cr_local =
  l_creationtime :: int
  l_idle_since :: int
  l_cap_protocol :: int
  l_caps :: "64 word"
  l_class :: "cstring option"
  l_sni_servername :: "cstring option"
  l_listener_port :: "int option"
  l_flood_blocked :: "int list"
  l_tags :: "(cstring \<times> int) list"
  l_messages_sent :: int
  l_messages_received :: int
  l_bytes_sent :: int
  l_bytes_received :: int

record cr_client =
  cl_name :: cstring
  cl_info :: cstring
  cl_status :: client_status
  cl_umodes :: "64 word"
  cl_tls :: bool
  cl_user :: "cr_user option"
  cl_local :: "cr_local option"
  cl_uplink :: "cstring option"
  cl_moddata :: "cstring \<Rightarrow> cstring option"
  cl_server_port :: "int option"
  cl_asname :: "cstring option"

record text_analysis =
  ta_antimixedutf8_points :: int
  ta_unicode_blocks :: int
  ta_num_unicode_characters :: int
  ta_unicode_blockmap :: "int list"

record crule_context =
  cx_client :: "cr_client option"
  cx_text :: "cstring option"
  cx_destination :: "cstring option"
  cx_textanalysis :: "text_analysis option"

record crule_env =
  e_TStime :: int
  e_global_server_list :: "cr_client list"
  e_lclient_list :: "cr_client list"
  e_UMODE_OPER :: "64 word"
  e_UMODE_SECURE :: "64 word"
  e_UMODE_HIDE :: "64 word"
  e_umode_letter :: "char \<Rightarrow> 64 word"
  e_channelmodes :: "(char \<times> 64 word) list"
  e_find_channel :: "cstring \<Rightarrow> (64 word \<times> int) option"
  e_opers :: "conf_oper list"
  e_ClientCapabilityBit :: "cstring \<Rightarrow> 64 word"
  e_channel_flood_blocked :: "cr_client \<Rightarrow> cstring \<Rightarrow> int"
  e_security_group :: "cr_client \<Rightarrow> cstring \<Rightarrow> bool"
  e_match_user :: "cstring \<Rightarrow> cr_client \<Rightarrow> nat \<Rightarrow> bool"
  e_extended_ban :: "cr_client \<Rightarrow> cstring \<Rightarrow> cstring \<Rightarrow> bool"
  e_unicode_blocks :: "cstring list"
  e_connections_from_ip :: "cr_client \<Rightarrow> int"

type_synonym crule_func = "crule_env \<Rightarrow> crule_context option \<Rightarrow> cstring list \<Rightarrow> fault + int"

section \<open>Helpers\<close>

definition int32 :: "int \<Rightarrow> int" where
  "int32 v = sint (word_of_int v :: 32 word)"

definition int64_clamp :: "int \<Rightarrow> int" where
  "int64_clamp v = max (- (2 ^ 63)) (min (2 ^ 63 - 1) v)"

text \<open>\<^verbatim>\<open>atoll\<close> and \<^verbatim>\<open>atoi\<close> of the C library: leading white space, a sign, digits.\<close>

fun digits_value :: "cstring \<Rightarrow> int \<Rightarrow> int" where
  "digits_value [] v = v"
| "digits_value (c # s) v = (if isdigit c then digits_value s (10 * v + (of_char c - 48)) else v)"

definition atoll :: "cstring \<Rightarrow> int" where
  "atoll s = int64_clamp (case dropWhile isspace s of
     [] \<Rightarrow> 0
   | c # t \<Rightarrow> if c = CHR ''-'' then - digits_value t 0
              else if c = CHR ''+'' then digits_value t 0
              else digits_value (c # t) 0)"

definition atoi :: "cstring \<Rightarrow> int" where
  "atoi s = int32 (atoll s)"

definition of_bool_int :: "bool \<Rightarrow> fault + int" where
  "of_bool_int b = Inr (if b then 1 else 0)"

definition IsUser :: "cr_client \<Rightarrow> bool" where
  "IsUser c \<longleftrightarrow> cl_status c = CLIENT_STATUS_USER"

definition IsServer :: "cr_client \<Rightarrow> bool" where
  "IsServer c \<longleftrightarrow> cl_status c = CLIENT_STATUS_SERVER"

definition MyConnect :: "cr_client \<Rightarrow> bool" where
  "MyConnect c \<longleftrightarrow> cl_local c \<noteq> None"

definition MyUser :: "cr_client \<Rightarrow> bool" where
  "MyUser c \<longleftrightarrow> MyConnect c \<and> IsUser c"

definition IsOper :: "crule_env \<Rightarrow> cr_client \<Rightarrow> bool" where
  "IsOper env c \<longleftrightarrow> cl_umodes c AND e_UMODE_OPER env \<noteq> 0"

definition IsLoggedIn :: "cr_client \<Rightarrow> bool" where
  "IsLoggedIn c = (case cl_user c of None \<Rightarrow> False
     | Some u \<Rightarrow> c_at (u_account u) 0 \<noteq> CHR ''*'' \<and> \<not> isdigit (c_at (u_account u) 0))"

definition GetHost :: "crule_env \<Rightarrow> cr_client \<Rightarrow> fault + cstring" where
  "GetHost env c = (case cl_user c of None \<Rightarrow> Inl Null_Deref
     | Some u \<Rightarrow> if cl_umodes c AND e_UMODE_HIDE env \<noteq> 0
                 then (case u_virthost u of None \<Rightarrow> Inl Null_Deref | Some h \<Rightarrow> Inr h)
                 else Inr (u_realhost u))"

definition GetReputation :: "cr_client \<Rightarrow> int" where
  "GetReputation c = (case cl_moddata c ''reputation'' of None \<Rightarrow> 0 | Some s \<Rightarrow> atoi s)"

definition BadPtr :: "cstring option \<Rightarrow> bool" where
  "BadPtr s \<longleftrightarrow> s = None \<or> s = Some []"

definition get_connected_time :: "crule_env \<Rightarrow> cr_client \<Rightarrow> int" where
  "get_connected_time env c =
     (case cl_local c of
        Some l \<Rightarrow> e_TStime env - l_creationtime l
      | None \<Rightarrow>
          (case cl_moddata c ''creationtime'' of
             None \<Rightarrow> 0
           | Some str \<Rightarrow> if str \<noteq> [] \<and> hd str \<noteq> CHR ''0'' then e_TStime env - atoll str else 0))"

definition get_server_port :: "cr_client \<Rightarrow> int" where
  "get_server_port c =
     (case Option.bind (cl_local c) l_listener_port of
        Some p \<Rightarrow> p
      | None \<Rightarrow> (case cl_server_port c of None \<Rightarrow> 0 | Some p \<Rightarrow> p))"

definition get_operclass :: "crule_env \<Rightarrow> cr_client \<Rightarrow> cstring option" where
  "get_operclass env c =
     (case (if MyUser c then Option.bind (Option.bind (cl_user c) u_operlogin) (\<lambda>login. find_oper (e_opers env) (Some login)) else None) of
        Some oper \<Rightarrow> (case oper_operclass oper of Some oc \<Rightarrow> Some oc | None \<Rightarrow> cl_moddata c ''operclass'')
      | None \<Rightarrow> cl_moddata c ''operclass'')"

definition find_tag :: "cr_client \<Rightarrow> cstring \<Rightarrow> (cstring \<times> int) option" where
  "find_tag c name = (case cl_local c of None \<Rightarrow> None | Some l \<Rightarrow> find (\<lambda>e. strcaseeq (fst e) name) (l_tags l))"

definition check_channel_access_string :: "cstring \<Rightarrow> cstring \<Rightarrow> bool" where
  "check_channel_access_string current modes \<longleftrightarrow> list_ex (\<lambda>p. p \<in> set modes) current"

definition inchannel_compareflags :: "char \<Rightarrow> cstring \<Rightarrow> bool" where
  "inchannel_compareflags symbol member_modes =
     (if symbol = CHR ''+'' then check_channel_access_string member_modes ''vhoaq''
      else if symbol = CHR ''%'' then check_channel_access_string member_modes ''hoaq''
      else if symbol = CHR ''@'' then check_channel_access_string member_modes ''oaq''
      else if symbol = CHR ''&'' then check_channel_access_string member_modes ''aq''
      else if symbol = CHR ''~'' then check_channel_access_string member_modes ''q''
      else False)"

text \<open>The table of user modes, indexed by the letter; 0 where there is no handler.\<close>

definition find_user_mode :: "crule_env \<Rightarrow> char \<Rightarrow> 64 word" where
  "find_user_mode env letter = e_umode_letter env letter"

definition has_user_mode :: "crule_env \<Rightarrow> cr_client \<Rightarrow> char \<Rightarrow> bool" where
  "has_user_mode env c mode \<longleftrightarrow> cl_umodes c AND find_user_mode env mode \<noteq> 0"

definition has_channel_mode :: "crule_env \<Rightarrow> 64 word \<Rightarrow> char \<Rightarrow> bool" where
  "has_channel_mode env chmode mode \<longleftrightarrow> list_ex (\<lambda>(letter, m). letter = mode \<and> chmode AND m \<noteq> 0) (e_channelmodes env)"

fun utf8_get_block_number :: "cstring list \<Rightarrow> cstring \<Rightarrow> int \<Rightarrow> int" where
  "utf8_get_block_number [] name i = -1"
| "utf8_get_block_number (b # bs) name i = (if strcaseeq b name then i else utf8_get_block_number bs name (i + 1))"

text \<open>A non-zero result of \<^verbatim>\<open>match_simple\<close>, which always returns.\<close>

definition mask_matches :: "cstring \<Rightarrow> cstring \<Rightarrow> bool" where
  "mask_matches msk name \<longleftrightarrow> match_simple msk name = Some True"

definition floodoption_shortnames :: "cstring option list" where
  "floodoption_shortnames = [Some ''nick'', Some ''join'', Some ''away'', Some ''invite'', Some ''knock'',
     Some ''conversations'', None, Some ''vhost'', None, None, None]"

definition MAXFLOODOPTIONS :: nat where
  "MAXFLOODOPTIONS = 10"

text \<open>
  The common beginnings of the functions: return 0 without a context or without its client,
  and read an argument slot, which is NULL beyond the arguments given.
\<close>

definition with_client :: "crule_context option \<Rightarrow> (cr_client \<Rightarrow> fault + int) \<Rightarrow> fault + int" where
  "with_client ctx k = (case Option.bind ctx cx_client of None \<Rightarrow> Inr 0 | Some c \<Rightarrow> k c)"

definition with_user :: "crule_context option \<Rightarrow> (cr_client \<Rightarrow> cr_user \<Rightarrow> fault + int) \<Rightarrow> fault + int" where
  "with_user ctx k = with_client ctx (\<lambda>c. case cl_user c of None \<Rightarrow> Inr 0 | Some u \<Rightarrow> k c u)"

definition with_my_user :: "crule_context option \<Rightarrow> (cr_local \<Rightarrow> fault + int) \<Rightarrow> fault + int" where
  "with_my_user ctx k = with_client ctx (\<lambda>c.
     if \<not> MyUser c then Inr 0 else case cl_local c of None \<Rightarrow> Inl Null_Deref | Some l \<Rightarrow> k l)"

definition with_text :: "crule_context option \<Rightarrow> (cstring \<Rightarrow> fault + int) \<Rightarrow> fault + int" where
  "with_text ctx k = (case Option.bind ctx cx_text of None \<Rightarrow> Inr 0 | Some t \<Rightarrow> k t)"

definition with_analysis :: "crule_context option \<Rightarrow> (text_analysis \<Rightarrow> fault + int) \<Rightarrow> fault + int" where
  "with_analysis ctx k = (case Option.bind ctx cx_textanalysis of None \<Rightarrow> Inr 0 | Some t \<Rightarrow> k t)"

definition crulearg :: "cstring list \<Rightarrow> nat \<Rightarrow> (cstring \<Rightarrow> fault + int) \<Rightarrow> fault + int" where
  "crulearg args i k = (if i < length args then k (args ! i) else Inl Null_Deref)"

definition match_field :: "cstring option \<Rightarrow> cstring list \<Rightarrow> fault + int" where
  "match_field fld args = (case fld of None \<Rightarrow> Inr 0 | Some s \<Rightarrow> crulearg args 0 (\<lambda>arg. of_bool_int (mask_matches arg s)))"

section \<open>The functions\<close>

definition crule_away :: crule_func where
  "crule_away env ctx args = with_client ctx (\<lambda>c.
     if \<not> IsUser c then Inr 0
     else case cl_user c of None \<Rightarrow> Inl Null_Deref | Some u \<Rightarrow> of_bool_int (\<not> BadPtr (u_away u)))"

definition crule_is_identified :: crule_func where
  "crule_is_identified env ctx args = with_client ctx (\<lambda>c. of_bool_int (IsLoggedIn c))"

definition crule_is_websocket :: crule_func where
  "crule_is_websocket env ctx args = with_client ctx (\<lambda>c. of_bool_int (cl_moddata c ''websocket'' \<noteq> None))"

definition crule_is_webirc :: crule_func where
  "crule_is_webirc env ctx args = with_client ctx (\<lambda>c. of_bool_int (cl_moddata c ''webirc'' \<noteq> None))"

definition crule_tls :: crule_func where
  "crule_tls env ctx args = with_client ctx (\<lambda>c. of_bool_int (cl_tls c \<or> cl_umodes c AND e_UMODE_SECURE env \<noteq> 0))"

definition crule_has_user_mode :: crule_func where
  "crule_has_user_mode env ctx args = with_client ctx (\<lambda>c. crulearg args 0 (\<lambda>modes.
     if modes = [] then Inr 0 else of_bool_int (list_all (has_user_mode env c) modes)))"

definition crule_has_channel_mode :: crule_func where
  "crule_has_channel_mode env ctx args =
     (case Option.bind ctx cx_destination of
        None \<Rightarrow> Inr 0
      | Some d \<Rightarrow>
          if c_at d 0 \<noteq> CHR ''#'' then Inr 0
          else (case e_find_channel env d of
                  None \<Rightarrow> Inr 0
                | Some (m, users) \<Rightarrow> crulearg args 0 (\<lambda>modes. of_bool_int (list_all (has_channel_mode env m) modes))))"

definition crule_connected :: crule_func where
  "crule_connected env ctx args =
     (if e_global_server_list env = [] then Inr 0
      else crulearg args 0 (\<lambda>arg. of_bool_int (list_ex (\<lambda>c. mask_matches arg (cl_name c)) (e_global_server_list env))))"

definition crule_directcon :: crule_func where
  "crule_directcon env ctx args =
     (if filter IsServer (e_lclient_list env) = [] then Inr 0
      else crulearg args 0 (\<lambda>arg. of_bool_int (list_ex (\<lambda>c. mask_matches arg (cl_name c)) (filter IsServer (e_lclient_list env)))))"

fun via_loop :: "cstring \<Rightarrow> cstring \<Rightarrow> cr_client list \<Rightarrow> fault + int" where
  "via_loop a b [] = Inr 0"
| "via_loop a b (c # cs) =
     (if \<not> mask_matches b (cl_name c) then via_loop a b cs
      else (case cl_uplink c of
              None \<Rightarrow> Inl Null_Deref
            | Some up \<Rightarrow> if \<not> mask_matches a up then via_loop a b cs else Inr 1))"

definition crule_via :: crule_func where
  "crule_via env ctx args =
     (if e_global_server_list env = [] then Inr 0
      else crulearg args 1 (\<lambda>b. crulearg args 0 (\<lambda>a. via_loop a b (e_global_server_list env))))"

definition crule_directop :: crule_func where
  "crule_directop env ctx args = of_bool_int (list_ex (IsOper env) (e_lclient_list env))"

definition crule_online_time :: crule_func where
  "crule_online_time env ctx args = with_client ctx (\<lambda>c. Inr (int32 (get_connected_time env c)))"

definition crule_reputation :: crule_func where
  "crule_reputation env ctx args = with_client ctx (\<lambda>c. Inr (GetReputation c))"

fun flood_lookup :: "cstring option list \<Rightarrow> int list \<Rightarrow> cstring \<Rightarrow> int" where
  "flood_lookup (n # ns) (b # bs) typ =
     (if (case n of None \<Rightarrow> False | Some nm \<Rightarrow> strcaseeq nm typ) then b else flood_lookup ns bs typ)"
| "flood_lookup ns bs typ = 0"

definition crule_server_flood_count :: crule_func where
  "crule_server_flood_count env ctx args = with_client ctx (\<lambda>c.
     case cl_local c of
       None \<Rightarrow> Inr 0
     | Some l \<Rightarrow> crulearg args 0 (\<lambda>typ.
         if length (l_flood_blocked l) \<noteq> MAXFLOODOPTIONS then Inl Over_Read
         else if strcaseeq typ ''all'' then Inr (int32 (sum_list (l_flood_blocked l)))
         else Inr (flood_lookup floodoption_shortnames (l_flood_blocked l) typ)))"

definition crule_total_channel_flood_count :: crule_func where
  "crule_total_channel_flood_count env ctx args = with_client ctx (\<lambda>c.
     crulearg args 0 (\<lambda>arg. Inr (e_channel_flood_blocked env c arg)))"

definition crule_tag :: crule_func where
  "crule_tag env ctx args = with_client ctx (\<lambda>c. crulearg args 0 (\<lambda>name.
     Inr (case find_tag c name of None \<Rightarrow> 0 | Some (_, v) \<Rightarrow> v)))"

definition crule_in_channel :: crule_func where
  "crule_in_channel env ctx args = with_user ctx (\<lambda>c u. crulearg args 0 (\<lambda>name.
     case name of
       [] \<Rightarrow> Inl Over_Read
     | s # p \<Rightarrow>
         of_bool_int (list_ex (\<lambda>(chan, member_modes).
           if s = CHR ''#'' then match_esc name chan = Some True
           else match_esc p chan = Some True \<and> inchannel_compareflags s member_modes) (u_channel u))))"

definition crule_destination :: crule_func where
  "crule_destination env ctx args = match_field (Option.bind ctx cx_destination) args"

definition crule_cap_version :: crule_func where
  "crule_cap_version env ctx args = with_client ctx (\<lambda>c.
     Inr (case cl_local c of None \<Rightarrow> 0 | Some l \<Rightarrow> l_cap_protocol l))"

definition crule_cap_set :: crule_func where
  "crule_cap_set env ctx args = with_client ctx (\<lambda>c.
     case cl_local c of
       None \<Rightarrow> Inr 0
     | Some l \<Rightarrow> crulearg args 0 (\<lambda>cap. of_bool_int (l_caps l AND e_ClientCapabilityBit env cap \<noteq> 0)))"

definition crule_in_security_group :: crule_func where
  "crule_in_security_group env ctx args = with_client ctx (\<lambda>c. crulearg args 0 (\<lambda>arg. of_bool_int (e_security_group env c arg)))"

definition MATCH_CHECK_IP :: nat where
  "MATCH_CHECK_IP = 0x0001"

definition MATCH_CHECK_REAL_HOST :: nat where
  "MATCH_CHECK_REAL_HOST = 0x0002"

definition MATCH_CHECK_EXTENDED :: nat where
  "MATCH_CHECK_EXTENDED = 0x0010"

definition MATCH_MASK_IS_HOST :: nat where
  "MATCH_MASK_IS_HOST = 0x2000"

definition crule_match_mask :: crule_func where
  "crule_match_mask env ctx args = with_client ctx (\<lambda>c. crulearg args 0 (\<lambda>arg.
     of_bool_int (e_match_user env arg c (MATCH_CHECK_REAL_HOST OR MATCH_CHECK_IP OR MATCH_CHECK_EXTENDED))))"

definition crule_match_ip :: crule_func where
  "crule_match_ip env ctx args = with_client ctx (\<lambda>c. crulearg args 0 (\<lambda>arg.
     of_bool_int (e_match_user env arg c (MATCH_CHECK_IP OR MATCH_MASK_IS_HOST))))"

definition crule_match_account :: crule_func where
  "crule_match_account env ctx args = with_client ctx (\<lambda>c. crulearg args 0 (\<lambda>arg. of_bool_int (e_extended_ban env c ''account'' arg)))"

definition crule_match_country :: crule_func where
  "crule_match_country env ctx args = with_client ctx (\<lambda>c. crulearg args 0 (\<lambda>arg. of_bool_int (e_extended_ban env c ''country'' arg)))"

definition crule_match_asn :: crule_func where
  "crule_match_asn env ctx args = with_client ctx (\<lambda>c. crulearg args 0 (\<lambda>arg. of_bool_int (e_extended_ban env c ''asn'' arg)))"

definition crule_match_certfp :: crule_func where
  "crule_match_certfp env ctx args = with_client ctx (\<lambda>c. crulearg args 0 (\<lambda>arg. of_bool_int (e_extended_ban env c ''certfp'' arg)))"

definition crule_match_realname :: crule_func where
  "crule_match_realname env ctx args = with_client ctx (\<lambda>c. match_field (Some (cl_info c)) args)"

definition crule_unicode_count :: crule_func where
  "crule_unicode_count env ctx args = with_analysis ctx (\<lambda>t. crulearg args 0 (\<lambda>arg.
     let i = utf8_get_block_number (e_unicode_blocks env) arg 0
     in if i < 0 then Inr (-1)
        else if nat i < length (ta_unicode_blockmap t) then Inr (ta_unicode_blockmap t ! nat i)
        else Inl Over_Read))"

definition crule_server_port :: crule_func where
  "crule_server_port env ctx args = with_client ctx (\<lambda>c. Inr (get_server_port c))"

definition crule_match_class :: crule_func where
  "crule_match_class env ctx args = with_my_user ctx (\<lambda>l. match_field (l_class l) args)"

definition crule_match_asname :: crule_func where
  "crule_match_asname env ctx args = with_client ctx (\<lambda>c. match_field (cl_asname c) args)"

definition crule_connections_from_ip :: crule_func where
  "crule_connections_from_ip env ctx args = with_client ctx (\<lambda>c. Inr (e_connections_from_ip env c))"

definition crule_channel_count :: crule_func where
  "crule_channel_count env ctx args = with_user ctx (\<lambda>c u. Inr (u_joined u))"

definition crule_text_byte_count :: crule_func where
  "crule_text_byte_count env ctx args = with_text ctx (\<lambda>t. Inr (int32 (int (length t))))"

definition crule_is_local :: crule_func where
  "crule_is_local env ctx args = with_client ctx (\<lambda>c. of_bool_int (MyUser c))"

definition crule_match_sni :: crule_func where
  "crule_match_sni env ctx args = with_my_user ctx (\<lambda>l. match_field (l_sni_servername l) args)"

definition crule_match_tls_cipher :: crule_func where
  "crule_match_tls_cipher env ctx args = with_client ctx (\<lambda>c. match_field (cl_moddata c ''tls_cipher'') args)"

definition crule_idle_time :: crule_func where
  "crule_idle_time env ctx args = with_my_user ctx (\<lambda>l. Inr (int32 (e_TStime env - l_idle_since l)))"

definition crule_match_server :: crule_func where
  "crule_match_server env ctx args = with_user ctx (\<lambda>c u. match_field (u_server u) args)"

definition crule_match_vhost :: crule_func where
  "crule_match_vhost env ctx args = with_client ctx (\<lambda>c.
     if \<not> IsUser c then Inr 0
     else (case GetHost env c of Inl f \<Rightarrow> Inl f | Inr h \<Rightarrow> match_field (Some h) args))"

definition crule_is_oper :: crule_func where
  "crule_is_oper env ctx args = with_client ctx (\<lambda>c. of_bool_int (IsOper env c))"

definition crule_match_operlogin :: crule_func where
  "crule_match_operlogin env ctx args = with_user ctx (\<lambda>c u. match_field (u_operlogin u) args)"

definition percentage :: "nat \<Rightarrow> nat \<Rightarrow> int" where
  "percentage part whole = (if whole > 0 then int part * 100 div int whole else 0)"

definition crule_uppercase_percentage :: crule_func where
  "crule_uppercase_percentage env ctx args = with_text ctx (\<lambda>t.
     Inr (percentage (length (filter isupper (filter isalpha t))) (length (filter isalpha t))))"

definition crule_messages_sent :: crule_func where
  "crule_messages_sent env ctx args = with_my_user ctx (\<lambda>l. Inr (int32 (l_messages_received l)))"

definition crule_match_away :: crule_func where
  "crule_match_away env ctx args = with_user ctx (\<lambda>c u. match_field (u_away u) args)"

definition crule_channel_member_count :: crule_func where
  "crule_channel_member_count env ctx args =
     Inr (case Option.bind (Option.bind ctx cx_destination) (e_find_channel env) of None \<Rightarrow> 0 | Some (m, users) \<Rightarrow> users)"

definition crule_match_realhost :: crule_func where
  "crule_match_realhost env ctx args = with_user ctx (\<lambda>c u. match_field (Some (u_realhost u)) args)"

fun word_count_loop :: "cstring \<Rightarrow> int \<Rightarrow> bool \<Rightarrow> int" where
  "word_count_loop [] cnt in_word = cnt"
| "word_count_loop (p # t) cnt in_word =
     (if p = CHR '' '' \<or> p = CHR 0x09 then word_count_loop t cnt False
      else if \<not> in_word then word_count_loop t (cnt + 1) True
      else word_count_loop t cnt in_word)"

definition crule_word_count :: crule_func where
  "crule_word_count env ctx args = with_text ctx (\<lambda>t. Inr (word_count_loop t 0 False))"

definition crule_has_swhois :: crule_func where
  "crule_has_swhois env ctx args = with_user ctx (\<lambda>c u. of_bool_int (u_swhois u \<noteq> []))"

definition crule_match_operclass :: crule_func where
  "crule_match_operclass env ctx args = with_client ctx (\<lambda>c.
     if \<not> IsOper env c then Inr 0
     else if MyUser c \<and> cl_user c = None then Inl Null_Deref
     else match_field (get_operclass env c) args)"

definition crule_messages_received :: crule_func where
  "crule_messages_received env ctx args = with_my_user ctx (\<lambda>l. Inr (int32 (l_messages_sent l)))"

definition crule_bytes_sent :: crule_func where
  "crule_bytes_sent env ctx args = with_my_user ctx (\<lambda>l. Inr (int32 (l_bytes_received l)))"

definition crule_bytes_received :: crule_func where
  "crule_bytes_received env ctx args = with_my_user ctx (\<lambda>l. Inr (int32 (l_bytes_sent l)))"

definition crule_mixed_utf8_score :: crule_func where
  "crule_mixed_utf8_score env ctx args = with_analysis ctx (\<lambda>t. Inr (ta_antimixedutf8_points t))"

definition crule_unicode_block_count :: crule_func where
  "crule_unicode_block_count env ctx args = with_analysis ctx (\<lambda>t. Inr (ta_unicode_blocks t))"

definition crule_text_character_count :: crule_func where
  "crule_text_character_count env ctx args = with_analysis ctx (\<lambda>t. Inr (ta_num_unicode_characters t))"

definition crule_non_ascii_percentage :: crule_func where
  "crule_non_ascii_percentage env ctx args = with_text ctx (\<lambda>t.
     Inr (percentage (length (filter (\<lambda>p. (of_char p :: nat) AND 0x80 \<noteq> 0) t)) (length t)))"

definition crule_digit_percentage :: crule_func where
  "crule_digit_percentage env ctx args = with_text ctx (\<lambda>t.
     Inr (percentage (length (filter isdigit t)) (length t)))"

fun repeat_loop :: "char \<Rightarrow> cstring \<Rightarrow> int \<Rightarrow> int \<Rightarrow> int" where
  "repeat_loop prev [] cur mx = (if cur > mx then cur else mx)"
| "repeat_loop prev (p # t) cur mx =
     (if p = prev then repeat_loop p t (cur + 1) mx
      else repeat_loop p t 1 (if cur > mx then cur else mx))"

definition crule_max_repeat_count :: crule_func where
  "crule_max_repeat_count env ctx args = with_text ctx (\<lambda>t.
     Inr (case t of [] \<Rightarrow> 0 | c # s \<Rightarrow> repeat_loop c s 1 0))"

end
