(* ===== verification/Crule.thy ===== *)
theory Crule
  imports Crule_Funcs "HOL-Library.List_Lexorder"
begin

text \<open>
  Connection rules (\<^verbatim>\<open>src/modules/crule.c\<close>): the scanner, the recursive descent parser, the
  sorted function table with its binary search, and the evaluator. The parser functions have
  the state of the C code as arguments (the current token and the rest of the input) and
  return the error code, the node built so far, which may be NULL, and the new state. Reading
  past the terminating NUL and writing past the argument array are faults. The three mutually
  recursive functions take fuel; \<open>None\<close> is running out of it, which never happens for the
  amount \<open>crule_parse\<close> gives them.
\<close>

section \<open>The model\<close>

subsection \<open>Tokens, errors and nodes\<close>

datatype crule_token = CR_UNKNOWN | CR_END | CR_AND | CR_OR | CR_NOT | CR_OPENPAREN | CR_CLOSEPAREN
  | CR_COMMA | CR_EQUAL | CR_LESS_THAN | CR_MORE_THAN | CR_WORD

datatype crule_errcode = CR_NOERR | CR_UNEXPCTTOK | CR_UNKNWTOK | CR_EXPCTAND | CR_EXPCTOR | CR_EXPCTPRIM
  | CR_EXPCTOPEN | CR_EXPCTCLOSE | CR_UNKNWFUNC | CR_ARGMISMAT | CR_EXPCTVALUE

definition IsComparisson :: "crule_token \<Rightarrow> bool" where
  "IsComparisson x \<longleftrightarrow> x = CR_EQUAL \<or> x = CR_LESS_THAN \<or> x = CR_MORE_THAN"

definition CR_MAXARGLEN :: nat where
  "CR_MAXARGLEN = 160"

definition CR_MAXARGS :: nat where
  "CR_MAXARGS = 5"

text \<open>
  A node is an operator with two operands (AND or OR), a negation, or a call with its
  arguments and an optional comparison of its result. The type of function pointers is a
  parameter of the parser.
\<close>

datatype 'f crule_node =
    CAndOr bool "'f crule_node option" "'f crule_node option"
  | CNot "'f crule_node option"
  | CFunc 'f "cstring list" "(crule_token \<times> int) option"

definition crule_funclist :: "(cstring \<times> nat \<times> crule_func) list" where
  "crule_funclist = [
     (''bytes_received'', 0, crule_bytes_received),
     (''bytes_sent'', 0, crule_bytes_sent),
     (''cap_set'', 1, crule_cap_set),
     (''cap_version'', 0, crule_cap_version),
     (''channel_count'', 0, crule_channel_count),
     (''channel_member_count'', 0, crule_channel_member_count),
     (''connected'', 1, crule_connected),
     (''connections_from_ip'', 0, crule_connections_from_ip),
     (''destination'', 1, crule_destination),
     (''digit_percentage'', 0, crule_digit_percentage),
     (''directcon'', 1, crule_directcon),
     (''directop'', 0, crule_directop),
     (''has_channel_mode'', 1, crule_has_channel_mode),
     (''has_swhois'', 0, crule_has_swhois),
     (''has_user_mode'', 1, crule_has_user_mode),
     (''idle_time'', 0, crule_idle_time),
     (''in_channel'', 1, crule_in_channel),
     (''in_security_group'', 1, crule_in_security_group),
     (''inchannel'', 1, crule_in_channel),
     (''is_away'', 0, crule_away),
     (''is_identified'', 0, crule_is_identified),
     (''is_local'', 0, crule_is_local),
     (''is_oper'', 0, crule_is_oper),
     (''is_tls'', 0, crule_tls),
     (''is_webirc'', 0, crule_is_webirc),
     (''is_websocket'', 0, crule_is_websocket),
     (''match_account'', 1, crule_match_account),
     (''match_asn'', 1, crule_match_asn),
     (''match_asname'', 1, crule_match_asname),
     (''match_away'', 1, crule_match_away),
     (''match_certfp'', 1, crule_match_certfp),
     (''match_class'', 1, crule_match_class),
     (''match_country'', 1, crule_match_country),
     (''match_ip'', 1, crule_match_ip),
     (''match_mask'', 1, crule_match_mask),
     (''match_operclass'', 1, crule_match_operclass),
     (''match_operlogin'', 1, crule_match_operlogin),
     (''match_realhost'', 1, crule_match_realhost),
     (''match_realname'', 1, crule_match_realname),
     (''match_server'', 1, crule_match_server),
     (''match_sni'', 1, crule_match_sni),
     (''match_tls_cipher'', 1, crule_match_tls_cipher),
     (''match_vhost'', 1, crule_match_vhost),
     (''max_repeat_count'', 0, crule_max_repeat_count),
     (''messages_received'', 0, crule_messages_received),
     (''messages_sent'', 0, crule_messages_sent),
     (''mixed_utf8_score'', 0, crule_mixed_utf8_score),
     (''non_ascii_percentage'', 0, crule_non_ascii_percentage),
     (''online_time'', 0, crule_online_time),
     (''reputation'', 0, crule_reputation),
     (''server_flood_count'', 1, crule_server_flood_count),
     (''server_port'', 0, crule_server_port),
     (''tag'', 1, crule_tag),
     (''text_byte_count'', 0, crule_text_byte_count),
     (''text_character_count'', 0, crule_text_character_count),
     (''total_channel_flood_count'', 1, crule_total_channel_flood_count),
     (''unicode_block_count'', 0, crule_unicode_block_count),
     (''unicode_count'', 1, crule_unicode_count),
     (''uppercase_percentage'', 0, crule_uppercase_percentage),
     (''via'', 2, crule_via),
     (''word_count'', 0, crule_word_count)]"

subsection \<open>Scanner\<close>

text \<open>The operators of two equal characters, and the tokens of a single one.\<close>

definition double_token :: "char \<Rightarrow> crule_token" where
  "double_token c = (if c = CHR ''&'' then CR_AND else if c = CHR ''|'' then CR_OR else CR_EQUAL)"

definition single_token :: "char \<Rightarrow> crule_token option" where
  "single_token c =
     (if c = CHR ''!'' then Some CR_NOT
      else if c = CHR ''('' then Some CR_OPENPAREN
      else if c = CHR '')'' then Some CR_CLOSEPAREN
      else if c = CHR ''<'' then Some CR_LESS_THAN
      else if c = CHR ''>'' then Some CR_MORE_THAN
      else if c = CHR '','' then Some CR_COMMA
      else if c = CHR '':'' then Some CR_END
      else None)"

fun crule_gettoken :: "char option \<Rightarrow> cstring \<Rightarrow> crule_errcode \<times> crule_token \<times> cstring" where
  "crule_gettoken pending [] = (CR_NOERR, CR_END, [])"
| "crule_gettoken pending (c # s) =
     (if c = CHR '' '' \<or> c = CHR 0x09 then crule_gettoken pending s
      else if c = CHR ''&'' \<or> c = CHR ''|'' \<or> c = CHR ''='' then
        (if pending = None then crule_gettoken (Some c) s
         else if pending = Some c then (CR_NOERR, double_token c, s)
         else (CR_UNKNWTOK, CR_UNKNOWN, s))
      else (case single_token c of
              Some tok \<Rightarrow> (CR_NOERR, tok, s)
            | None \<Rightarrow>
                if isalnum c \<or> c \<in> set ''*?.-_'' \<or> c = CHR 0x27 then (CR_NOERR, CR_WORD, c # s)
                else (CR_UNKNWTOK, CR_UNKNOWN, c # s)))"

definition wordchar :: "char \<Rightarrow> bool" where
  "wordchar c \<longleftrightarrow> isalnum c \<or> c \<in> set ''*?.-_''"

fun getword_loop :: "bool \<Rightarrow> nat \<Rightarrow> cstring \<Rightarrow> fault + (cstring \<times> cstring)" where
  "getword_loop quoted 0 s = Inr ([], s)"
| "getword_loop quoted (Suc n) [] = (if quoted then Inl Over_Read else Inr ([], []))"
| "getword_loop quoted (Suc n) (c # s) =
     (if wordchar c \<or> (quoted \<and> c \<noteq> CHR 0x27)
      then (case getword_loop quoted n s of Inl f \<Rightarrow> Inl f | Inr (w, r) \<Rightarrow> Inr (c # w, r))
      else Inr ([], c # s))"

definition crule_getword :: "nat \<Rightarrow> cstring \<Rightarrow> fault + (cstring \<times> cstring)" where
  "crule_getword maxlen s =
     (case s of
        c # t \<Rightarrow>
          if c = CHR 0x27 then
            (case getword_loop True maxlen t of
               Inl f \<Rightarrow> Inl f
             | Inr (w, r) \<Rightarrow> Inr (w, if r \<noteq> [] \<and> hd r = CHR 0x27 then tl r else r))
          else getword_loop False maxlen s
      | [] \<Rightarrow> getword_loop False maxlen s)"

lemma gettoken_Cons_cases:
  assumes "crule_gettoken pending (c # s) = (err, tok, s')"
  obtains (skip) p where "crule_gettoken p s = (err, tok, s')"
  | (op) "err = CR_NOERR" "s' = s" "tok = double_token c \<or> single_token c = Some tok"
  | (word) "err = CR_NOERR" "tok = CR_WORD" "s' = c # s" "wordchar c \<or> c = CHR 0x27"
  | (unknown) "err = CR_UNKNWTOK" "tok = CR_UNKNOWN" "s' = s \<or> s' = c # s"
proof (cases "c = CHR '' '' \<or> c = CHR 0x09")
  case True
  then show thesis using assms skip by (simp only: crule_gettoken.simps if_True)
next
  case blank: False
  show thesis
  proof (cases "c = CHR ''&'' \<or> c = CHR ''|'' \<or> c = CHR ''=''")
    case True
    then have "(if pending = None then crule_gettoken (Some c) s
         else if pending = Some c then (CR_NOERR, double_token c, s)
         else (CR_UNKNWTOK, CR_UNKNOWN, s)) = (err, tok, s')"
      using assms blank by (simp only: crule_gettoken.simps if_False if_True)
    then show thesis using skip op unknown by (cases "pending = None"; cases "pending = Some c") auto
  next
    case False
    then have "(case single_token c of
              Some tok \<Rightarrow> (CR_NOERR, tok, s)
            | None \<Rightarrow>
                if isalnum c \<or> c \<in> set ''*?.-_'' \<or> c = CHR 0x27 then (CR_NOERR, CR_WORD, c # s)
                else (CR_UNKNWTOK, CR_UNKNOWN, c # s)) = (err, tok, s')"
      using assms blank by (simp only: crule_gettoken.simps if_False)
    then have r: "(case single_token c of
              Some tok \<Rightarrow> (CR_NOERR, tok, s)
            | None \<Rightarrow>
                if wordchar c \<or> c = CHR 0x27 then (CR_NOERR, CR_WORD, c # s)
                else (CR_UNKNWTOK, CR_UNKNOWN, c # s)) = (err, tok, s')"
      by (simp only: wordchar_def disj_assoc)
    show thesis
    proof (cases "single_token c")
      case None
      then show thesis using r word unknown by (cases "wordchar c \<or> c = CHR 0x27") auto
    next
      case (Some k)
      then show thesis using r op by auto
    qed
  qed
qed

lemma gettoken_shrinks:
  "crule_gettoken pending s = (err, tok, s')
   \<Longrightarrow> suffix s' s \<and> (tok \<noteq> CR_END \<and> tok \<noteq> CR_WORD \<and> tok \<noteq> CR_UNKNOWN \<longrightarrow> length s' < length s)"
proof (induction s arbitrary: pending)
  case (Cons c s)
  from Cons.prems show ?case
    by (cases rule: gettoken_Cons_cases) (auto dest!: Cons.IH simp: suffix_Cons)
qed simp

lemma single_token_not_word: "single_token c \<noteq> Some CR_WORD"
  by (simp add: single_token_def)

lemma double_token_not_word: "double_token c \<noteq> CR_WORD"
  by (simp add: double_token_def)

lemma gettoken_word:
  "crule_gettoken pending s = (err, CR_WORD, s') \<Longrightarrow> \<exists>c t. s' = c # t \<and> (wordchar c \<or> c = CHR 0x27)"
proof (induction s arbitrary: pending)
  case (Cons c s)
  from Cons.prems show ?case
    by (cases rule: gettoken_Cons_cases) (auto simp: single_token_not_word double_token_not_word [symmetric] dest!: Cons.IH)
qed simp

lemma getword_loop_shrinks:
  "getword_loop quoted n s = Inr (w, r) \<Longrightarrow> suffix r s \<and> (n > 0 \<and> s \<noteq> [] \<and> wordchar (hd s) \<longrightarrow> length r < length s)"
proof (induction quoted n s arbitrary: w r rule: getword_loop.induct)
  case (3 quoted n c s)
  then show ?case by (fastforce simp: suffix_Cons dest: suffix_length_le split: if_splits sum.splits)
qed (auto split: if_splits)

lemma getword_shrinks:
  assumes "crule_getword n s = Inr (w, r)"
  shows "suffix r s" and "n > 0 \<Longrightarrow> s = c # t \<Longrightarrow> wordchar c \<or> c = CHR 0x27 \<Longrightarrow> length r < length s"
proof -
  have *: "suffix r s \<and> (n > 0 \<and> s = c # t \<and> (wordchar c \<or> c = CHR 0x27) \<longrightarrow> length r < length s)" for c t
  proof (cases "s \<noteq> [] \<and> hd s = CHR 0x27")
    case True
    then obtain u where s: "s = CHR 0x27 # u" by (cases s) auto
    obtain r' where l: "getword_loop True n u = Inr (w, r')"
      and r: "r = (if r' \<noteq> [] \<and> hd r' = CHR 0x27 then tl r' else r')"
      using assms s by (auto simp: crule_getword_def split: sum.splits prod.splits)
    have "suffix r' u" using getword_loop_shrinks [OF l] by simp
    moreover have "suffix r r'" unfolding r by (cases r') (auto simp: suffix_Cons)
    ultimately have "suffix r u" by (meson suffix_order.trans)
    then show ?thesis using s suffix_length_le [of r u] by (auto simp: suffix_Cons)
  next
    case False
    then have "getword_loop False n s = Inr (w, r)"
      using assms by (auto simp: crule_getword_def split: list.splits if_splits)
    from getword_loop_shrinks [OF this] False show ?thesis by auto
  qed
  show "suffix r s" using * by blast
  show "n > 0 \<Longrightarrow> s = c # t \<Longrightarrow> wordchar c \<or> c = CHR 0x27 \<Longrightarrow> length r < length s" using * by blast
qed

text \<open>
  How much input a token and the rest still stand for: a word is not consumed by the scanner,
  every other token is.
\<close>

definition pot :: "crule_token \<Rightarrow> cstring \<Rightarrow> nat" where
  "pot tok s = 2 * length s + (case tok of CR_END \<Rightarrow> 0 | CR_UNKNOWN \<Rightarrow> 0 | CR_WORD \<Rightarrow> 1 | _ \<Rightarrow> 2)"

lemma gettoken_pot: "crule_gettoken pending s = (err, tok, s') \<Longrightarrow> pot tok s' \<le> 2 * length s + 1"
  using gettoken_shrinks [of pending s err tok s'] suffix_length_le [of s' s]
  by (cases tok) (auto simp: pot_def)

lemma word_pot:
  assumes "crule_getword n s = Inr (w, r)" and "n > 0" and "crule_gettoken None r = (err, tok, s')"
  shows "pot tok s' \<le> 2 * length s"
proof (cases "tok = CR_WORD")
  case False
  then show ?thesis
    using gettoken_shrinks [OF assms(3)] suffix_length_le [of s' r] suffix_length_le [of r s] getword_shrinks(1) [OF assms(1)]
    by (cases tok) (auto simp: pot_def)
next
  case True
  have r: "suffix r s" by (rule getword_shrinks(1) [OF assms(1)])
  have s': "suffix s' r" using gettoken_shrinks [OF assms(3)] by simp
  obtain c t where ct: "s' = c # t" "wordchar c \<or> c = CHR 0x27" using gettoken_word assms(3) True by blast
  have "length s' < length s"
  proof (rule ccontr)
    assume "\<not> length s' < length s"
    then have "length s' = length r" "length r = length s"
      using suffix_length_le [OF r] suffix_length_le [OF s'] by auto
    then have "s' = r" "r = s" using r s' by (auto simp: suffix_def)
    then show False using getword_shrinks(2) [OF assms(1,2), of c t] ct by simp
  qed
  then show ?thesis by (simp add: pot_def True)
qed

subsection \<open>Calls\<close>

lemma word_pot_less:
  "(err, tok, s') = crule_gettoken None r \<Longrightarrow> crule_getword n s = Inr (w, r) \<Longrightarrow> 0 < n \<Longrightarrow> pot tok s' < Suc (2 * length s)"
  using word_pot [of n s w r err tok s'] by simp

lemma gettoken_pot_less: "(err, tok, s') = crule_gettoken None s \<Longrightarrow> pot tok s' < Suc (Suc (2 * length s))"
  using gettoken_pot [of None s err tok s'] by simp

function crule_parsearglist :: "cstring list \<Rightarrow> cstring \<Rightarrow> crule_token \<Rightarrow> cstring
    \<Rightarrow> fault + (crule_errcode \<times> cstring list \<times> crule_token \<times> cstring)" where
  "crule_parsearglist args currarg tok s =
     (if tok = CR_WORD then
        (case crule_getword (CR_MAXARGLEN - 1) s of
           Inl f \<Rightarrow> Inl f
         | Inr (word, r) \<Rightarrow>
             (case crule_gettoken None r of (errcode, tok', s') \<Rightarrow>
                let currarg' = (if currarg \<noteq> [] then
                                  (if length currarg + length word < CR_MAXARGLEN - 1 then currarg @ '' '' @ word else currarg)
                                else word)
                in if errcode = CR_NOERR then crule_parsearglist args currarg' tok' s'
                   else Inr (errcode, args, tok', s')))
      else if currarg \<noteq> [] \<and> length args \<ge> CR_MAXARGS then Inl Array_Overflow
      else let args' = (if currarg \<noteq> [] then args @ [currarg] else args)
           in if tok \<noteq> CR_COMMA then Inr (CR_NOERR, args', tok, s)
              else (case crule_gettoken None s of (errcode, tok', s') \<Rightarrow>
                      if errcode = CR_NOERR then crule_parsearglist args' [] tok' s'
                      else Inr (errcode, args', tok', s')))"
  by pat_completeness auto
termination
  by (relation "measure (\<lambda>(args, currarg, tok, s). pot tok s)")
     (auto simp: CR_MAXARGLEN_def pot_def [of CR_WORD] pot_def [of CR_COMMA] intro: word_pot_less gettoken_pot_less)

declare crule_parsearglist.simps [simp del]

text \<open>\<^verbatim>\<open>strcasecmp\<close> and \<^verbatim>\<open>bsearch\<close> of the C library.\<close>

fun strcasecmp :: "cstring \<Rightarrow> cstring \<Rightarrow> int" where
  "strcasecmp [] [] = 0"
| "strcasecmp [] (b # bs) = - of_char (tolower b)"
| "strcasecmp (a # as) [] = of_char (tolower a)"
| "strcasecmp (a # as) (b # bs) =
     (if tolower a = tolower b then strcasecmp as bs else of_char (tolower a) - of_char (tolower b))"

function bsearch :: "(cstring \<times> 'e) list \<Rightarrow> cstring \<Rightarrow> nat \<Rightarrow> nat \<Rightarrow> (cstring \<times> 'e) option" where
  "bsearch tab key l u =
     (if l < u then
        let idx = (l + u) div 2; cmp = strcasecmp key (fst (tab ! idx))
        in if cmp < 0 then bsearch tab key l idx
           else if cmp > 0 then bsearch tab key (idx + 1) u
           else Some (tab ! idx)
      else None)"
  by pat_completeness auto
termination
  by (relation "measure (\<lambda>(tab, key, l, u). u - l)") auto

declare bsearch.simps [simp del]

text \<open>
  The node of a call that is abandoned because of an error is only tested for NULL and freed.
\<close>

definition crule_parsefunction :: "(cstring \<times> nat \<times> 'f) list \<Rightarrow> cstring
    \<Rightarrow> fault + (crule_errcode \<times> 'f crule_node option \<times> crule_token \<times> cstring)" where
  "crule_parsefunction tab s =
     (case crule_getword (CR_MAXARGLEN - 1) s of
        Inl f \<Rightarrow> Inl f
      | Inr (funcname, s1) \<Rightarrow>
     (case crule_gettoken None s1 of (e2, t2, s2) \<Rightarrow>
        if e2 \<noteq> CR_NOERR then Inr (e2, None, t2, s2)
        else if t2 \<noteq> CR_OPENPAREN then Inr (CR_EXPCTOPEN, None, t2, s2)
        else (case bsearch tab funcname 0 (length tab) of
          None \<Rightarrow> Inr (CR_UNKNWFUNC, None, t2, s2)
        | Some (_, reqnumargs, func) \<Rightarrow>
     (case crule_gettoken None s2 of (e3, t3, s3) \<Rightarrow>
        if e3 \<noteq> CR_NOERR then Inr (e3, None, t3, s3)
        else (case crule_parsearglist [] [] t3 s3 of
          Inl f \<Rightarrow> Inl f
        | Inr (e4, args, t4, s4) \<Rightarrow>
            let node = CFunc func args None
            in if e4 \<noteq> CR_NOERR then Inr (e4, Some node, t4, s4)
               else if t4 \<noteq> CR_CLOSEPAREN then Inr (CR_EXPCTCLOSE, Some node, t4, s4)
               else if reqnumargs \<noteq> length args then Inr (CR_ARGMISMAT, Some node, t4, s4)
               else (case crule_gettoken None s4 of (e5, t5, s5) \<Rightarrow>
                 if e5 \<noteq> CR_NOERR then Inr (e5, Some node, t5, s5)
                 else if IsComparisson t5 then
                   (case crule_gettoken None s5 of (e6, t6, s6) \<Rightarrow>
                      if e6 \<noteq> CR_NOERR then Inr (e6, Some node, t6, s6)
                      else if t6 \<noteq> CR_WORD then Inr (CR_EXPCTVALUE, Some node, t6, s6)
                      else (case crule_getword (CR_MAXARGLEN - 1) s6 of
                        Inl f \<Rightarrow> Inl f
                      | Inr (val, s7) \<Rightarrow>
                          (case crule_gettoken None s7 of (e8, t8, s8) \<Rightarrow>
                             if e8 \<noteq> CR_NOERR then Inr (e8, Some node, t8, s8)
                             else Inr (CR_NOERR, Some (CFunc func args (Some (t5, atoi val))), t8, s8))))
                 else Inr (CR_NOERR, Some node, t5, s5)))))))"

subsection \<open>Expressions\<close>

fun set_arg1 :: "'f crule_node \<Rightarrow> 'f crule_node option \<Rightarrow> 'f crule_node" where
  "set_arg1 (CAndOr is_or a b) x = CAndOr is_or a x"
| "set_arg1 n x = n"

definition attach :: "'f crule_node option \<Rightarrow> 'f crule_node option \<Rightarrow> 'f crule_node option" where
  "attach root x = (case root of Some r \<Rightarrow> Some (set_arg1 r x) | None \<Rightarrow> x)"

type_synonym 'f parse_result = "(fault + (crule_errcode \<times> 'f crule_node option \<times> crule_token \<times> cstring)) option"

text \<open>
  One iteration of each of the three parser functions, given the functions it calls; the
  primitive recursion over the fuel ties them together.
\<close>

definition orexpr_iter :: "('f crule_node option \<Rightarrow> crule_token \<Rightarrow> cstring \<Rightarrow> 'f parse_result)
    \<Rightarrow> ('f crule_node option \<Rightarrow> crule_token \<Rightarrow> cstring \<Rightarrow> 'f parse_result)
    \<Rightarrow> 'f crule_node option \<Rightarrow> crule_token \<Rightarrow> cstring \<Rightarrow> 'f parse_result" where
  "orexpr_iter parseandexpr again orroot tok s =
     (case parseandexpr None tok s of
        None \<Rightarrow> None
      | Some (Inl f) \<Rightarrow> Some (Inl f)
      | Some (Inr (errcode, andexpr, t, r)) \<Rightarrow>
          if errcode = CR_NOERR \<and> t = CR_OR then
            (let root' = Some (CAndOr True (attach orroot andexpr) None)
             in case crule_gettoken None r of (e', t', r') \<Rightarrow>
                  if e' = CR_NOERR then again root' t' r'
                  else Some (Inr (e', root', t', r')))
          else if Option.is_none orroot then Some (Inr (errcode, andexpr, t, r))
          else Some (Inr (if Option.is_none andexpr then CR_EXPCTAND else errcode, attach orroot andexpr, t, r)))"

definition andexpr_iter :: "(bool \<Rightarrow> crule_token \<Rightarrow> cstring \<Rightarrow> 'f parse_result)
    \<Rightarrow> ('f crule_node option \<Rightarrow> crule_token \<Rightarrow> cstring \<Rightarrow> 'f parse_result)
    \<Rightarrow> 'f crule_node option \<Rightarrow> crule_token \<Rightarrow> cstring \<Rightarrow> 'f parse_result" where
  "andexpr_iter parseprimary again androot tok s =
     (case parseprimary False tok s of
        None \<Rightarrow> None
      | Some (Inl f) \<Rightarrow> Some (Inl f)
      | Some (Inr (errcode, primary, t, r)) \<Rightarrow>
          if errcode = CR_NOERR \<and> t = CR_AND then
            (let root' = Some (CAndOr False (attach androot primary) None)
             in case crule_gettoken None r of (e', t', r') \<Rightarrow>
                  if e' = CR_NOERR then again root' t' r'
                  else Some (Inr (e', root', t', r')))
          else if Option.is_none androot then Some (Inr (errcode, primary, t, r))
          else Some (Inr (if Option.is_none primary then CR_EXPCTPRIM else errcode, attach androot primary, t, r)))"

definition primary_iter :: "(cstring \<times> nat \<times> 'f) list
    \<Rightarrow> ('f crule_node option \<Rightarrow> crule_token \<Rightarrow> cstring \<Rightarrow> 'f parse_result)
    \<Rightarrow> (bool \<Rightarrow> crule_token \<Rightarrow> cstring \<Rightarrow> 'f parse_result)
    \<Rightarrow> bool \<Rightarrow> crule_token \<Rightarrow> cstring \<Rightarrow> 'f parse_result" where
  "primary_iter tab parseorexpr again nested tok s =
     (if tok = CR_OPENPAREN then
        (case crule_gettoken None s of (e1, t1, s1) \<Rightarrow>
           if e1 \<noteq> CR_NOERR then Some (Inr (e1, None, t1, s1))
           else (case parseorexpr None t1 s1 of
                   None \<Rightarrow> None
                 | Some (Inl f) \<Rightarrow> Some (Inl f)
                 | Some (Inr (e2, node, t2, s2)) \<Rightarrow>
                     if e2 \<noteq> CR_NOERR then Some (Inr (e2, node, t2, s2))
                     else if Option.is_none node then Some (Inr (CR_EXPCTAND, node, t2, s2))
                     else if t2 \<noteq> CR_CLOSEPAREN then Some (Inr (CR_EXPCTCLOSE, node, t2, s2))
                     else (case crule_gettoken None s2 of (e3, t3, s3) \<Rightarrow> Some (Inr (e3, node, t3, s3)))))
      else if tok = CR_NOT then
        (case crule_gettoken None s of (e1, t1, s1) \<Rightarrow>
           if e1 \<noteq> CR_NOERR then Some (Inr (e1, Some (CNot None), t1, s1))
           else (case again True t1 s1 of
                   None \<Rightarrow> None
                 | Some (Inl f) \<Rightarrow> Some (Inl f)
                 | Some (Inr (e2, node, t2, s2)) \<Rightarrow> Some (Inr (e2, Some (CNot node), t2, s2))))
      else if tok = CR_WORD then Some (crule_parsefunction tab s)
      else Some (Inr (if nested then CR_EXPCTPRIM else CR_NOERR, None, tok, s)))"

primrec crule_parsers :: "(cstring \<times> nat \<times> 'f) list \<Rightarrow> nat
    \<Rightarrow> ('f crule_node option \<Rightarrow> crule_token \<Rightarrow> cstring \<Rightarrow> 'f parse_result)
     \<times> ('f crule_node option \<Rightarrow> crule_token \<Rightarrow> cstring \<Rightarrow> 'f parse_result)
     \<times> (bool \<Rightarrow> crule_token \<Rightarrow> cstring \<Rightarrow> 'f parse_result)" where
  "crule_parsers tab 0 = (\<lambda>_ _ _. None, \<lambda>_ _ _. None, \<lambda>_ _ _. None)"
| "crule_parsers tab (Suc n) =
     (case crule_parsers tab n of (parseorexpr, parseandexpr, parseprimary) \<Rightarrow>
        (orexpr_iter parseandexpr parseorexpr, andexpr_iter parseprimary parseandexpr,
         primary_iter tab parseorexpr parseprimary))"

definition crule_parseorexpr :: "(cstring \<times> nat \<times> 'f) list \<Rightarrow> nat \<Rightarrow> 'f crule_node option \<Rightarrow> crule_token \<Rightarrow> cstring \<Rightarrow> 'f parse_result" where
  "crule_parseorexpr tab n = fst (crule_parsers tab n)"

definition crule_parseandexpr :: "(cstring \<times> nat \<times> 'f) list \<Rightarrow> nat \<Rightarrow> 'f crule_node option \<Rightarrow> crule_token \<Rightarrow> cstring \<Rightarrow> 'f parse_result" where
  "crule_parseandexpr tab n = fst (snd (crule_parsers tab n))"

definition crule_parseprimary :: "(cstring \<times> nat \<times> 'f) list \<Rightarrow> nat \<Rightarrow> bool \<Rightarrow> crule_token \<Rightarrow> cstring \<Rightarrow> 'f parse_result" where
  "crule_parseprimary tab n = snd (snd (crule_parsers tab n))"

lemma parsers_0:
  "crule_parseorexpr tab 0 root tok s = None"
  "crule_parseandexpr tab 0 root tok s = None"
  "crule_parseprimary tab 0 nested tok s = None"
  by (simp_all add: crule_parseorexpr_def crule_parseandexpr_def crule_parseprimary_def)

lemma parsers_Suc:
  "crule_parseorexpr tab (Suc n) = orexpr_iter (crule_parseandexpr tab n) (crule_parseorexpr tab n)"
  "crule_parseandexpr tab (Suc n) = andexpr_iter (crule_parseprimary tab n) (crule_parseandexpr tab n)"
  "crule_parseprimary tab (Suc n) = primary_iter tab (crule_parseorexpr tab n) (crule_parseprimary tab n)"
  by (simp_all add: crule_parseorexpr_def crule_parseandexpr_def crule_parseprimary_def split: prod.splits)

definition parse_fuel :: "cstring \<Rightarrow> nat" where
  "parse_fuel rule = 6 * length rule + 6"

text \<open>
  The common part of \<^verbatim>\<open>crule_parse\<close> and \<^verbatim>\<open>crule_test\<close>: the error code and the tree; the
  former returns the tree or NULL, the latter 0 or the error code plus one.
\<close>

definition crule_parse_rule :: "(cstring \<times> nat \<times> 'f) list \<Rightarrow> cstring
    \<Rightarrow> (fault + (crule_errcode \<times> 'f crule_node option)) option" where
  "crule_parse_rule tab rule =
     (case crule_gettoken None rule of (e1, t1, s1) \<Rightarrow>
        if e1 \<noteq> CR_NOERR then Some (Inr (e1, None))
        else (case crule_parseorexpr tab (parse_fuel rule) None t1 s1 of
                None \<Rightarrow> None
              | Some (Inl f) \<Rightarrow> Some (Inl f)
              | Some (Inr (e2, root, t2, s2)) \<Rightarrow>
                  if e2 \<noteq> CR_NOERR then Some (Inr (e2, None))
                  else if Option.is_none root then Some (Inr (CR_EXPCTOR, None))
                  else if t2 = CR_END then Some (Inr (CR_NOERR, root))
                  else Some (Inr (CR_UNEXPCTTOK, None))))"

definition crule_parse :: "cstring \<Rightarrow> (fault + crule_func crule_node option) option" where
  "crule_parse rule = map_option (map_sum id snd) (crule_parse_rule crule_funclist rule)"

fun errcode_num :: "crule_errcode \<Rightarrow> nat" where
  "errcode_num CR_NOERR = 0"
| "errcode_num CR_UNEXPCTTOK = 1"
| "errcode_num CR_UNKNWTOK = 2"
| "errcode_num CR_EXPCTAND = 3"
| "errcode_num CR_EXPCTOR = 4"
| "errcode_num CR_EXPCTPRIM = 5"
| "errcode_num CR_EXPCTOPEN = 6"
| "errcode_num CR_EXPCTCLOSE = 7"
| "errcode_num CR_UNKNWFUNC = 8"
| "errcode_num CR_ARGMISMAT = 9"
| "errcode_num CR_EXPCTVALUE = 10"

definition crule_test :: "cstring \<Rightarrow> (fault + nat) option" where
  "crule_test rule = map_option (map_sum id (\<lambda>(e, root). if e = CR_NOERR then 0 else errcode_num e + 1))
     (crule_parse_rule crule_funclist rule)"

definition crule_errstr :: "cstring list" where
  "crule_errstr = [''Unknown error'', ''Unexpected token'', ''Unknown token'', ''And expr expected'', ''Or expr expected'',
     ''Primary expected'', ''( expected'', '') expected'', ''Unknown function'', ''Argument mismatch'',
     ''Missing value in comparisson'']"

definition crule_errstring :: "nat \<Rightarrow> fault + cstring" where
  "crule_errstring errcode =
     (if errcode = 0 then Inr ''No error''
      else if errcode - 1 < length crule_errstr then Inr (crule_errstr ! (errcode - 1))
      else Inl Over_Read)"

subsection \<open>Evaluation\<close>

definition func_test :: "(crule_token \<times> int) option \<Rightarrow> int \<Rightarrow> int" where
  "func_test test ret =
     (case test of
        Some (CR_EQUAL, v) \<Rightarrow> if ret = v then 1 else 0
      | Some (CR_LESS_THAN, v) \<Rightarrow> if ret < v then 1 else 0
      | Some (CR_MORE_THAN, v) \<Rightarrow> if ret > v then 1 else 0
      | _ \<Rightarrow> ret)"

fun crule_eval :: "('f \<Rightarrow> cstring list \<Rightarrow> fault + int) \<Rightarrow> 'f crule_node \<Rightarrow> fault + int" where
  "crule_eval call (CAndOr is_or a b) =
     (case a of
        None \<Rightarrow> Inl Null_Deref
      | Some x \<Rightarrow>
          (case crule_eval call x of
             Inl f \<Rightarrow> Inl f
           | Inr result1 \<Rightarrow>
               if is_or \<and> result1 \<noteq> 0 then Inr 1
               else if \<not> is_or \<and> result1 = 0 then Inr 0
               else (case b of
                       None \<Rightarrow> Inl Null_Deref
                     | Some y \<Rightarrow>
                         (case crule_eval call y of
                            Inl f \<Rightarrow> Inl f
                          | Inr result2 \<Rightarrow> Inr (if result2 \<noteq> 0 then 1 else 0)))))"
| "crule_eval call (CNot a) =
     (case a of
        None \<Rightarrow> Inl Null_Deref
      | Some x \<Rightarrow> (case crule_eval call x of Inl f \<Rightarrow> Inl f | Inr result \<Rightarrow> Inr (if result = 0 then 1 else 0)))"
| "crule_eval call (CFunc f args test) =
     (case call f args of Inl flt \<Rightarrow> Inl flt | Inr ret \<Rightarrow> Inr (func_test test ret))"

section \<open>The parser always returns\<close>

definition join_word :: "cstring \<Rightarrow> cstring \<Rightarrow> cstring" where
  "join_word cur word = (if cur \<noteq> [] then
     (if length cur + length word < CR_MAXARGLEN - 1 then cur @ '' '' @ word else cur) else word)"

lemma arglist_word:
  "crule_getword (CR_MAXARGLEN - 1) s = Inr (w, r) \<Longrightarrow> crule_gettoken None r = (e1, t1, s1) \<Longrightarrow>
   crule_parsearglist args cur CR_WORD s =
     (if e1 = CR_NOERR then crule_parsearglist args (join_word cur w) t1 s1 else Inr (e1, args, t1, s1))"
  by (subst crule_parsearglist.simps) (simp add: join_word_def)

lemma arglist_word_fault:
  "crule_getword (CR_MAXARGLEN - 1) s = Inl f \<Longrightarrow> crule_parsearglist args cur CR_WORD s = Inl f"
  by (subst crule_parsearglist.simps) simp

lemma arglist_overflow:
  "tok \<noteq> CR_WORD \<Longrightarrow> cur \<noteq> [] \<and> CR_MAXARGS \<le> length args \<Longrightarrow> crule_parsearglist args cur tok s = Inl Array_Overflow"
  by (subst crule_parsearglist.simps) simp

lemma arglist_end:
  "tok \<noteq> CR_WORD \<Longrightarrow> tok \<noteq> CR_COMMA \<Longrightarrow> \<not> (cur \<noteq> [] \<and> CR_MAXARGS \<le> length args) \<Longrightarrow>
   crule_parsearglist args cur tok s = Inr (CR_NOERR, args @ (if cur = [] then [] else [cur]), tok, s)"
  by (subst crule_parsearglist.simps) (simp add: Let_def)

lemma arglist_comma:
  "crule_gettoken None s = (e1, t1, s1) \<Longrightarrow> \<not> (cur \<noteq> [] \<and> CR_MAXARGS \<le> length args) \<Longrightarrow>
   crule_parsearglist args cur CR_COMMA s =
     (if e1 = CR_NOERR then crule_parsearglist (args @ (if cur = [] then [] else [cur])) [] t1 s1
      else Inr (e1, args @ (if cur = [] then [] else [cur]), t1, s1))"
  by (subst crule_parsearglist.simps, cases "cur = []") (simp_all add: Let_def)

lemma word_token_pot:
  "crule_getword (CR_MAXARGLEN - 1) s = Inr (w, r) \<Longrightarrow> crule_gettoken None r = (e, t, s') \<Longrightarrow> pot t s' < pot CR_WORD s"
  using word_pot [of "CR_MAXARGLEN - 1" s w r e t s'] by (simp add: CR_MAXARGLEN_def pot_def)

lemma comma_token_pot: "crule_gettoken None s = (e, t, s') \<Longrightarrow> pot t s' < pot CR_COMMA s"
  using gettoken_pot [of None s e t s'] by (simp add: pot_def)

lemma arglist_induct [case_names word comma stop]:
  assumes "\<And>args cur s. (\<And>w r e1 t1 s1. crule_getword (CR_MAXARGLEN - 1) s = Inr (w, r) \<Longrightarrow>
      crule_gettoken None r = (e1, t1, s1) \<Longrightarrow> P args (join_word cur w) t1 s1) \<Longrightarrow> P args cur CR_WORD s"
    and "\<And>args cur s. (\<And>e1 t1 s1. crule_gettoken None s = (e1, t1, s1) \<Longrightarrow>
      P (args @ (if cur = [] then [] else [cur])) [] t1 s1) \<Longrightarrow> P args cur CR_COMMA s"
    and "\<And>args cur tok s. tok \<noteq> CR_WORD \<Longrightarrow> tok \<noteq> CR_COMMA \<Longrightarrow> P args cur tok s"
  shows "P args cur tok s"
proof (induction "pot tok s" arbitrary: args cur tok s rule: less_induct)
  case less
  consider "tok = CR_WORD" | "tok = CR_COMMA" | "tok \<noteq> CR_WORD" "tok \<noteq> CR_COMMA" by blast
  then show ?case
  proof cases
    case 1
    show ?thesis unfolding 1 by (rule assms(1), rule less) (simp add: 1 word_token_pot)
  next
    case 2
    show ?thesis unfolding 2 by (rule assms(2), rule less) (simp add: 2 comma_token_pot)
  next
    case 3
    then show ?thesis by (rule assms(3))
  qed
qed

lemma arglist_pot: "crule_parsearglist args cur tok s = Inr (e, args', t, s') \<Longrightarrow> pot t s' \<le> pot tok s"
proof (induction args cur tok s rule: arglist_induct)
  case (word args cur s)
  obtain w r where w: "crule_getword (CR_MAXARGLEN - 1) s = Inr (w, r)"
    using word.prems arglist_word_fault by (cases "crule_getword (CR_MAXARGLEN - 1) s") auto
  obtain e1 t1 s1 where g: "crule_gettoken None r = (e1, t1, s1)" by (metis prod_cases3)
  show ?case
    using word.IH [OF w g] word.prems word_token_pot [OF w g] arglist_word [OF w g] by (auto split: if_splits)
next
  case (comma args cur s)
  obtain e1 t1 s1 where g: "crule_gettoken None s = (e1, t1, s1)" by (metis prod_cases3)
  have ok: "\<not> (cur \<noteq> [] \<and> CR_MAXARGS \<le> length args)" using comma.prems arglist_overflow [of CR_COMMA] by auto
  show ?case
    using comma.IH [OF g] comma.prems comma_token_pot [OF g] arglist_comma [OF g ok]
    by (simp split: if_split_asm)
next
  case (stop args cur tok s)
  then show ?case by (cases "cur \<noteq> [] \<and> CR_MAXARGS \<le> length args") (auto simp: arglist_overflow arglist_end)
qed

lemma parsefunction_pot:
  assumes "crule_parsefunction tab s = Inr (e, node, t, s')"
  shows "pot t s' \<le> 2 * length s"
proof -
  obtain name s1 where w: "crule_getword (CR_MAXARGLEN - 1) s = Inr (name, s1)"
    using assms by (auto simp: crule_parsefunction_def split: sum.splits)
  obtain e2 t2 s2 where g2: "crule_gettoken None s1 = (e2, t2, s2)" by (metis prod_cases3)
  obtain e3 t3 s3 where g3: "crule_gettoken None s2 = (e3, t3, s3)" by (metis prod_cases3)
  have p2: "pot t2 s2 \<le> 2 * length s" using word_pot [OF w _ g2] by (simp add: CR_MAXARGLEN_def)
  have p3: "pot t3 s3 \<le> 2 * length s2 + 1" by (rule gettoken_pot [OF g3])
  show ?thesis
  proof (cases "e2 = CR_NOERR \<and> t2 = CR_OPENPAREN \<and> bsearch tab name 0 (length tab) \<noteq> None \<and> e3 = CR_NOERR")
    case False
    then show ?thesis
      using assms w g2 g3 p2 p3
      by (auto simp: crule_parsefunction_def pot_def [of CR_OPENPAREN] split: if_split_asm option.split_asm)
  next
    case True
    then have s2: "2 * length s2 + 1 < 2 * length s" using p2 by (simp add: pot_def)
    obtain nm req func where b: "bsearch tab name 0 (length tab) = Some (nm, req, func)" using True by auto
    obtain e4 args t4 s4 where a: "crule_parsearglist [] [] t3 s3 = Inr (e4, args, t4, s4)"
      using assms w g2 g3 b True by (auto simp: crule_parsefunction_def split: sum.split_asm)
    have p4: "pot t4 s4 < 2 * length s" using arglist_pot [OF a] p3 s2 by simp
    obtain e5 t5 s5 where g5: "crule_gettoken None s4 = (e5, t5, s5)" by (metis prod_cases3)
    obtain e6 t6 s6 where g6: "crule_gettoken None s5 = (e6, t6, s6)" by (metis prod_cases3)
    have p5: "t4 = CR_CLOSEPAREN \<Longrightarrow> pot t5 s5 < 2 * length s" using p4 gettoken_pot [OF g5] by (simp add: pot_def)
    have p6: "t4 = CR_CLOSEPAREN \<Longrightarrow> IsComparisson t5 \<Longrightarrow> pot t6 s6 < 2 * length s"
      using p5 gettoken_pot [OF g6] by (auto simp: pot_def IsComparisson_def)
    have p8: "pot t8 s8 \<le> 2 * length s6"
      if "crule_getword (CR_MAXARGLEN - 1) s6 = Inr (v, s7)" "crule_gettoken None s7 = (e8, t8, s8)" for v s7 e8 t8 s8
      using word_pot [OF that(1) _ that(2)] by (simp add: CR_MAXARGLEN_def)
    have s6: "t6 = CR_WORD \<Longrightarrow> pot t6 s6 < 2 * length s \<Longrightarrow> 2 * length s6 < 2 * length s" by (simp add: pot_def)
    show ?thesis
      using assms w g2 g3 b a True p4 p5 p6 s6 g5 g6
      by (auto simp: crule_parsefunction_def Let_def simp del: One_nat_def dest: p8 split: if_split_asm sum.split_asm prod.split_asm)
  qed
qed

definition good :: "nat \<Rightarrow> 'f parse_result \<Rightarrow> bool" where
  "good p res = (case res of None \<Rightarrow> False | Some (Inl f) \<Rightarrow> True | Some (Inr (e, node, t, s)) \<Rightarrow> pot t s \<le> p)"

lemma good_cases:
  assumes "good p res"
  obtains f where "res = Some (Inl f)" | e node t s where "res = Some (Inr (e, node, t, s))" "pot t s \<le> p"
  using assms by (auto simp: good_def split: option.splits sum.splits prod.splits)

lemma good_simps [simp]:
  "\<not> good p None" "good p (Some (Inl f))" "good p (Some (Inr (e, node, t, s))) \<longleftrightarrow> pot t s \<le> p"
  by (simp_all add: good_def)

lemma good_mono: "good p res \<Longrightarrow> p \<le> q \<Longrightarrow> good q res"
  by (erule good_cases) auto

lemma op_pot: "pot tok s \<le> p \<Longrightarrow> tok \<noteq> CR_END \<Longrightarrow> tok \<noteq> CR_UNKNOWN \<Longrightarrow> tok \<noteq> CR_WORD \<Longrightarrow>
   crule_gettoken None s = (e, t, s') \<Longrightarrow> pot t s' < p"
proof -
  assume a: "pot tok s \<le> p" "tok \<noteq> CR_END" "tok \<noteq> CR_UNKNOWN" "tok \<noteq> CR_WORD" and g: "crule_gettoken None s = (e, t, s')"
  have "pot tok s = 2 * length s + 2" using a by (cases tok) (auto simp: pot_def)
  then show "pot t s' < p" using a gettoken_pot [OF g] by simp
qed

lemma orexpr_iter_good:
  assumes "good (pot tok s) (pa None tok s)"
    and "\<And>root' t' s'. pot t' s' < pot tok s \<Longrightarrow> good (pot t' s') (po root' t' s')"
  shows "good (pot tok s) (orexpr_iter pa po root tok s)"
  using assms(1)
proof (cases rule: good_cases)
  case (2 e node t r)
  obtain e' t' r' where g: "crule_gettoken None r = (e', t', r')" by (metis prod_cases3)
  have "t = CR_OR \<Longrightarrow> pot t' r' < pot tok s" using op_pot [OF 2(2) _ _ _ g] by simp
  moreover from this have "t = CR_OR \<Longrightarrow> good (pot tok s) (po root' t' r')" for root'
    using good_mono [OF assms(2)] less_imp_le by blast
  ultimately show ?thesis using 2 g by (auto simp: orexpr_iter_def Let_def)
qed (simp add: orexpr_iter_def)

lemma andexpr_iter_good:
  assumes "good (pot tok s) (pp False tok s)"
    and "\<And>root' t' s'. pot t' s' < pot tok s \<Longrightarrow> good (pot t' s') (pa root' t' s')"
  shows "good (pot tok s) (andexpr_iter pp pa root tok s)"
  using assms(1)
proof (cases rule: good_cases)
  case (2 e node t r)
  obtain e' t' r' where g: "crule_gettoken None r = (e', t', r')" by (metis prod_cases3)
  have "t = CR_AND \<Longrightarrow> pot t' r' < pot tok s" using op_pot [OF 2(2) _ _ _ g] by simp
  moreover from this have "t = CR_AND \<Longrightarrow> good (pot tok s) (pa root' t' r')" for root'
    using good_mono [OF assms(2)] less_imp_le by blast
  ultimately show ?thesis using 2 g by (auto simp: andexpr_iter_def Let_def)
qed (simp add: andexpr_iter_def)

lemma primary_iter_good:
  assumes "\<And>root' t' s'. pot t' s' < pot tok s \<Longrightarrow> good (pot t' s') (po root' t' s')"
    and "\<And>nested' t' s'. pot t' s' < pot tok s \<Longrightarrow> good (pot t' s') (pp nested' t' s')"
  shows "good (pot tok s) (primary_iter tab po pp nested tok s)"
proof -
  obtain e1 t1 s1 where g: "crule_gettoken None s = (e1, t1, s1)" by (metis prod_cases3)
  have p1: "tok = CR_OPENPAREN \<or> tok = CR_NOT \<Longrightarrow> pot t1 s1 < pot tok s"
    using op_pot [OF order_refl _ _ _ g] by auto
  consider "tok = CR_OPENPAREN" | "tok = CR_NOT" | "tok = CR_WORD" | "tok \<noteq> CR_OPENPAREN" "tok \<noteq> CR_NOT" "tok \<noteq> CR_WORD" by blast
  then show ?thesis
  proof cases
    case 1
    from assms(1) [OF p1] 1 have "good (pot t1 s1) (po None t1 s1)" by simp
    then show ?thesis
    proof (cases rule: good_cases)
      case (2 e2 node t2 s2)
      obtain e3 t3 s3 where g3: "crule_gettoken None s2 = (e3, t3, s3)" by (metis prod_cases3)
      have "t2 = CR_CLOSEPAREN \<Longrightarrow> pot t3 s3 < pot t1 s1" using op_pot [OF 2(2) _ _ _ g3] by simp
      then show ?thesis using 1 2 g g3 p1 by (auto simp: primary_iter_def)
    qed (use 1 g p1 in \<open>auto simp: primary_iter_def\<close>)
  next
    case 2
    from assms(2) [OF p1] 2 have "good (pot t1 s1) (pp True t1 s1)" by simp
    then show ?thesis
      by (cases rule: good_cases) (use 2 g p1 in \<open>auto simp: primary_iter_def\<close>)
  next
    case 3
    show ?thesis
    proof (cases "crule_parsefunction tab s")
      case (Inr res)
      then show ?thesis using 3 parsefunction_pot [of tab s]
        by (cases res) (fastforce simp: primary_iter_def pot_def [of CR_WORD])
    qed (simp add: 3 primary_iter_def)
  qed (simp add: primary_iter_def)
qed

lemma parsers_good:
  "(\<forall>root tok s. 3 * pot tok s + 2 < n \<longrightarrow> good (pot tok s) (crule_parseorexpr tab n root tok s))
   \<and> (\<forall>root tok s. 3 * pot tok s + 1 < n \<longrightarrow> good (pot tok s) (crule_parseandexpr tab n root tok s))
   \<and> (\<forall>nested tok s. 3 * pot tok s < n \<longrightarrow> good (pot tok s) (crule_parseprimary tab n nested tok s))"
proof (induction n)
  case (Suc n)
  show ?case
    unfolding parsers_Suc
    by (intro conjI allI impI orexpr_iter_good andexpr_iter_good primary_iter_good) (use Suc in auto)
qed simp

lemma parse_rule_total: "crule_parse_rule tab rule \<noteq> None"
proof -
  obtain e1 t1 s1 where g: "crule_gettoken None rule = (e1, t1, s1)" by (metis prod_cases3)
  have "3 * pot t1 s1 + 2 < parse_fuel rule" using gettoken_pot [OF g] by (simp add: parse_fuel_def)
  then have "good (pot t1 s1) (crule_parseorexpr tab (parse_fuel rule) None t1 s1)" using parsers_good by blast
  then show ?thesis
    by (cases rule: good_cases) (simp_all add: crule_parse_rule_def g)
qed

section \<open>More fuel changes nothing\<close>

definition ext3 :: "('a \<Rightarrow> 'b \<Rightarrow> 'c \<Rightarrow> 'd option) \<Rightarrow> ('a \<Rightarrow> 'b \<Rightarrow> 'c \<Rightarrow> 'd option) \<Rightarrow> bool" where
  "ext3 f g \<longleftrightarrow> (\<forall>a b c d. f a b c = Some d \<longrightarrow> g a b c = Some d)"

lemma ext3D: "ext3 f g \<Longrightarrow> f a b c = Some d \<Longrightarrow> g a b c = Some d"
  by (simp add: ext3_def)

lemma orexpr_iter_ext:
  assumes "ext3 pa pa'" "ext3 po po'"
  shows "ext3 (orexpr_iter pa po) (orexpr_iter pa' po')"
  unfolding ext3_def
proof (intro allI impI)
  fix root tok s d assume *: "orexpr_iter pa po root tok s = Some d"
  then obtain r where r: "pa None tok s = Some r" by (auto simp: orexpr_iter_def split: option.splits)
  show "orexpr_iter pa' po' root tok s = Some d"
    using * ext3D [OF assms(1) r] ext3D [OF assms(2)] r
    by (cases r) (auto simp: orexpr_iter_def Let_def split: prod.splits if_splits)
qed

lemma andexpr_iter_ext:
  assumes "ext3 pp pp'" "ext3 pa pa'"
  shows "ext3 (andexpr_iter pp pa) (andexpr_iter pp' pa')"
  unfolding ext3_def
proof (intro allI impI)
  fix root tok s d assume *: "andexpr_iter pp pa root tok s = Some d"
  then obtain r where r: "pp False tok s = Some r" by (auto simp: andexpr_iter_def split: option.splits)
  show "andexpr_iter pp' pa' root tok s = Some d"
    using * ext3D [OF assms(1) r] ext3D [OF assms(2)] r
    by (cases r) (auto simp: andexpr_iter_def Let_def split: prod.splits if_splits)
qed

lemma primary_iter_ext:
  assumes "ext3 po po'" "ext3 pp pp'"
  shows "ext3 (primary_iter tab po pp) (primary_iter tab po' pp')"
  unfolding ext3_def
proof (intro allI impI)
  fix nested tok s d assume *: "primary_iter tab po pp nested tok s = Some d"
  obtain e1 t1 s1 where g: "crule_gettoken None s = (e1, t1, s1)" by (metis prod_cases3)
  show "primary_iter tab po' pp' nested tok s = Some d"
  proof (cases "e1 = CR_NOERR \<and> (tok = CR_OPENPAREN \<or> tok = CR_NOT)")
    case False
    then show ?thesis using * g by (auto simp: primary_iter_def)
  next
    case True
    show ?thesis
    proof (cases "tok = CR_OPENPAREN")
      case op: True
      then obtain r where r: "po None t1 s1 = Some r" using * g True by (auto simp: primary_iter_def split: option.splits)
      show ?thesis using * g True op r ext3D [OF assms(1) r] by (simp add: primary_iter_def)
    next
      case op: False
      then obtain r where r: "pp True t1 s1 = Some r" using * g True by (auto simp: primary_iter_def split: option.splits)
      show ?thesis using * g True op r ext3D [OF assms(2) r] by (simp add: primary_iter_def)
    qed
  qed
qed

lemma parsers_ext_Suc:
  "ext3 (crule_parseorexpr tab n) (crule_parseorexpr tab (Suc n))
   \<and> ext3 (crule_parseandexpr tab n) (crule_parseandexpr tab (Suc n))
   \<and> ext3 (crule_parseprimary tab n) (crule_parseprimary tab (Suc n))"
proof (induction n)
  case 0
  show ?case by (simp add: ext3_def parsers_0)
next
  case (Suc n)
  have "ext3 (orexpr_iter (crule_parseandexpr tab n) (crule_parseorexpr tab n))
      (orexpr_iter (crule_parseandexpr tab (Suc n)) (crule_parseorexpr tab (Suc n)))"
    using Suc by (blast intro: orexpr_iter_ext)
  moreover have "ext3 (andexpr_iter (crule_parseprimary tab n) (crule_parseandexpr tab n))
      (andexpr_iter (crule_parseprimary tab (Suc n)) (crule_parseandexpr tab (Suc n)))"
    using Suc by (blast intro: andexpr_iter_ext)
  moreover have "ext3 (primary_iter tab (crule_parseorexpr tab n) (crule_parseprimary tab n))
      (primary_iter tab (crule_parseorexpr tab (Suc n)) (crule_parseprimary tab (Suc n)))"
    using Suc by (blast intro: primary_iter_ext)
  ultimately show ?case unfolding parsers_Suc [symmetric] by blast
qed

lemma parseorexpr_mono:
  "n \<le> m \<Longrightarrow> crule_parseorexpr tab n root tok s = Some r \<Longrightarrow> crule_parseorexpr tab m root tok s = Some r"
proof (induction m)
  case (Suc m)
  then show ?case
    by (cases "n = Suc m") (auto simp: le_Suc_eq intro: ext3D [OF parsers_ext_Suc [THEN conjunct1]])
qed simp

end
