(* ===== verification/Crule_Grammar.thy ===== *)
theory Crule_Grammar
  imports Crule
begin

text \<open>
  What the rule parser accepts and what accepted rules mean: rules as abstract syntax with a
  printer and a truth value, the round trip through the parser, and the binary search in the
  function table against its linear reading.
\<close>

section \<open>Abstract syntax\<close>

datatype rexp =
    ROr rexp rexp
  | RAnd rexp rexp
  | RNot rexp
  | RCall cstring "cstring list" "(crule_token \<times> cstring) option"

text \<open>Level 0 prints an or-expression, level 1 an and-expression, level 2 a primary.\<close>

definition quote_arg :: "cstring \<Rightarrow> cstring" where
  "quote_arg a = CHR 0x27 # a @ [CHR 0x27]"

fun print_args :: "cstring list \<Rightarrow> cstring" where
  "print_args [] = []"
| "print_args [a] = quote_arg a"
| "print_args (a # b # as) = quote_arg a @ '','' @ print_args (b # as)"

fun print_test :: "(crule_token \<times> cstring) option \<Rightarrow> cstring" where
  "print_test None = []"
| "print_test (Some (CR_EQUAL, v)) = ''=='' @ v"
| "print_test (Some (CR_LESS_THAN, v)) = ''<'' @ v"
| "print_test (Some (t, v)) = ''>'' @ v"

fun print_rule :: "nat \<Rightarrow> rexp \<Rightarrow> cstring" where
  "print_rule l (ROr a b) =
     (if l = 0 then print_rule 0 a @ ''||'' @ print_rule 1 b
      else ''('' @ print_rule 0 a @ ''||'' @ print_rule 1 b @ '')'')"
| "print_rule l (RAnd a b) =
     (if l \<le> 1 then print_rule 1 a @ ''&&'' @ print_rule 2 b
      else ''('' @ print_rule 1 a @ ''&&'' @ print_rule 2 b @ '')'')"
| "print_rule l (RNot a) = ''!'' @ print_rule 2 a"
| "print_rule l (RCall name args test) = name @ ''('' @ print_args args @ '')'' @ print_test test"

definition word_ok :: "cstring \<Rightarrow> bool" where
  "word_ok w \<longleftrightarrow> w \<noteq> [] \<and> list_all wordchar w \<and> length w < CR_MAXARGLEN"

definition arg_ok :: "cstring \<Rightarrow> bool" where
  "arg_ok a \<longleftrightarrow> a \<noteq> [] \<and> CHR 0x27 \<notin> set a \<and> length a < CR_MAXARGLEN"

definition test_ok :: "(crule_token \<times> cstring) option \<Rightarrow> bool" where
  "test_ok test = (case test of None \<Rightarrow> True | Some (t, v) \<Rightarrow> IsComparisson t \<and> word_ok v)"

definition lookup :: "(cstring \<times> nat \<times> 'f) list \<Rightarrow> cstring \<Rightarrow> (nat \<times> 'f) option" where
  "lookup tab name = map_option snd (find (\<lambda>e. strcaseeq (fst e) name) tab)"

fun rule_ok :: "(cstring \<times> nat \<times> 'f) list \<Rightarrow> rexp \<Rightarrow> bool" where
  "rule_ok tab (ROr a b) \<longleftrightarrow> rule_ok tab a \<and> rule_ok tab b"
| "rule_ok tab (RAnd a b) \<longleftrightarrow> rule_ok tab a \<and> rule_ok tab b"
| "rule_ok tab (RNot a) \<longleftrightarrow> rule_ok tab a"
| "rule_ok tab (RCall name args test) \<longleftrightarrow>
     word_ok name \<and> map_option fst (lookup tab name) = Some (length args) \<and> length args \<le> CR_MAXARGS
     \<and> list_all arg_ok args \<and> test_ok test"

fun tree :: "(cstring \<times> nat \<times> 'f) list \<Rightarrow> rexp \<Rightarrow> 'f crule_node" where
  "tree tab (ROr a b) = CAndOr True (Some (tree tab a)) (Some (tree tab b))"
| "tree tab (RAnd a b) = CAndOr False (Some (tree tab a)) (Some (tree tab b))"
| "tree tab (RNot a) = CNot (Some (tree tab a))"
| "tree tab (RCall name args test) = CFunc (snd (the (lookup tab name))) args (map_option (map_prod id atoi) test)"

section \<open>Binary search\<close>

definition low_codes :: "cstring \<Rightarrow> int list" where
  "low_codes s = map (\<lambda>c. of_char (tolower c)) s"

lemma of_char_tolower_pos: "c \<noteq> NUL \<Longrightarrow> 0 < (of_char (tolower c) :: int)"
proof -
  assume "c \<noteq> NUL"
  then have "of_char c \<noteq> (0 :: nat)"
    using of_nat_of_char [of c, where ?'a = int, symmetric] by (auto simp: of_char_0_iff [symmetric])
  then have "0 < (of_char (tolower c) :: nat)" by (simp add: of_char_tolower)
  then show ?thesis using of_nat_of_char [of "tolower c", where ?'a = int, symmetric] by simp
qed

lemma of_char_tolower_inj: "(of_char (tolower a) :: int) = of_char (tolower b) \<longleftrightarrow> tolower a = tolower b"
  by (simp add: of_char_eq_iff)

lemma strcasecmp_less: "cstr a \<Longrightarrow> cstr b \<Longrightarrow> strcasecmp a b < 0 \<longleftrightarrow> low_codes a < low_codes b"
  by (induction a b rule: strcasecmp.induct) (auto simp: low_codes_def of_char_tolower_pos of_char_tolower_inj dest: of_char_tolower_pos)

lemma strcasecmp_eq: "cstr a \<Longrightarrow> cstr b \<Longrightarrow> strcasecmp a b = 0 \<longleftrightarrow> low_codes a = low_codes b"
  by (induction a b rule: strcasecmp.induct) (auto simp: low_codes_def of_char_tolower_inj dest: of_char_tolower_pos)

lemma low_codes_eq: "low_codes a = low_codes b \<longleftrightarrow> strcaseeq a b"
  unfolding low_codes_def strcaseeq_def
  by (induction a arbitrary: b) (auto simp: of_char_tolower_inj Cons_eq_map_conv map_eq_Cons_conv)

definition names_sorted :: "cstring list \<Rightarrow> bool" where
  "names_sorted ns \<longleftrightarrow> successively (\<lambda>x y. strcasecmp x y < 0) ns \<and> list_all cstr ns"

lemma names_sorted_wrt: "names_sorted ns \<Longrightarrow> sorted_wrt (\<lambda>x y. low_codes x < low_codes y) ns"
proof -
  assume "names_sorted ns"
  then have "successively (\<lambda>x y. low_codes x < low_codes y) ns"
    unfolding names_sorted_def by (induction ns rule: induct_list012) (auto simp: strcasecmp_less)
  then show ?thesis by (subst (asm) successively_conv_sorted_wrt) (auto intro: transpI)
qed

lemma names_sorted_less:
  "names_sorted (map fst tab) \<Longrightarrow> i < j \<Longrightarrow> j < length tab \<Longrightarrow> low_codes (fst (tab ! i)) < low_codes (fst (tab ! j))"
  using names_sorted_wrt [of "map fst tab"] by (auto simp: sorted_wrt_iff_nth_less)

lemma find_at:
  assumes "i < length xs" "P (xs ! i)" "\<And>j. j < i \<Longrightarrow> \<not> P (xs ! j)"
  shows "find P xs = Some (xs ! i)"
  using assms by (auto simp: find_Some_iff)

lemma bsearch_find:
  assumes "names_sorted (map fst tab)" and "cstr key"
  shows "u \<le> length tab \<Longrightarrow> (\<And>i. i < length tab \<Longrightarrow> strcaseeq (fst (tab ! i)) key \<Longrightarrow> l \<le> i \<and> i < u) \<Longrightarrow>
    bsearch tab key l u = find (\<lambda>e. strcaseeq (fst e) key) tab"
proof (induction "u - l" arbitrary: l u rule: less_induct)
  case less
  show ?case
  proof (cases "l < u")
    case False
    then have "find (\<lambda>e. strcaseeq (fst e) key) tab = None"
      using less.prems by (force simp: find_None_iff in_set_conv_nth)
    then show ?thesis using False by (subst bsearch.simps) simp
  next
    case True
    define idx where "idx = (l + u) div 2"
    have idx: "l \<le> idx" "idx < u" "idx < length tab" using True less.prems(1) by (auto simp: idx_def)
    define nm where "nm = fst (tab ! idx)"
    have cn: "cstr nm" using assms(1) idx(3) by (simp add: names_sorted_def list_all_length nm_def)
    have step: "bsearch tab key l u = (if strcasecmp key nm < 0 then bsearch tab key l idx
        else if strcasecmp key nm > 0 then bsearch tab key (idx + 1) u else Some (tab ! idx))"
      using True by (subst bsearch.simps) (simp add: idx_def nm_def Let_def)
    have lt: "i < idx \<Longrightarrow> low_codes (fst (tab ! i)) < low_codes nm" for i
      using names_sorted_less [OF assms(1)] idx(3) by (simp add: nm_def)
    have gt: "idx < i \<Longrightarrow> i < length tab \<Longrightarrow> low_codes nm < low_codes (fst (tab ! i))" for i
      using names_sorted_less [OF assms(1)] by (simp add: nm_def)
    have key: "i < length tab \<Longrightarrow> strcaseeq (fst (tab ! i)) key \<Longrightarrow> low_codes (fst (tab ! i)) = low_codes key" for i
      by (simp add: low_codes_eq)
    consider (less) "strcasecmp key nm < 0" | (more) "strcasecmp key nm > 0" | (eq) "strcasecmp key nm = 0" by linarith
    then show ?thesis
    proof cases
      case less': less
      then have k: "low_codes key < low_codes nm" using strcasecmp_less [OF assms(2) cn] by simp
      have "l \<le> i \<and> i < idx" if "i < length tab" "strcaseeq (fst (tab ! i)) key" for i
        using less.prems(2) [OF that] key [OF that] k gt [of i] that(1) by (cases i idx rule: linorder_cases) (auto simp: nm_def)
      then show ?thesis using less.hyps [of idx l] idx less' step by simp
    next
      case more
      have "\<not> low_codes key < low_codes nm" "low_codes key \<noteq> low_codes nm"
        using more strcasecmp_less [OF assms(2) cn] strcasecmp_eq [OF assms(2) cn] by auto
      then have k: "low_codes nm < low_codes key" by simp
      have "idx + 1 \<le> i \<and> i < u" if "i < length tab" "strcaseeq (fst (tab ! i)) key" for i
        using less.prems(2) [OF that] key [OF that] k lt [of i] that(1) by (cases i idx rule: linorder_cases) (auto simp: nm_def)
      then show ?thesis using less.hyps [of u "idx + 1"] less.prems(1) idx more step by simp
    next
      case eq
      then have k: "low_codes nm = low_codes key" using strcasecmp_eq [OF assms(2) cn] by simp
      have "find (\<lambda>e. strcaseeq (fst e) key) tab = Some (tab ! idx)"
      proof (rule find_at [OF idx(3)])
        show "strcaseeq (fst (tab ! idx)) key" using k by (simp add: low_codes_eq nm_def)
        show "\<not> strcaseeq (fst (tab ! j)) key" if "j < idx" for j
          using lt [OF that] k by (auto simp: low_codes_eq [symmetric])
      qed
      then show ?thesis using eq step by simp
    qed
  qed
qed

lemma bsearch_lookup:
  "names_sorted (map fst tab) \<Longrightarrow> cstr key \<Longrightarrow> map_option snd (bsearch tab key 0 (length tab)) = lookup tab key"
  by (simp add: bsearch_find lookup_def)

lemma names_sorted_funclist: "names_sorted (map fst crule_funclist)"
proof -
  have "map fst crule_funclist = [''bytes_received'', ''bytes_sent'', ''cap_set'', ''cap_version'',
      ''channel_count'', ''channel_member_count'', ''connected'', ''connections_from_ip'',
      ''destination'', ''digit_percentage'', ''directcon'', ''directop'',
      ''has_channel_mode'', ''has_swhois'', ''has_user_mode'', ''idle_time'',
      ''in_channel'', ''in_security_group'', ''inchannel'', ''is_away'',
      ''is_identified'', ''is_local'', ''is_oper'', ''is_tls'',
      ''is_webirc'', ''is_websocket'', ''match_account'', ''match_asn'',
      ''match_asname'', ''match_away'', ''match_certfp'', ''match_class'',
      ''match_country'', ''match_ip'', ''match_mask'', ''match_operclass'',
      ''match_operlogin'', ''match_realhost'', ''match_realname'', ''match_server'',
      ''match_sni'', ''match_tls_cipher'', ''match_vhost'', ''max_repeat_count'',
      ''messages_received'', ''messages_sent'', ''mixed_utf8_score'', ''non_ascii_percentage'',
      ''online_time'', ''reputation'', ''server_flood_count'', ''server_port'',
      ''tag'', ''text_byte_count'', ''text_character_count'', ''total_channel_flood_count'',
      ''unicode_block_count'', ''unicode_count'', ''uppercase_percentage'', ''via'',
      ''word_count'']"
    unfolding crule_funclist_def list.map fst_conv by (rule refl)
  also have "names_sorted \<dots>"
    by (simp add: names_sorted_def tolower_int)
  finally show ?thesis .
qed

section \<open>Tokens of printed rules\<close>

lemma not_wordchar:
  "\<not> wordchar (CHR '' '')" "\<not> wordchar (CHR 0x09)" "\<not> wordchar (CHR ''&'')" "\<not> wordchar (CHR ''|'')"
  "\<not> wordchar (CHR ''='')" "\<not> wordchar (CHR ''!'')" "\<not> wordchar (CHR ''('')" "\<not> wordchar (CHR '')'')"
  "\<not> wordchar (CHR ''<'')" "\<not> wordchar (CHR ''>'')" "\<not> wordchar (CHR '','')" "\<not> wordchar (CHR '':'')"
  "\<not> wordchar (CHR 0x27)"
  by code_simp+

lemma gettoken_wordchar: "wordchar c \<Longrightarrow> crule_gettoken None (c # s) = (CR_NOERR, CR_WORD, c # s)"
proof -
  assume c: "wordchar c"
  have no: "c \<noteq> d" if "\<not> wordchar d" for d using c that by auto
  have "single_token c = None" using no not_wordchar by (simp add: single_token_def)
  moreover have "isalnum c \<or> c \<in> set ''*?.-_'' \<or> c = CHR 0x27" using c unfolding wordchar_def by blast
  ultimately show ?thesis
    using no [OF not_wordchar(1)] no [OF not_wordchar(2)] no [OF not_wordchar(3)] no [OF not_wordchar(4)] no [OF not_wordchar(5)]
    by (simp only: crule_gettoken.simps if_False if_True option.case de_Morgan_disj simp_thms)
qed

lemma gettoken_chars:
  "crule_gettoken None (CHR ''('' # s) = (CR_NOERR, CR_OPENPAREN, s)"
  "crule_gettoken None (CHR '')'' # s) = (CR_NOERR, CR_CLOSEPAREN, s)"
  "crule_gettoken None (CHR ''!'' # s) = (CR_NOERR, CR_NOT, s)"
  "crule_gettoken None (CHR '','' # s) = (CR_NOERR, CR_COMMA, s)"
  "crule_gettoken None (CHR ''<'' # s) = (CR_NOERR, CR_LESS_THAN, s)"
  "crule_gettoken None (CHR ''>'' # s) = (CR_NOERR, CR_MORE_THAN, s)"
  "crule_gettoken None (CHR ''='' # CHR ''='' # s) = (CR_NOERR, CR_EQUAL, s)"
  "crule_gettoken None (CHR ''&'' # CHR ''&'' # s) = (CR_NOERR, CR_AND, s)"
  "crule_gettoken None (CHR ''|'' # CHR ''|'' # s) = (CR_NOERR, CR_OR, s)"
  "crule_gettoken None (CHR 0x27 # s) = (CR_NOERR, CR_WORD, CHR 0x27 # s)"
  by (simp_all add: single_token_def double_token_def)

declare crule_gettoken.simps(2) [simp del] One_nat_def [simp del]

lemma getword_loop_plain:
  "list_all wordchar w \<Longrightarrow> length w \<le> n \<Longrightarrow> k = [] \<or> \<not> wordchar (hd k) \<Longrightarrow> getword_loop False n (w @ k) = Inr (w, k)"
proof (induction w arbitrary: n)
  case Nil
  then show ?case by (cases n; cases k) auto
next
  case (Cons c w)
  then obtain m where "n = Suc m" by (cases n) auto
  with Cons show ?case by simp
qed

lemma getword_plain:
  assumes "word_ok w" and "k = [] \<or> \<not> wordchar (hd k)"
  shows "crule_getword (CR_MAXARGLEN - 1) (w @ k) = Inr (w, k)"
proof -
  obtain c v where w: "w = c # v" using assms(1) by (cases w) (auto simp: word_ok_def)
  have "c \<noteq> CHR 0x27" using assms(1) w not_wordchar by (auto simp: word_ok_def)
  moreover have "getword_loop False (CR_MAXARGLEN - 1) (w @ k) = Inr (w, k)"
    using assms by (intro getword_loop_plain) (auto simp: word_ok_def)
  ultimately show ?thesis using w by (simp add: crule_getword_def)
qed

lemma getword_loop_quoted:
  "CHR 0x27 \<notin> set a \<Longrightarrow> length a \<le> n \<Longrightarrow> getword_loop True n (a @ CHR 0x27 # k) = Inr (a, CHR 0x27 # k)"
proof (induction a arbitrary: n)
  case Nil
  then show ?case using not_wordchar by (cases n) auto
next
  case (Cons c a)
  then obtain m where "n = Suc m" by (cases n) auto
  with Cons show ?case by auto
qed

lemma getword_quoted: "arg_ok a \<Longrightarrow> crule_getword (CR_MAXARGLEN - 1) (quote_arg a @ k) = Inr (a, k)"
  using getword_loop_quoted [of a "CR_MAXARGLEN - 1" k]
  by (auto simp: crule_getword_def quote_arg_def arg_ok_def)

lemma arglist_print:
  assumes "args \<noteq> []" "list_all arg_ok args" "length acc + length args \<le> CR_MAXARGS"
  shows "crule_parsearglist acc [] CR_WORD (print_args args @ CHR '')'' # k) = Inr (CR_NOERR, acc @ args, CR_CLOSEPAREN, k)"
  using assms
proof (induction args arbitrary: acc rule: print_args.induct)
  case (2 a)
  then have a: "arg_ok a" by simp
  have "crule_parsearglist acc [] CR_WORD (print_args [a] @ CHR '')'' # k) = crule_parsearglist acc a CR_CLOSEPAREN k"
    using arglist_word [OF getword_quoted [OF a] gettoken_chars(2)] by (simp add: join_word_def)
  then show ?case using arglist_end [of CR_CLOSEPAREN a acc k] 2 a by (simp add: arg_ok_def)
next
  case (3 a b as)
  then have a: "arg_ok a" by simp
  let ?r = "print_args (b # as) @ CHR '')'' # k"
  obtain r where r: "?r = CHR 0x27 # r" by (cases as) (auto simp: quote_arg_def)
  have g: "crule_gettoken None ?r = (CR_NOERR, CR_WORD, ?r)" using gettoken_chars(10) r by simp
  have "crule_parsearglist acc [] CR_WORD (print_args (a # b # as) @ CHR '')'' # k) = crule_parsearglist acc a CR_COMMA ?r"
    using arglist_word [OF getword_quoted [OF a] gettoken_chars(4)] by (simp add: join_word_def)
  also have "\<dots> = crule_parsearglist (acc @ [a]) [] CR_WORD ?r"
    using arglist_comma [OF g, of a acc] 3 a by (simp add: arg_ok_def)
  also have "\<dots> = Inr (CR_NOERR, (acc @ [a]) @ b # as, CR_CLOSEPAREN, k)"
    using 3 by (intro "3.IH") auto
  finally show ?case by simp
qed simp

text \<open>What may come after a printed expression: the end, a closing parenthesis or an operator.\<close>

definition follow :: "cstring \<Rightarrow> crule_token \<Rightarrow> cstring \<Rightarrow> bool" where
  "follow k t k' \<longleftrightarrow> crule_gettoken None k = (CR_NOERR, t, k') \<and> (k = [] \<or> \<not> wordchar (hd k))
     \<and> t \<in> {CR_END, CR_CLOSEPAREN, CR_AND, CR_OR}"

lemma follow_simps:
  "follow [] CR_END []" "follow (CHR '')'' # k) CR_CLOSEPAREN k"
  "follow (CHR ''&'' # CHR ''&'' # k) CR_AND k" "follow (CHR ''|'' # CHR ''|'' # k) CR_OR k"
  using gettoken_chars not_wordchar by (simp_all add: follow_def)

lemma lookup_bsearch:
  "names_sorted (map fst tab) \<Longrightarrow> cstr name \<Longrightarrow> lookup tab name = Some (req, f)
   \<Longrightarrow> \<exists>nm. bsearch tab name 0 (length tab) = Some (nm, req, f)"
  using bsearch_lookup [of tab name] by auto

lemma wordchar_cstr: "list_all wordchar w \<Longrightarrow> cstr w"
proof -
  have "\<not> wordchar NUL" by code_simp
  then show "list_all wordchar w \<Longrightarrow> cstr w" by (induction w) auto
qed

lemma parsefunction_print:
  assumes tab: "names_sorted (map fst tab)" and ok: "rule_ok tab (RCall name args test)" and k: "follow k t k'"
  shows "crule_parsefunction tab (print_rule l (RCall name args test) @ k)
    = Inr (CR_NOERR, Some (tree tab (RCall name args test)), t, k')"
proof -
  obtain f where lk: "lookup tab name = Some (length args, f)" using ok by auto
  have wn: "word_ok name" using ok by simp
  obtain nm where b: "bsearch tab name 0 (length tab) = Some (nm, length args, f)"
    using lookup_bsearch [OF tab _ lk] wordchar_cstr wn by (auto simp: word_ok_def)
  define tst where "tst = print_test test @ k"
  let ?r = "print_args args @ CHR '')'' # tst"
  have w: "crule_getword (CR_MAXARGLEN - 1) (name @ CHR ''('' # ?r) = Inr (name, CHR ''('' # ?r)"
    using getword_plain [OF wn] not_wordchar by simp
  obtain t3 s3 where g3: "crule_gettoken None ?r = (CR_NOERR, t3, s3)"
    and a: "crule_parsearglist [] [] t3 s3 = Inr (CR_NOERR, args, CR_CLOSEPAREN, tst)"
  proof (cases args)
    case Nil
    then show thesis using that gettoken_chars(2) arglist_end [of CR_CLOSEPAREN "[]" "[]" tst] by simp
  next
    case (Cons x xs)
    then obtain r where r: "?r = CHR 0x27 # r" by (cases xs) (auto simp: quote_arg_def)
    show thesis
    proof (rule that)
      show "crule_gettoken None ?r = (CR_NOERR, CR_WORD, ?r)" using gettoken_chars(10) r by simp
      show "crule_parsearglist [] [] CR_WORD ?r = Inr (CR_NOERR, args, CR_CLOSEPAREN, tst)"
        using arglist_print [of args "[]"] ok Cons by simp
    qed
  qed
  show ?thesis
  proof (cases test)
    case None
    have g: "crule_gettoken None tst = (CR_NOERR, t, k')" "\<not> IsComparisson t"
      using k None by (auto simp: follow_def IsComparisson_def tst_def)
    have "crule_parsefunction tab (name @ CHR ''('' # ?r) = Inr (CR_NOERR, Some (CFunc f args None), t, k')"
      by (simp add: crule_parsefunction_def gettoken_chars w b g3 a g)
    then show ?thesis by (simp add: None lk tst_def)
  next
    case (Some tv)
    obtain op v where tv: "tv = (op, v)" by (cases tv)
    have v: "IsComparisson op" "word_ok v" using ok Some tv by (auto simp: test_ok_def)
    obtain c u where cu: "v = c # u" "wordchar c" using v(2) by (cases v) (auto simp: word_ok_def)
    have g5: "crule_gettoken None tst = (CR_NOERR, op, v @ k)"
      using v(1) Some tv by (cases op) (auto simp: IsComparisson_def gettoken_chars tst_def)
    have g6: "crule_gettoken None (v @ k) = (CR_NOERR, CR_WORD, v @ k)"
      using gettoken_wordchar cu by simp
    have w6: "crule_getword (CR_MAXARGLEN - 1) (v @ k) = Inr (v, k)"
      using getword_plain [OF v(2)] k by (simp add: follow_def)
    have g: "crule_gettoken None k = (CR_NOERR, t, k')" using k by (simp add: follow_def)
    have "crule_parsefunction tab (name @ CHR ''('' # ?r) = Inr (CR_NOERR, Some (CFunc f args (Some (op, atoi v))), t, k')"
      by (simp add: crule_parsefunction_def gettoken_chars w b g3 a g5 g6 w6 v(1) g)
    then show ?thesis by (simp add: Some tv lk tst_def)
  qed
qed

section \<open>Parsing printed expressions\<close>

text \<open>The parser functions started before their first token is read, as their callers do.\<close>

definition run :: "('a \<Rightarrow> crule_token \<Rightarrow> cstring \<Rightarrow> 'f parse_result) \<Rightarrow> 'a \<Rightarrow> cstring \<Rightarrow> 'f parse_result" where
  "run p x s = (case crule_gettoken None s of (e, t, r) \<Rightarrow> if e = CR_NOERR then p x t r else Some (Inr (e, None, t, r)))"

lemma run_token: "crule_gettoken None s = (CR_NOERR, t, r) \<Longrightarrow> run p x s = p x t r"
  by (simp add: run_def)

lemma run_okD:
  "run p x s = Some (Inr (CR_NOERR, nd, t', k)) \<Longrightarrow> \<exists>t r. crule_gettoken None s = (CR_NOERR, t, r) \<and> p x t r = Some (Inr (CR_NOERR, nd, t', k))"
  by (auto simp: run_def split: prod.splits if_splits)

definition op_tok :: "bool \<Rightarrow> crule_token" where
  "op_tok is_or = (if is_or then CR_OR else CR_AND)"

definition op_text :: "bool \<Rightarrow> cstring" where
  "op_text is_or = (if is_or then ''||'' else ''&&'')"

text \<open>The loops of the or- and the and-expression with the operand parser they call.\<close>

definition chain_parse :: "(cstring \<times> nat \<times> 'f) list \<Rightarrow> bool \<Rightarrow> nat \<Rightarrow> 'f crule_node option \<Rightarrow> crule_token \<Rightarrow> cstring \<Rightarrow> 'f parse_result" where
  "chain_parse tab is_or n = (if is_or then crule_parseorexpr tab n else crule_parseandexpr tab n)"

definition operand_parse :: "(cstring \<times> nat \<times> 'f) list \<Rightarrow> bool \<Rightarrow> nat \<Rightarrow> cstring \<Rightarrow> 'f parse_result" where
  "operand_parse tab is_or n s = (if is_or then run (crule_parseandexpr tab n) None s else run (crule_parseprimary tab n) False s)"

definition chain_next :: "(cstring \<times> nat \<times> 'f) list \<Rightarrow> bool \<Rightarrow> nat \<Rightarrow> 'f crule_node option \<Rightarrow> 'f crule_node option
    \<Rightarrow> crule_token \<Rightarrow> cstring \<Rightarrow> 'f parse_result" where
  "chain_next tab is_or n root x t k' =
     (if t = op_tok is_or then
        (let root' = Some (CAndOr is_or (attach root x) None)
         in case crule_gettoken None k' of (e', t', r') \<Rightarrow>
              if e' = CR_NOERR then chain_parse tab is_or n root' t' r' else Some (Inr (e', root', t', r')))
      else if Option.is_none root then Some (Inr (CR_NOERR, x, t, k'))
      else Some (Inr (if Option.is_none x then (if is_or then CR_EXPCTAND else CR_EXPCTPRIM) else CR_NOERR, attach root x, t, k')))"

lemma operand_okD:
  assumes "operand_parse tab is_or n s = Some (Inr (CR_NOERR, x, t, k'))"
  shows "\<exists>t0 r. crule_gettoken None s = (CR_NOERR, t0, r)
    \<and> chain_parse tab is_or (Suc n) root t0 r = chain_next tab is_or n root x t k'"
proof (cases is_or)
  case True
  then have "run (crule_parseandexpr tab n) None s = Some (Inr (CR_NOERR, x, t, k'))" using assms by (simp add: operand_parse_def)
  from run_okD [OF this] obtain t0 r where "crule_gettoken None s = (CR_NOERR, t0, r)"
    "crule_parseandexpr tab n None t0 r = Some (Inr (CR_NOERR, x, t, k'))" by blast
  then show ?thesis
    by (simp add: True chain_next_def chain_parse_def parsers_Suc orexpr_iter_def op_tok_def Let_def split: prod.split)
next
  case False
  then have "run (crule_parseprimary tab n) False s = Some (Inr (CR_NOERR, x, t, k'))" using assms by (simp add: operand_parse_def)
  from run_okD [OF this] obtain t0 r where "crule_gettoken None s = (CR_NOERR, t0, r)"
    "crule_parseprimary tab n False t0 r = Some (Inr (CR_NOERR, x, t, k'))" by blast
  then show ?thesis
    by (simp add: False chain_next_def chain_parse_def parsers_Suc andexpr_iter_def op_tok_def Let_def split: prod.split)
qed

fun chain :: "bool \<Rightarrow> 'f crule_node option \<Rightarrow> 'f crule_node list \<Rightarrow> 'f crule_node option" where
  "chain is_or root [] = root"
| "chain is_or root [x] = attach root (Some x)"
| "chain is_or root (x # y # xs) = chain is_or (Some (CAndOr is_or (attach root (Some x)) None)) (y # xs)"

lemma chain_snoc:
  "xs \<noteq> [] \<Longrightarrow> chain is_or root (xs @ [x]) = Some (CAndOr is_or (chain is_or root xs) (Some x))"
  by (induction is_or root xs rule: chain.induct) (auto simp: attach_def)

fun items :: "bool \<Rightarrow> rexp \<Rightarrow> rexp list" where
  "items is_or (ROr a b) = (if is_or then items is_or a @ [b] else [ROr a b])"
| "items is_or (RAnd a b) = (if is_or then [RAnd a b] else items is_or a @ [b])"
| "items is_or e = [e]"

lemma items_not_Nil [simp]: "items is_or e \<noteq> []"
  by (cases e) auto

lemma chain_items: "chain is_or None (map (tree tab) (items is_or e)) = Some (tree tab e)"
  by (induction e) (auto simp: chain_snoc attach_def)

fun print_chain :: "bool \<Rightarrow> rexp list \<Rightarrow> cstring" where
  "print_chain is_or [] = []"
| "print_chain is_or [e] = print_rule (if is_or then 1 else 2) e"
| "print_chain is_or (e # e' # es) = print_rule (if is_or then 1 else 2) e @ op_text is_or @ print_chain is_or (e' # es)"

lemma print_chain_snoc:
  "es \<noteq> [] \<Longrightarrow> print_chain is_or (es @ [e]) = print_chain is_or es @ op_text is_or @ print_rule (if is_or then 1 else 2) e"
  by (induction is_or es rule: print_chain.induct) auto

lemma print_items: "print_chain is_or (items is_or e) = print_rule (if is_or then 0 else 1) e"
  by (induction e) (auto simp: print_chain_snoc op_text_def)

definition operand_ok :: "(cstring \<times> nat \<times> 'f) list \<Rightarrow> bool \<Rightarrow> rexp \<Rightarrow> bool" where
  "operand_ok tab is_or e \<longleftrightarrow> (\<forall>k t k'. follow k t k' \<and> (is_or \<longrightarrow> t \<noteq> CR_AND) \<longrightarrow>
     (\<exists>N. \<forall>n \<ge> N. operand_parse tab is_or n (print_rule (if is_or then 1 else 2) e @ k)
        = Some (Inr (CR_NOERR, Some (tree tab e), t, k'))))"

lemma operand_okE:
  assumes "operand_ok tab is_or e" "follow k t k'" "is_or \<Longrightarrow> t \<noteq> CR_AND"
  obtains N where "\<forall>n \<ge> N. operand_parse tab is_or n (print_rule (if is_or then 1 else 2) e @ k)
     = Some (Inr (CR_NOERR, Some (tree tab e), t, k'))"
  using assms unfolding operand_ok_def by blast

definition chain_ok :: "(cstring \<times> nat \<times> 'f) list \<Rightarrow> bool \<Rightarrow> rexp \<Rightarrow> bool" where
  "chain_ok tab is_or e \<longleftrightarrow> (\<forall>k t k'. follow k t k' \<and> t \<noteq> CR_AND \<and> t \<noteq> op_tok is_or \<longrightarrow>
     (\<exists>N. \<forall>n \<ge> N. run (chain_parse tab is_or n) None (print_rule (if is_or then 0 else 1) e @ k)
        = Some (Inr (CR_NOERR, Some (tree tab e), t, k'))))"

lemma follow_op: "follow (op_text is_or @ k) (op_tok is_or) k"
  using follow_simps by (cases is_or) (simp_all add: op_text_def op_tok_def)

lemma chain_list:
  assumes "\<forall>e \<in> set es. operand_ok tab is_or e" "es \<noteq> []" "follow k t k'" "t \<noteq> CR_AND" "t \<noteq> op_tok is_or"
  shows "\<exists>N. \<forall>n \<ge> N. \<exists>t0 r. crule_gettoken None (print_chain is_or es @ k) = (CR_NOERR, t0, r)
    \<and> chain_parse tab is_or n root t0 r = Some (Inr (CR_NOERR, chain is_or root (map (tree tab) es), t, k'))"
  using assms(1,2)
proof (induction es arbitrary: root rule: induct_list012)
  case (2 e)
  then have "operand_ok tab is_or e" by simp
  from operand_okE [OF this assms(3)] assms(4) obtain N
    where N: "\<forall>n \<ge> N. operand_parse tab is_or n (print_rule (if is_or then 1 else 2) e @ k)
        = Some (Inr (CR_NOERR, Some (tree tab e), t, k'))" by blast
  show ?case
  proof (intro exI [of _ "Suc N"] allI impI)
    fix n assume "Suc N \<le> n"
    then obtain m where m: "n = Suc m" "N \<le> m" by (cases n) auto
    from N m(2) have "operand_parse tab is_or m (print_rule (if is_or then 1 else 2) e @ k)
        = Some (Inr (CR_NOERR, Some (tree tab e), t, k'))" by blast
    from operand_okD [OF this, of root] assms(5) show "\<exists>t0 r. crule_gettoken None (print_chain is_or [e] @ k) = (CR_NOERR, t0, r)
      \<and> chain_parse tab is_or n root t0 r = Some (Inr (CR_NOERR, chain is_or root (map (tree tab) [e]), t, k'))"
      unfolding m(1) by (cases root) (auto simp: chain_next_def attach_def)
  qed
next
  case (3 e e' es)
  let ?rest = "print_chain is_or (e' # es) @ k"
  let ?root = "Some (CAndOr is_or (attach root (Some (tree tab e))) None)"
  have "operand_ok tab is_or e" using 3 by simp
  from operand_okE [OF this follow_op [of is_or ?rest]] obtain N
    where N: "\<forall>n \<ge> N. operand_parse tab is_or n (print_rule (if is_or then 1 else 2) e @ op_text is_or @ ?rest)
        = Some (Inr (CR_NOERR, Some (tree tab e), op_tok is_or, ?rest))" by (auto simp: op_tok_def)
  have "\<forall>x \<in> set (e' # es). operand_ok tab is_or x" using 3 by simp
  from "3.IH"(2) [OF this, of ?root] obtain M where M: "\<forall>n \<ge> M. \<exists>t0 r. crule_gettoken None ?rest = (CR_NOERR, t0, r)
    \<and> chain_parse tab is_or n ?root t0 r = Some (Inr (CR_NOERR, chain is_or ?root (map (tree tab) (e' # es)), t, k'))"
    by blast
  show ?case
  proof (intro exI [of _ "Suc (max N M)"] allI impI)
    fix n assume "Suc (max N M) \<le> n"
    then obtain m where m: "n = Suc m" "N \<le> m" "M \<le> m" by (cases n) auto
    from N m(2) have op: "operand_parse tab is_or m (print_rule (if is_or then 1 else 2) e @ op_text is_or @ ?rest)
        = Some (Inr (CR_NOERR, Some (tree tab e), op_tok is_or, ?rest))" by blast
    from M m(3) obtain t1 r1 where t1: "crule_gettoken None ?rest = (CR_NOERR, t1, r1)"
      "chain_parse tab is_or m ?root t1 r1 = Some (Inr (CR_NOERR, chain is_or ?root (map (tree tab) (e' # es)), t, k'))" by blast
    from operand_okD [OF op, of root] t1
    show "\<exists>t0 r. crule_gettoken None (print_chain is_or (e # e' # es) @ k) = (CR_NOERR, t0, r)
      \<and> chain_parse tab is_or n root t0 r = Some (Inr (CR_NOERR, chain is_or root (map (tree tab) (e # e' # es)), t, k'))"
      unfolding m(1) by (auto simp: chain_next_def Let_def)
  qed
qed simp

lemma chain_ok_items: "\<forall>x \<in> set (items is_or e). operand_ok tab is_or x \<Longrightarrow> chain_ok tab is_or e"
  unfolding chain_ok_def
proof (intro allI impI)
  fix k t k' assume ops: "\<forall>x \<in> set (items is_or e). operand_ok tab is_or x"
    and f: "follow k t k' \<and> t \<noteq> CR_AND \<and> t \<noteq> op_tok is_or"
  obtain N where "\<forall>n \<ge> N. \<exists>t0 r. crule_gettoken None (print_chain is_or (items is_or e) @ k) = (CR_NOERR, t0, r)
    \<and> chain_parse tab is_or n None t0 r = Some (Inr (CR_NOERR, chain is_or None (map (tree tab) (items is_or e)), t, k'))"
    using chain_list [OF ops items_not_Nil] f by blast
  then show "\<exists>N. \<forall>n \<ge> N. run (chain_parse tab is_or n) None (print_rule (if is_or then 0 else 1) e @ k)
        = Some (Inr (CR_NOERR, Some (tree tab e), t, k'))"
    unfolding print_items chain_items using run_token by metis
qed

lemma and_operand: "chain_ok tab False e \<Longrightarrow> operand_ok tab True e"
  by (auto simp: chain_ok_def operand_ok_def operand_parse_def chain_parse_def op_tok_def)

lemma paren_operand:
  assumes "chain_ok tab True e" "\<And>k. print_rule 2 e @ k = CHR ''('' # print_rule 0 e @ CHR '')'' # k"
  shows "operand_ok tab False e"
  unfolding operand_ok_def
proof (intro allI impI)
  fix k t k' assume f: "follow k t k' \<and> (False \<longrightarrow> t \<noteq> CR_AND)"
  obtain N where N: "\<forall>n \<ge> N. run (crule_parseorexpr tab n) None (print_rule 0 e @ CHR '')'' # k)
        = Some (Inr (CR_NOERR, Some (tree tab e), CR_CLOSEPAREN, k))"
    using assms(1) follow_simps(2) [of k] by (force simp: chain_ok_def chain_parse_def op_tok_def)
  have g: "crule_gettoken None k = (CR_NOERR, t, k')" using f by (simp add: follow_def)
  show "\<exists>N. \<forall>n \<ge> N. operand_parse tab False n (print_rule (if False then 1 else 2) e @ k)
        = Some (Inr (CR_NOERR, Some (tree tab e), t, k'))"
  proof (intro exI [of _ "Suc N"] allI impI)
    fix n assume "Suc N \<le> n"
    then obtain m where m: "n = Suc m" "N \<le> m" by (cases n) auto
    have "run (crule_parseorexpr tab m) None (print_rule 0 e @ CHR '')'' # k) = Some (Inr (CR_NOERR, Some (tree tab e), CR_CLOSEPAREN, k))"
      using N m(2) by blast
    from run_okD [OF this] obtain t0 r where "crule_gettoken None (print_rule 0 e @ CHR '')'' # k) = (CR_NOERR, t0, r)"
      "crule_parseorexpr tab m None t0 r = Some (Inr (CR_NOERR, Some (tree tab e), CR_CLOSEPAREN, k))" by blast
    then have "crule_parseprimary tab (Suc m) False CR_OPENPAREN (print_rule 0 e @ CHR '')'' # k) = Some (Inr (CR_NOERR, Some (tree tab e), t, k'))"
      by (simp add: parsers_Suc primary_iter_def g)
    then show "operand_parse tab False n (print_rule (if False then 1 else 2) e @ k) = Some (Inr (CR_NOERR, Some (tree tab e), t, k'))"
      by (simp add: operand_parse_def m(1) assms(2) run_token [OF gettoken_chars(1)])
  qed
qed

lemma primary_nested:
  "tok \<in> {CR_OPENPAREN, CR_NOT, CR_WORD} \<Longrightarrow> primary_iter tab po pp nested tok s = primary_iter tab po pp False tok s"
  by (auto simp: primary_iter_def)

lemma first_token:
  "rule_ok tab e \<Longrightarrow> \<exists>t r. crule_gettoken None (print_rule 2 e @ k) = (CR_NOERR, t, r) \<and> t \<in> {CR_OPENPAREN, CR_NOT, CR_WORD}"
proof (cases e)
  case (RCall name args test)
  assume "rule_ok tab e"
  then obtain c w where "name = c # w" "wordchar c" using RCall by (cases name) (auto simp: word_ok_def)
  then show ?thesis using RCall gettoken_wordchar by simp
qed (simp_all add: gettoken_chars)

lemma not_operand:
  assumes ok: "rule_ok tab e" and a: "operand_ok tab False e"
  shows "operand_ok tab False (RNot e)"
  unfolding operand_ok_def
proof (intro allI impI)
  fix k t k' assume "follow k t k' \<and> (False \<longrightarrow> t \<noteq> CR_AND)"
  then have f: "follow k t k'" by simp
  from operand_okE [OF a f] obtain N where N: "\<forall>n \<ge> N. operand_parse tab False n (print_rule 2 e @ k)
     = Some (Inr (CR_NOERR, Some (tree tab e), t, k'))" by auto
  obtain t0 r where g: "crule_gettoken None (print_rule 2 e @ k) = (CR_NOERR, t0, r)" "t0 \<in> {CR_OPENPAREN, CR_NOT, CR_WORD}"
    using first_token [OF ok] by blast
  show "\<exists>N. \<forall>n \<ge> N. operand_parse tab False n (print_rule (if False then 1 else 2) (RNot e) @ k)
        = Some (Inr (CR_NOERR, Some (tree tab (RNot e)), t, k'))"
  proof (intro exI [of _ "Suc (Suc N)"] allI impI)
    fix n assume "Suc (Suc N) \<le> n"
    then obtain m where m: "n = Suc (Suc m)" "N \<le> m" by (metis Suc_le_D Suc_le_mono)
    have "operand_parse tab False (Suc m) (print_rule 2 e @ k) = Some (Inr (CR_NOERR, Some (tree tab e), t, k'))"
      using N m(2) by simp
    then have "crule_parseprimary tab (Suc m) False t0 r = Some (Inr (CR_NOERR, Some (tree tab e), t, k'))"
      by (simp add: operand_parse_def run_token [OF g(1)])
    then have "crule_parseprimary tab (Suc m) True t0 r = Some (Inr (CR_NOERR, Some (tree tab e), t, k'))"
      unfolding parsers_Suc using primary_nested [OF g(2)] by metis
    then have "primary_iter tab (crule_parseorexpr tab (Suc m)) (crule_parseprimary tab (Suc m)) False CR_NOT (print_rule 2 e @ k)
        = Some (Inr (CR_NOERR, Some (tree tab (RNot e)), t, k'))"
      by (simp add: primary_iter_def g(1))
    then have "crule_parseprimary tab n False CR_NOT (print_rule 2 e @ k) = Some (Inr (CR_NOERR, Some (tree tab (RNot e)), t, k'))"
      unfolding m(1) parsers_Suc(3) [of tab "Suc m"] .
    then show "operand_parse tab False n (print_rule (if False then 1 else 2) (RNot e) @ k)
        = Some (Inr (CR_NOERR, Some (tree tab (RNot e)), t, k'))"
      by (simp add: operand_parse_def run_token [OF gettoken_chars(3)])
  qed
qed

lemma call_operand:
  assumes tab: "names_sorted (map fst tab)" and ok: "rule_ok tab (RCall name args test)"
  shows "operand_ok tab False (RCall name args test)"
  unfolding operand_ok_def
proof (intro allI impI)
  fix k t k' assume "follow k t k' \<and> (False \<longrightarrow> t \<noteq> CR_AND)"
  then have f: "follow k t k'" by simp
  obtain c w where "name = c # w" "wordchar c" using ok by (cases name) (auto simp: word_ok_def)
  then have g: "crule_gettoken None (print_rule 2 (RCall name args test) @ k) = (CR_NOERR, CR_WORD, print_rule 2 (RCall name args test) @ k)"
    using gettoken_wordchar by simp
  show "\<exists>N. \<forall>n \<ge> N. operand_parse tab False n (print_rule (if False then 1 else 2) (RCall name args test) @ k)
        = Some (Inr (CR_NOERR, Some (tree tab (RCall name args test)), t, k'))"
  proof (intro exI [of _ "Suc 0"] allI impI)
    fix n assume "Suc 0 \<le> n"
    then obtain m where m: "n = Suc m" by (cases n) auto
    show "operand_parse tab False n (print_rule (if False then 1 else 2) (RCall name args test) @ k)
        = Some (Inr (CR_NOERR, Some (tree tab (RCall name args test)), t, k'))"
      unfolding operand_parse_def m parsers_Suc if_False run_token [OF g]
      using parsefunction_print [OF tab ok f] by (simp add: primary_iter_def del: print_rule.simps tree.simps)
  qed
qed

lemma rule_operands:
  assumes "names_sorted (map fst tab)"
  shows "rule_ok tab e \<Longrightarrow> (\<forall>is_or. \<forall>x \<in> set (items is_or e). operand_ok tab is_or x) \<and> operand_ok tab False e"
proof (induction e)
  case (ROr a b)
  then have b: "operand_ok tab True b" by (simp add: and_operand chain_ok_items)
  have t: "\<forall>x \<in> set (items True (ROr a b)). operand_ok tab True x" using ROr b by auto
  have "operand_ok tab False (ROr a b)" by (rule paren_operand [OF chain_ok_items [OF t]]) simp
  with t show ?case by (auto split: if_splits)
next
  case (RAnd a b)
  have t: "\<forall>x \<in> set (items False (RAnd a b)). operand_ok tab False x" using RAnd by auto
  have a: "operand_ok tab True (RAnd a b)" by (rule and_operand [OF chain_ok_items [OF t]])
  have "chain_ok tab True (RAnd a b)" by (rule chain_ok_items) (simp add: a)
  then have "operand_ok tab False (RAnd a b)" by (rule paren_operand) simp
  with t a show ?case by (auto split: if_splits)
next
  case (RNot e)
  have "operand_ok tab False (RNot e)" by (rule not_operand) (use RNot in auto)
  moreover from this have "operand_ok tab True (RNot e)" by (intro and_operand chain_ok_items) simp
  ultimately show ?case by (metis (full_types) items.simps(3) list.set(1,2) singletonD)
next
  case (RCall name args test)
  have "operand_ok tab False (RCall name args test)" by (rule call_operand [OF assms RCall])
  moreover from this have "operand_ok tab True (RCall name args test)" by (intro and_operand chain_ok_items) simp
  ultimately show ?case by (metis (full_types) items.simps(4) list.set(1,2) singletonD)
qed

lemma parse_print:
  assumes "names_sorted (map fst tab)" "rule_ok tab e"
  shows "crule_parse_rule tab (print_rule 0 e) = Some (Inr (CR_NOERR, Some (tree tab e)))"
proof -
  let ?s = "print_rule 0 e"
  have "chain_ok tab True e" using rule_operands [OF assms] by (blast intro: chain_ok_items)
  then obtain N where N: "\<forall>n \<ge> N. run (crule_parseorexpr tab n) None ?s = Some (Inr (CR_NOERR, Some (tree tab e), CR_END, []))"
    using follow_simps(1) by (force simp: chain_ok_def chain_parse_def op_tok_def)
  obtain t r where g: "crule_gettoken None ?s = (CR_NOERR, t, r)"
    using run_okD [OF N [rule_format, OF order_refl]] by blast
  obtain res where res: "crule_parseorexpr tab (parse_fuel ?s) None t r = Some res"
    using parse_rule_total [of tab ?s] by (auto simp: crule_parse_rule_def g split: option.splits)
  have "crule_parseorexpr tab (max N (parse_fuel ?s)) None t r = Some res"
    by (rule parseorexpr_mono [OF _ res]) simp
  moreover have "run (crule_parseorexpr tab (max N (parse_fuel ?s))) None ?s = Some (Inr (CR_NOERR, Some (tree tab e), CR_END, []))"
    using N by simp
  ultimately have "res = Inr (CR_NOERR, Some (tree tab e), CR_END, [])" by (simp add: run_token [OF g])
  with res show ?thesis by (simp add: crule_parse_rule_def g)
qed

section \<open>What an accepted rule means\<close>

fun calls :: "'f crule_node \<Rightarrow> ('f \<times> cstring list) set" where
  "calls (CAndOr is_or a b) = (case a of None \<Rightarrow> {} | Some x \<Rightarrow> calls x) \<union> (case b of None \<Rightarrow> {} | Some x \<Rightarrow> calls x)"
| "calls (CNot a) = (case a of None \<Rightarrow> {} | Some x \<Rightarrow> calls x)"
| "calls (CFunc f args test) = {(f, args)}"

fun complete :: "'f crule_node \<Rightarrow> bool" where
  "complete (CAndOr is_or a b) \<longleftrightarrow> (case a of None \<Rightarrow> False | Some x \<Rightarrow> complete x) \<and> (case b of None \<Rightarrow> False | Some x \<Rightarrow> complete x)"
| "complete (CNot a) \<longleftrightarrow> (case a of None \<Rightarrow> False | Some x \<Rightarrow> complete x)"
| "complete (CFunc f args test) \<longleftrightarrow> True"

fun rule_true :: "('f \<Rightarrow> cstring list \<Rightarrow> fault + int) \<Rightarrow> (cstring \<times> nat \<times> 'f) list \<Rightarrow> rexp \<Rightarrow> bool" where
  "rule_true call tab (ROr a b) \<longleftrightarrow> rule_true call tab a \<or> rule_true call tab b"
| "rule_true call tab (RAnd a b) \<longleftrightarrow> rule_true call tab a \<and> rule_true call tab b"
| "rule_true call tab (RNot a) \<longleftrightarrow> \<not> rule_true call tab a"
| "rule_true call tab (RCall name args test) \<longleftrightarrow>
     func_test (map_option (map_prod id atoi) test) (projr (call (snd (the (lookup tab name))) args)) \<noteq> 0"

lemma eval_complete:
  "complete t \<Longrightarrow> \<forall>(f, args) \<in> calls t. \<exists>v. call f args = Inr v \<Longrightarrow> \<exists>v. crule_eval call t = Inr v"
  by (induction t) (auto split: option.splits)

lemma eval_tree:
  "\<forall>(f, args) \<in> calls (tree tab e). \<exists>v. call f args = Inr v
   \<Longrightarrow> \<exists>v. crule_eval call (tree tab e) = Inr v \<and> (v \<noteq> 0 \<longleftrightarrow> rule_true call tab e)"
proof (induction e)
  case (ROr a b)
  then obtain v w where "crule_eval call (tree tab a) = Inr v" "v \<noteq> 0 \<longleftrightarrow> rule_true call tab a"
    "crule_eval call (tree tab b) = Inr w" "w \<noteq> 0 \<longleftrightarrow> rule_true call tab b" by auto
  then show ?case by auto
next
  case (RAnd a b)
  then obtain v w where "crule_eval call (tree tab a) = Inr v" "v \<noteq> 0 \<longleftrightarrow> rule_true call tab a"
    "crule_eval call (tree tab b) = Inr w" "w \<noteq> 0 \<longleftrightarrow> rule_true call tab b" by auto
  then show ?case by auto
qed auto

end
