(* ===== verification/Crule_Safety.thy ===== *)
theory Crule_Safety
  imports Crule_Grammar
begin

text \<open>
  Evaluating a rule that the parser accepted. The contexts are those the server builds: users
  have their user structure and a virtual host, flood counters their full length, and the text
  analysis a counter for each Unicode block. Then no function of the table faults when it is
  called with as many arguments as the table demands, with the exception of \<^verbatim>\<open>via\<close>, which
  follows the uplink of every server in the list; the entry of the server itself has none.
\<close>

definition returns :: "fault + int \<Rightarrow> bool" where
  "returns r \<longleftrightarrow> (\<exists>v. r = Inr v)"

definition client_ok :: "cr_client \<Rightarrow> bool" where
  "client_ok c \<longleftrightarrow> (IsUser c \<longrightarrow> (\<exists>u. cl_user c = Some u \<and> u_virthost u \<noteq> None))
     \<and> (\<forall>l. cl_local c = Some l \<longrightarrow> length (l_flood_blocked l) = MAXFLOODOPTIONS)"

definition context_ok :: "crule_env \<Rightarrow> crule_context option \<Rightarrow> bool" where
  "context_ok env ctx \<longleftrightarrow> (case ctx of None \<Rightarrow> True | Some cx \<Rightarrow>
     (case cx_client cx of None \<Rightarrow> True | Some c \<Rightarrow> client_ok c)
     \<and> (case cx_textanalysis cx of None \<Rightarrow> True | Some t \<Rightarrow> length (ta_unicode_blockmap t) = length (e_unicode_blocks env)))"

lemma returns_Inr [simp, intro]: "returns (Inr v)"
  by (simp add: returns_def)

lemma returns_bool [simp, intro]: "returns (of_bool_int b)"
  by (simp add: of_bool_int_def)

lemma returns_client [intro]:
  "context_ok env ctx \<Longrightarrow> (\<And>c. client_ok c \<Longrightarrow> returns (k c)) \<Longrightarrow> returns (with_client ctx k)"
  by (auto simp: with_client_def context_ok_def split: option.splits bind_splits)

lemma returns_user [intro]: "(\<And>c u. returns (k c u)) \<Longrightarrow> returns (with_user ctx k)"
  by (auto simp: with_user_def with_client_def split: option.splits)

lemma returns_my_user [intro]: "(\<And>l. returns (k l)) \<Longrightarrow> returns (with_my_user ctx k)"
  by (auto simp: with_my_user_def with_client_def MyUser_def MyConnect_def split: option.splits)

lemma returns_text [intro]: "(\<And>t. returns (k t)) \<Longrightarrow> returns (with_text ctx k)"
  by (auto simp: with_text_def split: option.splits)

lemma returns_analysis [intro]:
  "context_ok env ctx \<Longrightarrow> (\<And>t. length (ta_unicode_blockmap t) = length (e_unicode_blocks env) \<Longrightarrow> returns (k t))
   \<Longrightarrow> returns (with_analysis ctx k)"
  by (auto simp: with_analysis_def context_ok_def split: option.splits bind_splits)

lemma returns_arg [intro]: "returns (k a) \<Longrightarrow> returns (crulearg [a] 0 k)"
  by (simp add: crulearg_def)

lemma returns_match_field [intro]: "returns (match_field fld [a])"
  by (auto simp: match_field_def split: option.splits)

lemma block_number_bound: "utf8_get_block_number bs name i < i + int (length bs) \<or> utf8_get_block_number bs name i = -1"
  by (induction bs arbitrary: i) (auto, smt (verit))

lemmas no_arg_defs =
    crule_bytes_received_def crule_bytes_sent_def crule_cap_version_def crule_channel_count_def
    crule_channel_member_count_def crule_connections_from_ip_def crule_digit_percentage_def crule_directop_def
    crule_has_swhois_def crule_idle_time_def crule_away_def crule_is_identified_def
    crule_is_local_def crule_is_oper_def crule_tls_def crule_is_webirc_def
    crule_is_websocket_def crule_max_repeat_count_def crule_messages_received_def crule_messages_sent_def
    crule_mixed_utf8_score_def crule_non_ascii_percentage_def crule_online_time_def crule_reputation_def
    crule_server_port_def crule_text_byte_count_def crule_text_character_count_def crule_unicode_block_count_def
    crule_uppercase_percentage_def crule_word_count_def

lemmas one_arg_defs =
    crule_cap_set_def crule_connected_def crule_destination_def crule_directcon_def
    crule_has_channel_mode_def crule_in_security_group_def crule_match_account_def crule_match_asn_def
    crule_match_asname_def crule_match_away_def crule_match_certfp_def crule_match_class_def
    crule_match_country_def crule_match_ip_def crule_match_mask_def crule_match_operlogin_def
    crule_match_realhost_def crule_match_realname_def crule_match_server_def crule_match_sni_def
    crule_match_tls_cipher_def crule_tag_def crule_total_channel_flood_count_def

lemma calls_no_args:
  assumes "context_ok env ctx"
  shows "\<forall>f \<in> set [crule_bytes_received, crule_bytes_sent, crule_cap_version, crule_channel_count,
      crule_channel_member_count, crule_connections_from_ip, crule_digit_percentage, crule_directop,
      crule_has_swhois, crule_idle_time, crule_away, crule_is_identified,
      crule_is_local, crule_is_oper, crule_tls, crule_is_webirc,
      crule_is_websocket, crule_max_repeat_count, crule_messages_received, crule_messages_sent,
      crule_mixed_utf8_score, crule_non_ascii_percentage, crule_online_time, crule_reputation,
      crule_server_port, crule_text_byte_count, crule_text_character_count, crule_unicode_block_count,
      crule_uppercase_percentage, crule_word_count]. returns (f env ctx [])"
  unfolding no_arg_defs using assms
  by (simp only: list.set ball_simps) (intro conjI; fastforce simp: client_ok_def split: option.splits)

lemma returns_unicode_count:
  "context_ok env ctx \<Longrightarrow> returns (crule_unicode_count env ctx [a])"
  using block_number_bound [of "e_unicode_blocks env" a 0]
  by (fastforce simp: crule_unicode_count_def Let_def)

lemma returns_match_vhost: "context_ok env ctx \<Longrightarrow> returns (crule_match_vhost env ctx [a])"
  by (fastforce simp: crule_match_vhost_def GetHost_def client_ok_def split: option.splits)

lemma returns_match_operclass: "context_ok env ctx \<Longrightarrow> returns (crule_match_operclass env ctx [a])"
  by (fastforce simp: crule_match_operclass_def MyUser_def client_ok_def split: option.splits)

lemma returns_has_user_mode: "context_ok env ctx \<Longrightarrow> returns (crule_has_user_mode env ctx [a])"
  unfolding crule_has_user_mode_def by (intro returns_client returns_arg) simp_all

lemma returns_server_flood_count: "context_ok env ctx \<Longrightarrow> returns (crule_server_flood_count env ctx [a])"
  by (fastforce simp: crule_server_flood_count_def client_ok_def split: option.splits)

lemma returns_in_channel: "a \<noteq> [] \<Longrightarrow> returns (crule_in_channel env ctx [a])"
  unfolding crule_in_channel_def by (intro returns_user returns_arg) (cases a, simp_all)

lemma calls_one_arg:
  assumes "context_ok env ctx" "a \<noteq> []"
  shows "\<forall>f \<in> set [crule_cap_set, crule_connected, crule_destination, crule_directcon,
      crule_has_channel_mode, crule_has_user_mode, crule_in_channel, crule_in_security_group,
      crule_match_account, crule_match_asn, crule_match_asname, crule_match_away,
      crule_match_certfp, crule_match_class, crule_match_country, crule_match_ip,
      crule_match_mask, crule_match_operclass, crule_match_operlogin, crule_match_realhost,
      crule_match_realname, crule_match_server, crule_match_sni, crule_match_tls_cipher,
      crule_match_vhost, crule_server_flood_count, crule_tag, crule_total_channel_flood_count,
      crule_unicode_count]. returns (f env ctx [a])"
  unfolding one_arg_defs using assms
  by (simp only: list.set ball_simps)
     (intro conjI; fastforce simp: returns_unicode_count returns_match_vhost returns_match_operclass returns_has_user_mode
        returns_server_flood_count returns_in_channel split: option.splits)

lemma returns_via_loop: "\<forall>c \<in> set cs. cl_uplink c \<noteq> None \<Longrightarrow> returns (via_loop a b cs)"
  by (induction cs) (auto split: option.splits)

lemma returns_via:
  "\<forall>c \<in> set (e_global_server_list env). cl_uplink c \<noteq> None \<Longrightarrow> returns (crule_via env ctx [a, b])"
  by (auto simp: crule_via_def crulearg_def returns_via_loop)

section \<open>Accepted rules call functions as the table demands\<close>

definition call_ok :: "(cstring \<times> nat \<times> 'f) list \<Rightarrow> 'f \<times> cstring list \<Rightarrow> bool" where
  "call_ok tab c = (case c of (f, args) \<Rightarrow> (\<exists>nm. (nm, length args, f) \<in> set tab) \<and> list_all (\<lambda>a. a \<noteq> []) args)"

definition node_ok :: "(cstring \<times> nat \<times> 'f) list \<Rightarrow> 'f crule_node option \<Rightarrow> bool" where
  "node_ok tab nd = (case nd of None \<Rightarrow> True | Some n \<Rightarrow> \<forall>c \<in> calls n. call_ok tab c)"

lemma node_ok_simps [simp]:
  "node_ok tab None"
  "node_ok tab (Some (CAndOr is_or a b)) \<longleftrightarrow> node_ok tab a \<and> node_ok tab b"
  "node_ok tab (Some (CNot a)) \<longleftrightarrow> node_ok tab a"
  by (auto simp: node_ok_def split: option.splits)

lemma attach_node_ok: "node_ok tab root \<Longrightarrow> node_ok tab x \<Longrightarrow> node_ok tab (attach root x)"
  by (cases root rule: option.exhaust; cases "the root") (auto simp: attach_def)

lemma arglist_nonempty:
  "crule_parsearglist args cur tok s = Inr (e, args', t, s') \<Longrightarrow> list_all (\<lambda>a. a \<noteq> []) args \<Longrightarrow> list_all (\<lambda>a. a \<noteq> []) args'"
proof (induction args cur tok s rule: arglist_induct)
  case (word args cur s)
  obtain w r where w: "crule_getword (CR_MAXARGLEN - 1) s = Inr (w, r)"
    using word.prems arglist_word_fault by (cases "crule_getword (CR_MAXARGLEN - 1) s") auto
  obtain e1 t1 s1 where g: "crule_gettoken None r = (e1, t1, s1)" by (metis prod_cases3)
  show ?case using word.IH [OF w g] word.prems arglist_word [OF w g] by (auto split: if_splits)
next
  case (comma args cur s)
  obtain e1 t1 s1 where g: "crule_gettoken None s = (e1, t1, s1)" by (metis prod_cases3)
  have ok: "\<not> (cur \<noteq> [] \<and> CR_MAXARGS \<le> length args)" using comma.prems arglist_overflow [of CR_COMMA] by auto
  show ?case
    using comma.IH [OF g] comma.prems arglist_comma [OF g ok] by (cases "cur = []") (auto split: if_splits)
next
  case (stop args cur tok s)
  then show ?case by (cases "cur \<noteq> [] \<and> CR_MAXARGS \<le> length args") (auto simp: arglist_overflow arglist_end split: if_splits)
qed

lemma bsearch_in: "bsearch tab key l u = Some e \<Longrightarrow> u \<le> length tab \<Longrightarrow> e \<in> set tab"
proof (induction tab key l u rule: bsearch.induct)
  case (1 tab key l u)
  define idx where "idx = (l + u) div 2"
  have lu: "l < u" using "1.prems" by (subst (asm) bsearch.simps) (auto split: if_splits)
  then have "idx < length tab" "idx \<le> length tab" using "1.prems" by (auto simp: idx_def)
  moreover have "bsearch tab key l u = (if strcasecmp key (fst (tab ! idx)) < 0 then bsearch tab key l idx
      else if strcasecmp key (fst (tab ! idx)) > 0 then bsearch tab key (idx + 1) u else Some (tab ! idx))"
    using lu by (subst bsearch.simps) (simp add: idx_def Let_def)
  ultimately show ?case
    using "1.prems" "1.IH" [OF lu idx_def refl] by (auto split: if_splits)
qed

lemma parsefunction_node_ok:
  assumes "crule_parsefunction tab s = Inr (CR_NOERR, node, t, s')"
  shows "node_ok tab node"
proof -
  obtain name s1 where w: "crule_getword (CR_MAXARGLEN - 1) s = Inr (name, s1)"
    using assms by (auto simp: crule_parsefunction_def split: sum.splits)
  obtain e2 t2 s2 where g2: "crule_gettoken None s1 = (e2, t2, s2)" by (metis prod_cases3)
  obtain e3 t3 s3 where g3: "crule_gettoken None s2 = (e3, t3, s3)" by (metis prod_cases3)
  obtain nm req func where b: "bsearch tab name 0 (length tab) = Some (nm, req, func)"
    using assms w g2 by (auto simp: crule_parsefunction_def split: if_split_asm option.split_asm)
  obtain e4 args t4 s4 where a: "crule_parsearglist [] [] t3 s3 = Inr (e4, args, t4, s4)"
    using assms w g2 g3 b by (auto simp: crule_parsefunction_def split: if_split_asm sum.split_asm)
  have "req = length args \<and> (\<exists>test. node = Some (CFunc func args test))"
    using assms w g2 g3 b a
    by (auto simp: crule_parsefunction_def Let_def split: if_split_asm sum.split_asm prod.split_asm)
  then show ?thesis
    using bsearch_in [OF b order_refl] arglist_nonempty [OF a] by (auto simp: node_ok_def call_ok_def)
qed

definition result_ok :: "(cstring \<times> nat \<times> 'f) list \<Rightarrow> 'f parse_result \<Rightarrow> bool" where
  "result_ok tab res \<longleftrightarrow> (\<forall>node t s. res = Some (Inr (CR_NOERR, node, t, s)) \<longrightarrow> node_ok tab node)"

lemma result_ok_simps [simp]:
  "result_ok tab None" "result_ok tab (Some (Inl f))"
  "result_ok tab (Some (Inr (e, node, t, s))) \<longleftrightarrow> (e = CR_NOERR \<longrightarrow> node_ok tab node)"
  by (auto simp: result_ok_def)

lemma result_cases:
  obtains "res = None" | f where "res = Some (Inl f)" | e node t s where "res = Some (Inr (e, node, t, s))"
  by (metis option.exhaust sum.exhaust prod_cases4)

lemma orexpr_iter_ok:
  assumes "result_ok tab (pa None tok s)" "node_ok tab root"
    and "\<And>root' t' s'. node_ok tab root' \<Longrightarrow> result_ok tab (po root' t' s')"
  shows "result_ok tab (orexpr_iter pa po root tok s)"
proof (cases "pa None tok s" rule: result_cases)
  case (3 e x t r)
  obtain e' t' r' where g: "crule_gettoken None r = (e', t', r')" by (metis prod_cases3)
  have a: "node_ok tab (attach root x)" if "e = CR_NOERR"
    using assms(1,2) attach_node_ok [of tab root x] 3 that by simp
  have "result_ok tab (po (Some (CAndOr True (attach root x) None)) t' r')" if "e = CR_NOERR"
    by (rule assms(3)) (simp add: a that)
  then show ?thesis using 3 g a assms(1) by (simp add: orexpr_iter_def Let_def)
qed (simp_all add: orexpr_iter_def)

lemma andexpr_iter_ok:
  assumes "result_ok tab (pp False tok s)" "node_ok tab root"
    and "\<And>root' t' s'. node_ok tab root' \<Longrightarrow> result_ok tab (pa root' t' s')"
  shows "result_ok tab (andexpr_iter pp pa root tok s)"
proof (cases "pp False tok s" rule: result_cases)
  case (3 e x t r)
  obtain e' t' r' where g: "crule_gettoken None r = (e', t', r')" by (metis prod_cases3)
  have a: "node_ok tab (attach root x)" if "e = CR_NOERR"
    using assms(1,2) attach_node_ok [of tab root x] 3 that by simp
  have "result_ok tab (pa (Some (CAndOr False (attach root x) None)) t' r')" if "e = CR_NOERR"
    by (rule assms(3)) (simp add: a that)
  then show ?thesis using 3 g a assms(1) by (simp add: andexpr_iter_def Let_def)
qed (simp_all add: andexpr_iter_def)

lemma primary_iter_ok:
  assumes "\<And>t' s'. result_ok tab (po None t' s')" "\<And>nested' t' s'. result_ok tab (pp nested' t' s')"
  shows "result_ok tab (primary_iter tab po pp nested tok s)"
proof -
  obtain e1 t1 s1 where g: "crule_gettoken None s = (e1, t1, s1)" by (metis prod_cases3)
  have po: "result_ok tab (po None t1 s1)" and pp: "result_ok tab (pp True t1 s1)" using assms by auto
  consider "tok = CR_OPENPAREN" | "tok = CR_NOT" | "tok = CR_WORD" | "tok \<noteq> CR_OPENPAREN" "tok \<noteq> CR_NOT" "tok \<noteq> CR_WORD" by blast
  then show ?thesis
  proof cases
    case 1
    then show ?thesis
      using po g by (cases "po None t1 s1" rule: result_cases) (auto simp: primary_iter_def split: prod.splits)
  next
    case 2
    then show ?thesis
      using pp g by (cases "pp True t1 s1" rule: result_cases) (auto simp: primary_iter_def)
  next
    case 3
    then show ?thesis
      using parsefunction_node_ok [of tab s] by (auto simp: primary_iter_def result_ok_def)
  qed (simp add: primary_iter_def)
qed

lemma parsers_node_ok:
  "(\<forall>root tok s. node_ok tab root \<longrightarrow> result_ok tab (crule_parseorexpr tab n root tok s))
   \<and> (\<forall>root tok s. node_ok tab root \<longrightarrow> result_ok tab (crule_parseandexpr tab n root tok s))
   \<and> (\<forall>nested tok s. result_ok tab (crule_parseprimary tab n nested tok s))"
proof (induction n)
  case 0
  then show ?case by (simp add: parsers_0 result_ok_def)
next
  case (Suc n)
  show ?case
    unfolding parsers_Suc
    by (intro conjI allI impI orexpr_iter_ok andexpr_iter_ok primary_iter_ok) (use Suc in auto)
qed

lemma parse_rule_ok:
  assumes "crule_parse_rule tab rule = Some (Inr (e, Some t))"
  shows "e = CR_NOERR" and "\<forall>c \<in> calls t. call_ok tab c"
proof -
  obtain e1 t1 s1 where g: "crule_gettoken None rule = (e1, t1, s1)" by (metis prod_cases3)
  have ok: "result_ok tab (crule_parseorexpr tab (parse_fuel rule) None t1 s1)"
    using parsers_node_ok [of tab "parse_fuel rule"] by simp
  have "e = CR_NOERR \<and> (\<forall>c \<in> calls t. call_ok tab c)"
  proof (cases "crule_parseorexpr tab (parse_fuel rule) None t1 s1" rule: result_cases)
    case (3 e2 node t2 s2)
    then show ?thesis using assms g ok by (auto simp: crule_parse_rule_def node_ok_def split: if_split_asm)
  qed (use assms g in \<open>auto simp: crule_parse_rule_def split: if_split_asm\<close>)
  then show "e = CR_NOERR" and "\<forall>c \<in> calls t. call_ok tab c" by auto
qed

lemma parse_SomeD:
  "crule_parse rule = Some (Inr (Some t)) \<Longrightarrow> \<exists>e. crule_parse_rule crule_funclist rule = Some (Inr (e, Some t))"
  unfolding crule_parse_def
  by (cases "crule_parse_rule crule_funclist rule" rule: option.exhaust; cases "the (crule_parse_rule crule_funclist rule)") auto

lemma funclist_arities:
  "(nm, n, f) \<in> set crule_funclist \<Longrightarrow>
     n = 0 \<and> f \<in> set [crule_bytes_received, crule_bytes_sent, crule_cap_version, crule_channel_count,
      crule_channel_member_count, crule_connections_from_ip, crule_digit_percentage, crule_directop,
      crule_has_swhois, crule_idle_time, crule_away, crule_is_identified,
      crule_is_local, crule_is_oper, crule_tls, crule_is_webirc,
      crule_is_websocket, crule_max_repeat_count, crule_messages_received, crule_messages_sent,
      crule_mixed_utf8_score, crule_non_ascii_percentage, crule_online_time, crule_reputation,
      crule_server_port, crule_text_byte_count, crule_text_character_count, crule_unicode_block_count,
      crule_uppercase_percentage, crule_word_count]
   \<or> n = 1 \<and> f \<in> set [crule_cap_set, crule_connected, crule_destination, crule_directcon,
      crule_has_channel_mode, crule_has_user_mode, crule_in_channel, crule_in_security_group,
      crule_match_account, crule_match_asn, crule_match_asname, crule_match_away,
      crule_match_certfp, crule_match_class, crule_match_country, crule_match_ip,
      crule_match_mask, crule_match_operclass, crule_match_operlogin, crule_match_realhost,
      crule_match_realname, crule_match_server, crule_match_sni, crule_match_tls_cipher,
      crule_match_vhost, crule_server_flood_count, crule_tag, crule_total_channel_flood_count,
      crule_unicode_count]
   \<or> n = 2 \<and> f = crule_via"
  unfolding crule_funclist_def list.set insert_iff empty_iff prod.inject by blast

lemma table_call_returns:
  assumes "(nm, length args, f) \<in> set crule_funclist" "list_all (\<lambda>a. a \<noteq> []) args"
    and "context_ok env ctx" and "length args = 2 \<Longrightarrow> \<forall>c \<in> set (e_global_server_list env). cl_uplink c \<noteq> None"
  shows "returns (f env ctx args)"
proof -
  have "length args = 0 \<or> length args = 1 \<or> length args = 2" using funclist_arities [OF assms(1)] by blast
  then consider "args = []" | a where "args = [a]" | a b where "args = [a, b]"
    by (auto simp: length_Suc_conv numeral_2_eq_2 One_nat_def)
  then show ?thesis
  proof cases
    case 1
    then show ?thesis using funclist_arities [OF assms(1)] calls_no_args [OF assms(3)] by auto
  next
    case (2 a)
    then have "a \<noteq> []" using assms(2) by auto
    then show ?thesis using 2 funclist_arities [OF assms(1)] calls_one_arg [OF assms(3)] by auto
  next
    case (3 a b)
    then show ?thesis using funclist_arities [OF assms(1)] returns_via assms(4) by auto
  qed
qed

section \<open>Faults on malformed rules\<close>

lemma parse_rule_fault:
  assumes "crule_gettoken None s = (CR_NOERR, CR_WORD, s)" "crule_parsefunction tab s = Inl f"
  shows "crule_parse_rule tab s = Some (Inl f)"
proof -
  have fuel: "parse_fuel s = Suc (Suc (Suc (6 * length s + 3)))" by (simp add: parse_fuel_def)
  show ?thesis
    unfolding crule_parse_rule_def fuel parsers_Suc
    by (simp add: assms orexpr_iter_def andexpr_iter_def primary_iter_def)
qed

lemma parsefunction_arg_fault:
  assumes tab: "names_sorted (map fst tab)" and name: "word_ok name" "lookup tab name = Some (req, f)"
    and r: "crule_gettoken None r = (CR_NOERR, CR_WORD, r)" "crule_parsearglist [] [] CR_WORD r = Inl flt"
  shows "crule_parse_rule tab (name @ CHR ''('' # r) = Some (Inl flt)"
proof (rule parse_rule_fault)
  obtain c w where "name = c # w" "wordchar c" using name(1) by (cases name) (auto simp: word_ok_def)
  then show "crule_gettoken None (name @ CHR ''('' # r) = (CR_NOERR, CR_WORD, name @ CHR ''('' # r)"
    using gettoken_wordchar by simp
  obtain nm where b: "bsearch tab name 0 (length tab) = Some (nm, req, f)"
    using lookup_bsearch [OF tab _ name(2)] wordchar_cstr name(1) by (auto simp: word_ok_def)
  have w: "crule_getword (CR_MAXARGLEN - 1) (name @ CHR ''('' # r) = Inr (name, CHR ''('' # r)"
    using getword_plain [OF name(1)] not_wordchar by simp
  show "crule_parsefunction tab (name @ CHR ''('' # r) = Inl flt"
    by (simp add: crule_parsefunction_def w b gettoken_chars r)
qed

lemma getword_loop_unterminated:
  "CHR 0x27 \<notin> set w \<Longrightarrow> length w < n \<Longrightarrow> getword_loop True n w = Inl Over_Read"
proof (induction w arbitrary: n)
  case Nil
  then show ?case by (cases n) auto
next
  case (Cons c w)
  then obtain m where "n = Suc m" by (cases n) auto
  with Cons show ?case by auto
qed

lemma arglist_unterminated:
  "CHR 0x27 \<notin> set w \<Longrightarrow> length w < CR_MAXARGLEN - 1 \<Longrightarrow> crule_parsearglist acc cur CR_WORD (CHR 0x27 # w) = Inl Over_Read"
  using getword_loop_unterminated [of w "CR_MAXARGLEN - 1"]
  by (intro arglist_word_fault) (simp add: crule_getword_def)

lemma arglist_too_many:
  assumes "list_all arg_ok args" "length acc \<le> CR_MAXARGS" "CR_MAXARGS < length acc + length args"
  shows "crule_parsearglist acc [] CR_WORD (print_args args @ CHR '')'' # k) = Inl Array_Overflow"
  using assms
proof (induction args arbitrary: acc rule: print_args.induct)
  case (2 a)
  then have a: "arg_ok a" by simp
  have "crule_parsearglist acc [] CR_WORD (print_args [a] @ CHR '')'' # k) = crule_parsearglist acc a CR_CLOSEPAREN k"
    using arglist_word [OF getword_quoted [OF a] gettoken_chars(2)] by (simp add: join_word_def)
  then show ?case using arglist_overflow [of CR_CLOSEPAREN a acc k] 2 a by (simp add: arg_ok_def)
next
  case (3 a b as)
  then have a: "arg_ok a" by simp
  let ?r = "print_args (b # as) @ CHR '')'' # k"
  obtain r where r: "?r = CHR 0x27 # r" by (cases as) (auto simp: quote_arg_def)
  have g: "crule_gettoken None ?r = (CR_NOERR, CR_WORD, ?r)" using gettoken_chars(10) r by simp
  have *: "crule_parsearglist acc [] CR_WORD (print_args (a # b # as) @ CHR '')'' # k) = crule_parsearglist acc a CR_COMMA ?r"
    using arglist_word [OF getword_quoted [OF a] gettoken_chars(4)] by (simp add: join_word_def)
  show ?case
  proof (cases "CR_MAXARGS \<le> length acc")
    case True
    then show ?thesis unfolding * using a arglist_overflow [of CR_COMMA a acc ?r] by (simp add: arg_ok_def)
  next
    case False
    have "crule_parsearglist acc a CR_COMMA ?r = crule_parsearglist (acc @ [a]) [] CR_WORD ?r"
      using arglist_comma [OF g, of a acc] False a by (simp add: arg_ok_def)
    also have "\<dots> = Inl Array_Overflow" using 3 False by (intro "3.IH") auto
    finally show ?thesis unfolding * .
  qed
qed simp

lemma chain_null_eval:
  assumes "\<And>x. crule_eval call (set_arg1 root x) = Inl Null_Deref"
  shows "xs \<noteq> [] \<Longrightarrow> \<exists>t. chain is_or (Some root) xs = Some t \<and> crule_eval call t = Inl Null_Deref"
  using assms
proof (induction xs arbitrary: root rule: induct_list012)
  case (3 x y zs)
  have "\<And>z. crule_eval call (set_arg1 (CAndOr is_or (Some (set_arg1 root (Some x))) None) z) = Inl Null_Deref"
    using 3(4) by simp
  from "3.IH"(2) [OF _ this] show ?case by (simp add: attach_def)
qed (simp_all add: attach_def)

lemma leading_or:
  assumes "names_sorted (map fst tab)" "rule_ok tab e"
  shows "\<exists>t. crule_parse_rule tab (''||'' @ print_rule 0 e) = Some (Inr (CR_NOERR, Some t))
    \<and> (\<forall>call. crule_eval call t = Inl Null_Deref)"
proof -
  let ?r = "print_rule 0 e"
  let ?s = "CHR ''|'' # CHR ''|'' # ?r"
  let ?root = "CAndOr True None None"
  define m where "m = 6 * length ?r + 15"
  have ops: "\<forall>x \<in> set (items True e). operand_ok tab True x" using rule_operands [OF assms] by blast
  obtain N where N: "\<forall>n \<ge> N. \<exists>t0 r. crule_gettoken None ?r = (CR_NOERR, t0, r)
    \<and> crule_parseorexpr tab n (Some ?root) t0 r
      = Some (Inr (CR_NOERR, chain True (Some ?root) (map (tree tab) (items True e)), CR_END, []))"
    using chain_list [OF ops items_not_Nil follow_simps(1), of "Some ?root"] print_items [of True e]
    by (simp add: op_tok_def chain_parse_def) blast
  obtain t0 r where g: "crule_gettoken None ?r = (CR_NOERR, t0, r)" using N by blast
  have g1: "crule_gettoken None ?s = (CR_NOERR, CR_OR, ?r)" using gettoken_chars(9) by simp
  have fuel: "parse_fuel ?s = Suc (Suc (Suc m))" by (simp add: parse_fuel_def m_def)
  have "crule_parseandexpr tab (Suc (Suc m)) None CR_OR ?r = Some (Inr (CR_NOERR, None, CR_OR, ?r))"
    by (simp add: parsers_Suc andexpr_iter_def primary_iter_def)
  then have p: "crule_parseorexpr tab (parse_fuel ?s) None CR_OR ?r = crule_parseorexpr tab (Suc (Suc m)) (Some ?root) t0 r"
    unfolding fuel parsers_Suc(1) [of tab "Suc (Suc m)"]
    by (simp add: orexpr_iter_def g attach_def Let_def)
  obtain res where res: "crule_parseorexpr tab (parse_fuel ?s) None CR_OR ?r = Some res"
    using parse_rule_total [of tab ?s] by (auto simp: crule_parse_rule_def g1 split: option.splits)
  have "crule_parseorexpr tab (max N (Suc (Suc m))) (Some ?root) t0 r = Some res"
    by (rule parseorexpr_mono [OF _ res [unfolded p]]) simp
  moreover have "crule_parseorexpr tab (max N (Suc (Suc m))) (Some ?root) t0 r
      = Some (Inr (CR_NOERR, chain True (Some ?root) (map (tree tab) (items True e)), CR_END, []))"
    using N g by (metis max.cobounded1 prod.inject)
  ultimately have "res = Inr (CR_NOERR, chain True (Some ?root) (map (tree tab) (items True e)), CR_END, [])" by simp
  moreover have ev: "\<exists>t. chain True (Some ?root) (map (tree tab) (items True e)) = Some t \<and> crule_eval call t = Inl Null_Deref" for call
    by (rule chain_null_eval) simp_all
  moreover obtain t where t: "chain True (Some ?root) (map (tree tab) (items True e)) = Some t" using ev by blast
  ultimately have "crule_parse_rule tab ?s = Some (Inr (CR_NOERR, Some t))" using res by (simp add: crule_parse_rule_def g1)
  moreover have "crule_eval call t = Inl Null_Deref" for call using ev [of call] t by simp
  ultimately show ?thesis by simp
qed

section \<open>Properties\<close>

text \<open>
  C20: the parser returns for every rule and every function table: the fuel given to the three
  mutually recursive functions, six times the length of the rule and six, is never exhausted.
\<close>

theorem crule_parse_terminates: "\<exists>res. crule_parse_rule tab rule = Some res"
  using parse_rule_total [of tab rule] by simp

text \<open>
  C17: printing a rule and parsing it gives its tree back, for every expression over the
  function table (names in any letter case, the right number of quoted arguments, optional
  comparisons) with parentheses only where precedence needs them; and evaluating the tree
  gives a non-zero value exactly if the expression is true, when no called function faults.
\<close>

theorem crule_roundtrip:
  assumes "rule_ok crule_funclist e"
    and "\<forall>(f, args) \<in> calls (tree crule_funclist e). \<exists>v. f env ctx args = Inr v"
  shows "crule_parse (print_rule 0 e) = Some (Inr (Some (tree crule_funclist e)))
    \<and> crule_test (print_rule 0 e) = Some (Inr 0)
    \<and> (\<exists>v. crule_eval (\<lambda>f. f env ctx) (tree crule_funclist e) = Inr v
         \<and> (v \<noteq> 0 \<longleftrightarrow> rule_true (\<lambda>f. f env ctx) crule_funclist e))"
  using parse_print [OF names_sorted_funclist assms(1)] eval_tree [OF assms(2)]
  by (simp add: crule_parse_def crule_test_def)

theorem crule_roundtrip_witness:
  "\<forall>env. \<exists>t. crule_parse ''is_oper()&&!(Connections_From_IP()>3||has_swhois())'' = Some (Inr (Some t))
     \<and> crule_test ''is_oper()&&!(Connections_From_IP()>3||has_swhois())'' = Some (Inr 0)
     \<and> (\<exists>v. crule_eval (\<lambda>f. f env None) t = Inr v)"
proof
  fix env
  let ?e = "RAnd (RCall ''is_oper'' [] None)
    (RNot (ROr (RCall ''Connections_From_IP'' [] (Some (CR_MORE_THAN, ''3''))) (RCall ''has_swhois'' [] None)))"
  have lk: "lookup crule_funclist ''is_oper'' = Some (0, crule_is_oper)"
    "lookup crule_funclist ''Connections_From_IP'' = Some (0, crule_connections_from_ip)"
    "lookup crule_funclist ''has_swhois'' = Some (0, crule_has_swhois)"
    by (simp_all add: lookup_def crule_funclist_def strcaseeq_def tolower_int)
  have w: "word_ok ''is_oper''" "word_ok ''Connections_From_IP''" "word_ok ''has_swhois''" "word_ok ''3''" by code_simp+
  have ok: "rule_ok crule_funclist ?e"
    using w by (simp add: lk test_ok_def IsComparisson_def)
  have calls: "\<forall>(f, args) \<in> calls (tree crule_funclist ?e). \<exists>v. f env None args = Inr v"
    by (simp add: lk crule_is_oper_def crule_connections_from_ip_def crule_has_swhois_def with_client_def with_user_def)
  have "print_rule 0 ?e = ''is_oper()&&!(Connections_From_IP()>3||has_swhois())''" by simp
  then show "\<exists>t. crule_parse ''is_oper()&&!(Connections_From_IP()>3||has_swhois())'' = Some (Inr (Some t))
     \<and> crule_test ''is_oper()&&!(Connections_From_IP()>3||has_swhois())'' = Some (Inr 0)
     \<and> (\<exists>v. crule_eval (\<lambda>f. f env None) t = Inr v)"
    using crule_roundtrip [OF ok calls] by auto
qed



text \<open>
  an operator without a left operand is accepted: for every well-formed rule, the rule
  with a leading \<^verbatim>\<open>||\<close> passes \<^verbatim>\<open>crule_test\<close> and is parsed to a tree whose evaluation
  reads through NULL, whatever the functions return.
\<close>

theorem crule_leading_or_faults:
  assumes "rule_ok crule_funclist e"
  shows "\<exists>t. crule_parse (''||'' @ print_rule 0 e) = Some (Inr (Some t))
    \<and> crule_test (''||'' @ print_rule 0 e) = Some (Inr 0)
    \<and> (\<forall>call. crule_eval call t = Inl Null_Deref)"
  using leading_or [OF names_sorted_funclist assms] by (auto simp: crule_parse_def crule_test_def)

theorem crule_leading_or_faults_witness:
  "crule_test ''||is_oper()'' = Some (Inr 0)"
proof -
  have lk: "lookup crule_funclist ''is_oper'' = Some (0, crule_is_oper)"
    by (simp add: lookup_def crule_funclist_def strcaseeq_def tolower_int)
  have "word_ok ''is_oper''" by code_simp
  then have "rule_ok crule_funclist (RCall ''is_oper'' [] None)" by (simp add: lk test_ok_def)
  from crule_leading_or_faults [OF this] show ?thesis by auto
qed

text \<open>
  a call whose quoted argument is not closed makes the scanner read past the end of the
  rule, and a call with more than five arguments makes the parser write past the argument
  array; both for every function of the table.
\<close>

theorem crule_malformed_faults:
  assumes "word_ok name" "lookup crule_funclist name = Some (req, f)"
    and "CHR 0x27 \<notin> set w" "length w < 159" "list_all arg_ok args" "5 < length args"
  shows "crule_test (name @ ''('' @ CHR 0x27 # w) = Some (Inl Over_Read)
    \<and> crule_test (name @ ''('' @ print_args args @ '')'') = Some (Inl Array_Overflow)"
proof
  note fault = parsefunction_arg_fault [OF names_sorted_funclist assms(1,2)]
  have "crule_parse_rule crule_funclist (name @ CHR ''('' # CHR 0x27 # w) = Some (Inl Over_Read)"
    using assms(3,4) by (intro fault gettoken_chars(10) arglist_unterminated) (simp_all add: CR_MAXARGLEN_def)
  then show "crule_test (name @ ''('' @ CHR 0x27 # w) = Some (Inl Over_Read)" by (simp add: crule_test_def)
  obtain a as where args: "args = a # as" using assms(6) by (cases args) auto
  obtain r where r: "print_args args @ '')'' = CHR 0x27 # r" unfolding args by (cases as) (auto simp: quote_arg_def)
  have "crule_parse_rule crule_funclist (name @ CHR ''('' # print_args args @ '')'') = Some (Inl Array_Overflow)"
  proof (rule fault)
    show "crule_gettoken None (print_args args @ '')'') = (CR_NOERR, CR_WORD, print_args args @ '')'')"
      unfolding r by (rule gettoken_chars(10))
    show "crule_parsearglist [] [] CR_WORD (print_args args @ '')'') = Inl Array_Overflow"
      using arglist_too_many [of args "[]" "[]"] assms(5,6) by (simp add: CR_MAXARGS_def)
  qed
  then show "crule_test (name @ ''('' @ print_args args @ '')'') = Some (Inl Array_Overflow)" by (simp add: crule_test_def)
qed

theorem crule_malformed_faults_witness:
  "crule_test (''tag('' @ CHR 0x27 # ''x)'') = Some (Inl Over_Read)"
proof -
  have lk: "lookup crule_funclist ''tag'' = Some (1, crule_tag)"
    by (simp add: lookup_def crule_funclist_def strcaseeq_def tolower_int)
  have w: "word_ok ''tag''" by code_simp
  have "list_all arg_ok (replicate 6 ''a'')" by code_simp
  from crule_malformed_faults [OF w lk _ _ this, of "''x)''"] show ?thesis by simp
qed

text \<open>
  \<^verbatim>\<open>via\<close> reads the uplink of each server whose name matches. The server's own entry, the
  last one of the list, has no uplink, so the call reads through NULL when the second mask
  matches the own name and no other server fits.
\<close>

theorem crule_via_own_server_faults:
  assumes "e_global_server_list env = others @ [own]" "cl_uplink own = None" "mask_matches b (cl_name own)"
    and "\<forall>c \<in> set others. \<not> mask_matches b (cl_name c) \<or> (\<exists>up. cl_uplink c = Some up \<and> \<not> mask_matches a up)"
  shows "crule_via env ctx [a, b] = Inl Null_Deref"
proof -
  have "via_loop a b (others @ [own]) = Inl Null_Deref"
    using assms(4) by (induction others) (auto simp: assms(2,3))
  then show ?thesis by (simp add: crule_via_def crulearg_def assms(1))
qed

theorem crule_via_own_server_faults_witness:
  "crule_via (undefined\<lparr>e_global_server_list := [undefined\<lparr>cl_name := ''irc.x'', cl_uplink := None\<rparr>]\<rparr>) None [''*'', ''*''] = Inl Null_Deref"
proof -
  have "mask_matches ''*'' ''irc.x''"
    unfolding mask_matches_def by (subst match_simple_glob) (simp, simp, code_simp)
  then show ?thesis
    by (intro crule_via_own_server_faults [where others = "[]" and own = "undefined\<lparr>cl_name := ''irc.x'', cl_uplink := None\<rparr>"]) simp_all
qed

end
