(* ===== verification/Utf8.thy ===== *)
theory Utf8
  imports Support
begin

text \<open>
  UTF-8 validation and repair (\<^verbatim>\<open>src/utf8.c\<close>). Characters are unsigned, as everywhere in the
  server. The lemmas relate the bit tests of the validator to the encoding of Unicode scalar
  values in RFC 3629, and show that cutting a valid string in front of a byte that starts a
  sequence keeps it valid, which the repair and truncation functions rely on.
\<close>

unbundle bit_operations_syntax

section \<open>The model\<close>

text \<open>\<^verbatim>\<open>VALIDATE_BYTE\<close> at the head of the remaining string; at its end the byte is NUL.\<close>

definition VALIDATE_BYTE :: "cstring \<Rightarrow> nat \<Rightarrow> nat \<Rightarrow> bool" where
  "VALIDATE_BYTE p bits expected \<longleftrightarrow> of_char (c_at p 0) AND bits = expected"

definition last_byte :: "cstring \<Rightarrow> cstring option" where
  "last_byte p = (if VALIDATE_BYTE p 0xc0 0x80 then Some (tl p) else None)"

text \<open>The sequence that starts with the byte \<open>c\<close> of 128 or above: what is left behind it.\<close>

definition multibyte :: "char \<Rightarrow> cstring \<Rightarrow> cstring option" where
  "multibyte c p =
     (if of_char c < (0xe0 :: nat) then
        (if of_char c < (0xc2 :: nat) then None else last_byte p)
      else if of_char c < (0xf0 :: nat) then
        (if (if of_char c AND 0x0f = (0 :: nat) then VALIDATE_BYTE p 0xe0 0xa0
             else if of_char c AND 0x0f = (0x0d :: nat) then VALIDATE_BYTE p 0xe0 0x80
             else VALIDATE_BYTE p 0xc0 0x80)
         then last_byte (tl p) else None)
      else if of_char c < (0xf5 :: nat) then
        (if (if of_char c AND 0x07 = (0 :: nat) then VALIDATE_BYTE p 0xc0 0x80 \<and> of_char (c_at p 0) AND 0x30 \<noteq> (0 :: nat)
             else if of_char c AND 0x07 = (4 :: nat) then VALIDATE_BYTE p 0xf0 0x80
             else VALIDATE_BYTE p 0xc0 0x80)
         then (if VALIDATE_BYTE (tl p) 0xc0 0x80 then last_byte (tl (tl p)) else None)
         else None)
      else None)"

lemma last_byte_le: "last_byte p = Some r \<Longrightarrow> length r \<le> length p"
  by (auto simp: last_byte_def split: if_splits)

lemma multibyte_le: "multibyte c p = Some r \<Longrightarrow> length r \<le> length p"
  by (auto simp: multibyte_def split: if_splits dest!: last_byte_le)

function fast_validate :: "cstring \<Rightarrow> cstring" where
  "fast_validate [] = []"
| "fast_validate (c # p) =
     (if of_char c \<ge> (128 :: nat) then
        (case multibyte c p of None \<Rightarrow> c # p | Some r \<Rightarrow> fast_validate r)
      else fast_validate p)"
  by pat_completeness auto
termination
  by (relation "measure length") (auto simp: less_Suc_eq_le dest: multibyte_le)

definition unrl_utf8_validate :: "cstring \<Rightarrow> bool \<times> cstring" where
  "unrl_utf8_validate str = (let p = fast_validate str in (p = [], p))"

fun unrl_utf8_find_prev_char :: "cstring \<Rightarrow> nat \<Rightarrow> nat option" where
  "unrl_utf8_find_prev_char begin 0 = None"
| "unrl_utf8_find_prev_char begin (Suc p) =
     (if of_char (c_at begin p) AND 0xc0 \<noteq> (0x80 :: nat) then Some p else unrl_utf8_find_prev_char begin p)"

definition cut_prev :: "cstring \<Rightarrow> nat \<Rightarrow> cstring" where
  "cut_prev s p = (case unrl_utf8_find_prev_char s p of None \<Rightarrow> s | Some i \<Rightarrow> take i s)"

definition replacement :: cstring where
  "replacement = [CHR 0xEF, CHR 0xBF, CHR 0xBD]"

lemma fast_validate_le: "length (fast_validate s) \<le> length s"
proof (induction s rule: fast_validate.induct)
  case (2 c p)
  then show ?case by (cases "multibyte c p") (auto intro: order_trans dest: multibyte_le)
qed simp

text \<open>
  The loop of \<^verbatim>\<open>unrl_utf8_make_valid\<close>: the output buffer and whether anything was replaced.
\<close>

function make_valid_loop :: "cstring \<Rightarrow> nat \<Rightarrow> bool \<Rightarrow> cstring \<Rightarrow> cstring \<Rightarrow> bool \<Rightarrow> cstring \<times> bool" where
  "make_valid_loop str buflen strictlen remainder out replaced =
     (if remainder = [] then (out, replaced)
      else (case unrl_utf8_validate remainder of
              (True, _) \<Rightarrow>
                if \<not> replaced then (if strictlen then (fst (strlcpy out str buflen), True) else (out, False))
                else (fst (strlcat out remainder buflen), True)
            | (False, invalid) \<Rightarrow>
                let valid_bytes = length remainder - length invalid;
                    out' = fst (strlncat out remainder buflen valid_bytes)
                in make_valid_loop str buflen strictlen (tl invalid) (fst (strlcat out' replacement buflen)) True))"
  by pat_completeness auto
termination
  by (relation "measure (\<lambda>(str, buflen, strictlen, remainder, out, replaced). length remainder)")
     (auto simp: unrl_utf8_validate_def Let_def le_imp_less_Suc intro: order_less_le_trans [OF _ fast_validate_le])

definition cut_line :: "cstring \<Rightarrow> cstring \<times> bool" where
  "cut_line out =
     (if c_at out 0 = CHR ''@'' then
        (let tags = takeWhile (\<lambda>c. c \<noteq> CHR '' '') out; p = drop (length tags + 1) out
         in if CHR '' '' \<in> set out \<and> length p > 511 then (take (length tags + 1 + 511) out, True) else (out, False))
      else if length out > 511 then (take 511 out, True) else (out, False))"

definition unrl_utf8_make_valid :: "cstring option \<Rightarrow> nat \<Rightarrow> nat \<Rightarrow> cstring option" where
  "unrl_utf8_make_valid str buflen strictlen =
     (case str of
        None \<Rightarrow> None
      | Some s \<Rightarrow>
          if buflen = 0 then None
          else (case make_valid_loop s buflen (strictlen \<noteq> 0) s [] False of (out, replaced) \<Rightarrow>
                  if \<not> replaced then Some s
                  else (case (if strictlen = 2 then cut_line out else (out, False)) of (line, fix_line) \<Rightarrow>
                          if fix_line then Some (cut_prev line (length line))
                          else if length line = buflen - 1 then Some (cut_prev line (buflen - 1))
                          else Some line)))"

text \<open>The message must have a byte at index \<open>len\<close>.\<close>

definition utf8_valid_cutoff :: "cstring \<Rightarrow> nat \<Rightarrow> cstring \<times> nat" where
  "utf8_valid_cutoff msg len =
     (case unrl_utf8_find_prev_char msg (len + 1) of None \<Rightarrow> (msg, len) | Some i \<Rightarrow> (take i msg, i))"

section \<open>RFC 3629\<close>

definition scalar :: "nat \<Rightarrow> bool" where
  "scalar n \<longleftrightarrow> n < 0x110000 \<and> \<not> (0xd800 \<le> n \<and> n < 0xe000)"

definition enc :: "nat \<Rightarrow> nat list" where
  "enc n =
     (if n < 0x80 then [n]
      else if n < 0x800 then [0xc0 + n div 0x40, 0x80 + n mod 0x40]
      else if n < 0x10000 then [0xe0 + n div 0x1000, 0x80 + n div 0x40 mod 0x40, 0x80 + n mod 0x40]
      else [0xf0 + n div 0x40000, 0x80 + n div 0x1000 mod 0x40, 0x80 + n div 0x40 mod 0x40, 0x80 + n mod 0x40])"

abbreviation codes :: "cstring \<Rightarrow> nat list" where
  "codes s \<equiv> map of_char s"

definition utf8 :: "cstring \<Rightarrow> bool" where
  "utf8 s \<longleftrightarrow> (\<exists>ns. list_all scalar ns \<and> codes s = concat (map enc ns))"

section \<open>Bit tests as ranges\<close>

lemma and_field: "(x :: nat) AND (2 ^ k * (2 ^ m - 1)) = 2 ^ k * (x div 2 ^ k mod 2 ^ m)"
proof -
  have "x AND push_bit k (mask m) = push_bit k (take_bit m (drop_bit k x))"
    by (rule bit_eqI) (auto simp: bit_simps)
  then show ?thesis
    unfolding push_bit_eq_mult mask_eq_exp_minus_1 take_bit_eq_mod drop_bit_eq_div by (simp only: mult.commute)
qed

lemma field_range:
  assumes "(x :: nat) < 2 ^ (k + m)"
  shows "x AND (2 ^ k * (2 ^ m - 1)) = 2 ^ k * j \<longleftrightarrow> 2 ^ k * j \<le> x \<and> x < 2 ^ k * (j + 1)"
proof -
  have "x div 2 ^ k < 2 ^ m"
    using assms by (simp add: power_add less_mult_imp_div_less mult.commute)
  moreover have "x div d = j \<longleftrightarrow> d * j \<le> x \<and> x < d * (j + 1)" if "0 < d" for d
    using that times_div_less_eq_dividend [of d x] dividend_less_times_div [of d x]
    by (metis Suc_eq_plus1 add.commute div_nat_eqI mult_Suc_right)
  moreover from this [of "2 ^ k"] have "x div 2 ^ k = j \<longleftrightarrow> 2 ^ k * j \<le> x \<and> x < 2 ^ k * (j + 1)"
    by simp
  ultimately show ?thesis
    by (simp only: and_field mod_less mult_cancel1 power_eq_0_iff) simp
qed

lemma and_c0: "(x :: nat) < 256 \<Longrightarrow> x AND 0xc0 = 0x80 \<longleftrightarrow> 0x80 \<le> x \<and> x < 0xc0"
  using field_range [of x 6 2 2] by simp

lemma and_e0_a0: "(x :: nat) < 256 \<Longrightarrow> x AND 0xe0 = 0xa0 \<longleftrightarrow> 0xa0 \<le> x \<and> x < 0xc0"
  using field_range [of x 5 3 5] by simp

lemma and_e0_80: "(x :: nat) < 256 \<Longrightarrow> x AND 0xe0 = 0x80 \<longleftrightarrow> 0x80 \<le> x \<and> x < 0xa0"
  using field_range [of x 5 3 4] by simp

lemma and_f0: "(x :: nat) < 256 \<Longrightarrow> x AND 0xf0 = 0x80 \<longleftrightarrow> 0x80 \<le> x \<and> x < 0x90"
  using field_range [of x 4 4 8] by simp

lemma and_30: "0x80 \<le> (x :: nat) \<Longrightarrow> x < 0xc0 \<Longrightarrow> x AND 0x30 = 0 \<longleftrightarrow> x < 0x90"
proof -
  assume "0x80 \<le> x" and "x < 0xc0"
  then have z: "8 \<le> x div 16" "x div 16 < 12" and "x div 16 = 8 \<longleftrightarrow> x < 0x90"
    by linarith+
  moreover have "z mod 4 = 0 \<longleftrightarrow> z = 8" if "8 \<le> z" "z < 12" for z :: nat
    using that by presburger
  moreover have "x AND 0x30 = 16 * (x div 16 mod 4)"
    using and_field [of x 4 2] by simp
  ultimately show ?thesis
    by simp
qed

lemma and_low: "a mod 2 ^ m = 0 \<Longrightarrow> a \<le> x \<Longrightarrow> x < a + 2 ^ m \<Longrightarrow> (x :: nat) AND (2 ^ m - 1) = x - a"
proof -
  assume "a mod 2 ^ m = 0" "a \<le> x" "x < a + 2 ^ m"
  moreover from this have "x mod 2 ^ m = (a mod 2 ^ m + (x - a)) mod 2 ^ m"
    by (subst mod_add_left_eq) simp
  ultimately show ?thesis
    using and_field [of x 0 m] by (simp add: less_diff_conv2)
qed

lemma and_0f: "0xe0 \<le> (x :: nat) \<Longrightarrow> x < 0xf0 \<Longrightarrow> x AND 0x0f = x - 0xe0"
  using and_low [of "0xe0" 4 x] by simp

lemma and_07: "0xf0 \<le> (x :: nat) \<Longrightarrow> x < 0xf8 \<Longrightarrow> x AND 0x07 = x - 0xf0"
  using and_low [of "0xf0" 3 x] by simp

lemmas byte_tests = and_c0 and_e0_a0 and_e0_80 and_f0 and_30 and_0f and_07

section \<open>The validator against the encoding\<close>

lemma of_char_less [simp]: "(of_char c :: nat) < 256"
  by (metis nat_of_char_less_256)

lemma codes_inj: "codes s = codes t \<longleftrightarrow> s = t"
  by (rule inj_map_eq_map) (simp add: inj_def)

lemma VALIDATE_BYTE_Nil [simp]: "0 < e \<Longrightarrow> \<not> VALIDATE_BYTE [] m e"
  by (simp add: VALIDATE_BYTE_def c_at_def)

lemma VALIDATE_BYTE_Cons [simp]:
  "VALIDATE_BYTE (x # q) 0xc0 0x80 \<longleftrightarrow> 0x80 \<le> (of_char x :: nat) \<and> (of_char x :: nat) < 0xc0"
  "VALIDATE_BYTE (x # q) 0xe0 0xa0 \<longleftrightarrow> 0xa0 \<le> (of_char x :: nat) \<and> (of_char x :: nat) < 0xc0"
  "VALIDATE_BYTE (x # q) 0xe0 0x80 \<longleftrightarrow> 0x80 \<le> (of_char x :: nat) \<and> (of_char x :: nat) < 0xa0"
  "VALIDATE_BYTE (x # q) 0xf0 0x80 \<longleftrightarrow> 0x80 \<le> (of_char x :: nat) \<and> (of_char x :: nat) < 0x90"
  by (simp_all add: VALIDATE_BYTE_def c_at_def byte_tests)

lemma last_byte_Cons [simp]:
  "last_byte [] = None"
  "last_byte (x # q) = (if 0x80 \<le> (of_char x :: nat) \<and> (of_char x :: nat) < 0xc0 then Some q else None)"
  by (simp_all add: last_byte_def)

lemma digit:
  "b < 0xc0 \<Longrightarrow> (a * 64 + (b - 0x80)) div 64 = (a :: nat)"
  "b < 0xc0 \<Longrightarrow> (a * 64 + (b - 0x80)) mod 64 = (b - 0x80 :: nat)"
  by simp_all

text \<open>The byte ranges of RFC 3629, section 4.\<close>

fun utf8_seq :: "nat list \<Rightarrow> bool" where
  "utf8_seq [a] \<longleftrightarrow> a < 0x80"
| "utf8_seq [a, b] \<longleftrightarrow> 0xc2 \<le> a \<and> a < 0xe0 \<and> 0x80 \<le> b \<and> b < 0xc0"
| "utf8_seq [a, b, d] \<longleftrightarrow> 0xe0 \<le> a \<and> a < 0xf0 \<and> 0x80 \<le> b \<and> b < 0xc0 \<and> 0x80 \<le> d \<and> d < 0xc0
     \<and> (a = 0xe0 \<longrightarrow> 0xa0 \<le> b) \<and> (a = 0xed \<longrightarrow> b < 0xa0)"
| "utf8_seq [a, b, d, e] \<longleftrightarrow> 0xf0 \<le> a \<and> a < 0xf5 \<and> 0x80 \<le> b \<and> b < 0xc0 \<and> 0x80 \<le> d \<and> d < 0xc0
     \<and> 0x80 \<le> e \<and> e < 0xc0 \<and> (a = 0xf0 \<longrightarrow> 0x90 \<le> b) \<and> (a = 0xf4 \<longrightarrow> b < 0x90)"
| "utf8_seq _ \<longleftrightarrow> False"

lemma enc_seq: "scalar n \<Longrightarrow> utf8_seq (enc n)"
proof -
  define q where "q = n div 64"
  define p where "p = q div 64"
  define m where "m = p div 64"
  have n: "n div 0x1000 = p" "n div 0x40000 = m"
    by (simp_all add: p_def q_def m_def flip: div_mult2_eq)
  have split: "n = q * 64 + n mod 64" "q = p * 64 + q mod 64" "p = m * 64 + p mod 64"
    by (simp_all add: p_def q_def m_def)
  have low: "n mod 64 < 64" "q mod 64 < 64" "p mod 64 < 64"
    by simp_all
  assume "scalar n"
  then show ?thesis
    unfolding enc_def scalar_def n q_def [symmetric] using split low
    by (auto split: if_splits)
qed

lemma seq_enc2:
  assumes "utf8_seq [a, b]"
  shows "\<exists>n. scalar n \<and> enc n = [a, b]"
proof -
  define n where "n = (a - 0xc0) * 64 + (b - 0x80)"
  have "n div 64 = a - 0xc0" "n mod 64 = b - 0x80"
    using assms unfolding n_def by (simp_all only: utf8_seq.simps digit simp_thms)
  moreover have "0x80 \<le> n" "n < 0x800"
    using assms unfolding n_def by auto
  ultimately show ?thesis
    using assms by (intro exI [of _ n]) (auto simp: enc_def scalar_def)
qed

lemma seq_enc3:
  assumes "utf8_seq [a, b, d]"
  shows "\<exists>n. scalar n \<and> enc n = [a, b, d]"
proof -
  define k where "k = (a - 0xe0) * 64 + (b - 0x80)"
  define n where "n = k * 64 + (d - 0x80)"
  have "k div 64 = a - 0xe0" "k mod 64 = b - 0x80" "n div 64 = k" "n mod 64 = d - 0x80"
    using assms unfolding n_def k_def by (simp_all only: utf8_seq.simps digit simp_thms)
  moreover have "n div 0x1000 = n div 64 div 64"
    by (simp flip: div_mult2_eq)
  moreover have "0x800 \<le> n" "n < 0x10000"
    using assms unfolding n_def k_def by auto
  moreover have "\<not> (0xd800 \<le> n \<and> n < 0xe000)"
    using assms unfolding n_def k_def by (cases "a < 0xed"; cases "a = 0xed") auto
  ultimately show ?thesis
    using assms by (intro exI [of _ n]) (auto simp: enc_def scalar_def)
qed

lemma seq_enc4:
  assumes "utf8_seq [a, b, d, e]"
  shows "\<exists>n. scalar n \<and> enc n = [a, b, d, e]"
proof -
  define j where "j = (a - 0xf0) * 64 + (b - 0x80)"
  define k where "k = j * 64 + (d - 0x80)"
  define n where "n = k * 64 + (e - 0x80)"
  have "j div 64 = a - 0xf0" "j mod 64 = b - 0x80" "k div 64 = j" "k mod 64 = d - 0x80"
    "n div 64 = k" "n mod 64 = e - 0x80"
    using assms unfolding n_def k_def j_def by (simp_all only: utf8_seq.simps digit simp_thms)
  moreover have "n div 0x1000 = n div 64 div 64" "n div 0x40000 = n div 64 div 64 div 64"
    by (simp_all flip: div_mult2_eq)
  moreover have "0x10000 \<le> n" "n < 0x110000"
    using assms unfolding n_def k_def j_def by auto
  ultimately show ?thesis
    using assms by (intro exI [of _ n]) (auto simp: enc_def scalar_def)
qed

lemma seq_iff_enc: "utf8_seq bs \<longleftrightarrow> (\<exists>n. scalar n \<and> bs = enc n)"
proof
  show "\<exists>n. scalar n \<and> bs = enc n" if "utf8_seq bs"
    using that
  proof (cases bs rule: utf8_seq.cases)
    case (1 a)
    then show ?thesis using that by (intro exI [of _ a]) (simp add: scalar_def enc_def)
  qed (use that in \<open>auto dest!: seq_enc2 seq_enc3 seq_enc4 simp del: utf8_seq.simps(2,3,4)\<close>)
qed (auto intro: enc_seq)

lemma and_30_pos: "0 < (x :: nat) AND 0x30 \<Longrightarrow> 0x80 \<le> x \<Longrightarrow> x < 0xc0 \<Longrightarrow> 0x90 \<le> x"
  using and_30 [of x] by linarith

lemma multibyte_sound:
  assumes "multibyte c p = Some r" "128 \<le> (of_char c :: nat)"
  shows "\<exists>q. p = q @ r \<and> utf8_seq (codes (c # q))"
proof (cases p)
  case Nil
  then show ?thesis using assms by (auto simp: multibyte_def split: if_splits)
next
  case (Cons x p1)
  note x = this
  show ?thesis
  proof (cases p1)
    case Nil
    then show ?thesis using assms x
      by (auto simp: multibyte_def split: if_splits intro!: exI [of _ "[x]"])
  next
    case (Cons y p2)
    note y = this
    consider "(of_char c :: nat) < 0xe0" | "0xe0 \<le> (of_char c :: nat)" "(of_char c :: nat) < 0xf0"
      | "0xf0 \<le> (of_char c :: nat)" by linarith
    then show ?thesis
    proof cases
      case 1
      then show ?thesis using assms x
        by (auto simp: multibyte_def split: if_splits intro!: exI [of _ "[x]"])
    next
      case 2
      then show ?thesis using assms x y
        by (auto simp: multibyte_def and_0f split: if_splits intro!: exI [of _ "[x, y]"])
    next
      case 3
      then show ?thesis using assms x y
        by (cases p2) (auto simp: multibyte_def and_07 c_at_def split: if_splits intro!: exI [of _ "[x, y, hd p2]"] and_30_pos)
    qed
  qed
qed

lemma multibyte_complete:
  assumes "utf8_seq (codes (c # q))" "128 \<le> (of_char c :: nat)"
  shows "multibyte c (q @ r) = Some r"
proof -
  consider x where "q = [x]" | x y where "q = [x, y]" | x y z where "q = [x, y, z]"
    using assms by (cases "codes (c # q)" rule: utf8_seq.cases) auto
  then show ?thesis
  proof cases
    case 1
    then show ?thesis using assms by (auto simp: multibyte_def)
  next
    case 2
    then show ?thesis using assms by (auto simp: multibyte_def and_0f)
  next
    case 3
    then show ?thesis using assms by (auto simp: multibyte_def and_07 c_at_def and_30)
  qed
qed

lemma utf8_Nil [simp]: "utf8 []"
  by (simp add: utf8_def exI [of _ "[]"])

lemma utf8_append: "utf8 s \<Longrightarrow> utf8 t \<Longrightarrow> utf8 (s @ t)"
proof -
  assume "utf8 s" "utf8 t"
  then obtain ms ns where "list_all scalar ms" "codes s = concat (map enc ms)"
    "list_all scalar ns" "codes t = concat (map enc ns)"
    by (auto simp: utf8_def)
  then show ?thesis
    unfolding utf8_def by (intro exI [of _ "ms @ ns"]) simp
qed

lemma seq_utf8: "utf8_seq (codes q) \<Longrightarrow> utf8 q"
proof -
  assume "utf8_seq (codes q)"
  then obtain n where "scalar n" "codes q = enc n"
    by (auto simp: seq_iff_enc)
  then show ?thesis
    unfolding utf8_def by (intro exI [of _ "[n]"]) simp
qed

lemma seq_not_Nil: "utf8_seq bs \<Longrightarrow> bs \<noteq> []"
  by auto

text \<open>A valid string is empty or starts with one sequence.\<close>

lemma utf8_unfold: "utf8 s \<longleftrightarrow> s = [] \<or> (\<exists>q r. s = q @ r \<and> utf8_seq (codes q) \<and> utf8 r)"
proof
  assume "utf8 s"
  then obtain ns where ns: "list_all scalar ns" "codes s = concat (map enc ns)"
    by (auto simp: utf8_def)
  show "s = [] \<or> (\<exists>q r. s = q @ r \<and> utf8_seq (codes q) \<and> utf8 r)"
  proof (cases ns)
    case Nil
    then show ?thesis using ns by simp
  next
    case (Cons n ms)
    then have "codes s = enc n @ concat (map enc ms)"
      using ns by simp
    then obtain q r where "s = q @ r" "codes q = enc n" "codes r = concat (map enc ms)"
      by (auto simp: map_eq_append_conv)
    moreover have "utf8_seq (enc n)"
      using ns Cons by (simp add: enc_seq)
    moreover have "utf8 r"
      unfolding utf8_def using ns Cons \<open>codes r = _\<close> by auto
    ultimately have "s = q @ r \<and> utf8_seq (codes q) \<and> utf8 r" by simp
    then show ?thesis by blast
  qed
qed (auto intro: utf8_append seq_utf8)

lemma seq_small: "utf8_seq (a # bs) \<Longrightarrow> a < 128 \<Longrightarrow> bs = []"
  by (cases "a # bs" rule: utf8_seq.cases) auto

text \<open>
  The validator returns what is left behind the longest prefix that consists of sequences.
\<close>

lemma fast_validate_split: "\<exists>p. s = p @ fast_validate s \<and> utf8 p"
proof (induction s rule: fast_validate.induct)
  case (2 c p)
  show ?case
  proof (cases "128 \<le> (of_char c :: nat)")
    case True
    show ?thesis
    proof (cases "multibyte c p")
      case (Some r)
      then obtain q where "p = q @ r" "utf8_seq (codes (c # q))"
        using multibyte_sound True by blast
      moreover obtain p' where "r = p' @ fast_validate r" "utf8 p'"
        using 2(1) [OF True Some] by blast
      moreover have "utf8 ((c # q) @ p')"
        using calculation by (intro utf8_append [OF seq_utf8])
      ultimately show ?thesis
        using True Some by (intro exI [of _ "(c # q) @ p'"]) auto
    qed (use True in auto)
  next
    case False
    then obtain p' where "p = p' @ fast_validate p" "utf8 p'"
      using 2(2) by blast
    moreover have "utf8 [c]"
      using False by (intro seq_utf8) simp
    ultimately show ?thesis
      using False utf8_append [of "[c]" p'] by (intro exI [of _ "c # p'"]) auto
  qed
qed simp

lemma fast_validate_seq: "utf8_seq (codes q) \<Longrightarrow> fast_validate (q @ r) = fast_validate r"
proof (cases q)
  case (Cons c q')
  assume "utf8_seq (codes q)"
  then show ?thesis
    using Cons seq_small [of "of_char c" "codes q'"] multibyte_complete [of c q' r]
    by (cases "128 \<le> (of_char c :: nat)") auto
qed simp

lemma fast_validate_utf8: "utf8 p \<Longrightarrow> fast_validate (p @ r) = fast_validate r"
proof (induction p rule: length_induct)
  case (1 p)
  show ?case
  proof (cases "p = []")
    case False
    then obtain q t where "p = q @ t" "utf8_seq (codes q)" "utf8 t"
      using 1(2) utf8_unfold [of p] by blast
    moreover have "length t < length p"
      using calculation seq_not_Nil [of "codes q"] by simp
    ultimately show ?thesis
      using 1(1) by (simp add: fast_validate_seq)
  qed simp
qed

lemma fast_validate_iff: "fast_validate s = [] \<longleftrightarrow> utf8 s"
  using fast_validate_split [of s] fast_validate_utf8 [of s "[]"] by auto

lemma fast_validate_stuck: "fast_validate s = r \<Longrightarrow> r = q @ t \<Longrightarrow> utf8_seq (codes q) \<Longrightarrow> False"
proof -
  assume r: "fast_validate s = r" "r = q @ t" and q: "utf8_seq (codes q)"
  obtain p where "s = p @ r" "utf8 p"
    using fast_validate_split [of s] r by blast
  then have "fast_validate s = fast_validate t"
    using fast_validate_utf8 [of p r] fast_validate_seq [OF q] r by simp
  then have "length (q @ t) \<le> length t"
    using r fast_validate_le [of t] by simp
  then show False
    using seq_not_Nil [OF q] by simp
qed

section \<open>Cutting\<close>

abbreviation cont :: "char \<Rightarrow> bool" where
  "cont c \<equiv> of_char c AND 0xc0 = (0x80 :: nat)"

lemma seq_tail_cont: "utf8_seq bs \<Longrightarrow> 0 < i \<Longrightarrow> i < length bs \<Longrightarrow> 0x80 \<le> bs ! i \<and> bs ! i < 0xc0"
  by (cases bs rule: utf8_seq.cases) (auto simp: nth_Cons less_Suc_eq split: nat.splits)

lemma seq_head_not_cont: "utf8_seq bs \<Longrightarrow> bs ! 0 < 0x80 \<or> 0xc0 \<le> bs ! 0"
  by (cases bs rule: utf8_seq.cases) auto

lemma utf8_head_not_cont: "utf8 (c # s) \<Longrightarrow> \<not> cont c"
proof -
  assume "utf8 (c # s)"
  then obtain q r where "c # s = q @ r" "utf8_seq (codes q)"
    using utf8_unfold [of "c # s"] by blast
  then show ?thesis
    using seq_head_not_cont [of "codes q"] by (cases q) (auto simp: and_c0)
qed

lemma utf8_cut:
  "utf8 s \<Longrightarrow> i \<le> length s \<Longrightarrow> (i < length s \<Longrightarrow> \<not> cont (s ! i)) \<Longrightarrow> utf8 (take i s)"
proof (induction s arbitrary: i rule: length_induct)
  case (1 s)
  show ?case
  proof (cases "i = 0 \<or> s = []")
    case False
    then obtain q t where s: "s = q @ t" "utf8_seq (codes q)" "utf8 t"
      using 1(2) utf8_unfold [of s] by blast
    show ?thesis
    proof (cases "i < length q")
      case True
      then have "cont (s ! i)"
        using False s seq_tail_cont [of "codes q" i] by (simp add: nth_append and_c0)
      then show ?thesis
        using 1(4) True s by simp
    next
      case False
      moreover have "length t < length s"
        using s seq_not_Nil [of "codes q"] by simp
      ultimately have "utf8 (take (i - length q) t)"
        using 1 s by (auto simp: nth_append)
      then show ?thesis
        using False s by (simp add: utf8_append seq_utf8)
    qed
  qed auto
qed

lemma find_prev_char_Some:
  "unrl_utf8_find_prev_char s p = Some i \<Longrightarrow> i < p \<and> \<not> cont (c_at s i) \<and> (\<forall>j. i < j \<longrightarrow> j < p \<longrightarrow> cont (c_at s j))"
  by (induction p) (auto split: if_splits simp: less_Suc_eq)

lemma find_prev_char_None: "unrl_utf8_find_prev_char s p = None \<Longrightarrow> j < p \<Longrightarrow> cont (c_at s j)"
  by (induction p) (auto split: if_splits simp: less_Suc_eq)

lemma cut_prev_utf8:
  assumes "utf8 s" "t = take n s"
  shows "utf8 (cut_prev t (length t))"
proof (cases "unrl_utf8_find_prev_char t (length t)")
  case None
  have "t = []"
  proof (cases t)
    case (Cons c t')
    then have "cont c" "\<exists>s'. s = c # s'"
      using find_prev_char_None [OF None, of 0] assms(2) by (auto simp: c_at_def) (cases s; cases n; simp)
    then show ?thesis
      using assms(1) utf8_head_not_cont by blast
  qed simp
  then show ?thesis
    by (simp add: cut_prev_def)
next
  case (Some i)
  then have "i < length t" "\<not> cont (t ! i)"
    using find_prev_char_Some [OF Some] by auto
  then have "utf8 (take i s)"
    using assms by (intro utf8_cut) auto
  moreover have "take i t = take i s"
    using assms \<open>i < length t\<close> by simp
  ultimately show ?thesis
    using Some by (simp add: cut_prev_def)
qed

lemma cut_prev_take: "\<exists>n \<le> p. cut_prev t p = take n t" if "p = length t"
proof (cases "unrl_utf8_find_prev_char t p")
  case (Some i)
  then show ?thesis
    using find_prev_char_Some [OF Some] by (auto simp: cut_prev_def intro!: exI [of _ i])
qed (use that in \<open>auto simp: cut_prev_def intro!: exI [of _ p]\<close>)

section \<open>The repaired text\<close>

text \<open>The specification of the repair, without buffers: each byte at which validation fails becomes U+FFFD.\<close>

function repair :: "cstring \<Rightarrow> cstring" where
  "repair s =
     (let r = fast_validate s in
      if r = [] then s else take (length s - length r) s @ replacement @ repair (tl r))"
  by pat_completeness auto
termination
proof (relation "measure length"; simp)
  fix s assume "fast_validate s \<noteq> []"
  then have "0 < length (fast_validate s)" by simp
  then show "length (fast_validate s) - Suc 0 < length s"
    using fast_validate_le [of s] by linarith
qed

declare repair.simps [simp del] make_valid_loop.simps [simp del]

lemma utf8_replacement: "utf8 replacement"
  by (rule seq_utf8) (simp add: replacement_def)

lemma repair_id: "utf8 s \<Longrightarrow> repair s = s"
  by (simp add: repair.simps [of s] fast_validate_iff)

lemma valid_part: "utf8 (take (length s - length (fast_validate s)) s)"
proof -
  obtain p where "s = p @ fast_validate s" "utf8 p"
    using fast_validate_split by blast
  then show ?thesis by (metis append_eq_conv_conj length_append diff_add_inverse2)
qed

lemma repair_utf8: "utf8 (repair s)"
proof (induction s rule: repair.induct)
  case (1 s)
  then show ?case
    using valid_part [of s]
    by (cases "fast_validate s = []") (simp_all add: repair.simps [of s] Let_def fast_validate_iff utf8_append utf8_replacement)
qed

text \<open>
  The loop with its buffer: whatever has been written is the text so far, cut to the buffer.
\<close>

lemma make_valid_loop_repair:
  "0 < buflen \<Longrightarrow> out = take (buflen - 1) F \<Longrightarrow> (\<not> replaced \<Longrightarrow> F = [] \<and> rem = str) \<Longrightarrow>
   make_valid_loop str buflen strict rem out replaced =
     (if \<not> replaced \<and> utf8 str \<and> (str = [] \<or> \<not> strict) then (out, False) else (take (buflen - 1) (F @ repair rem), True))"
proof (induction str buflen strict rem out replaced arbitrary: F rule: make_valid_loop.induct)
  case (1 str buflen strict rem out replaced)
  note unf = make_valid_loop.simps [of str buflen strict rem out replaced]
  have lt: "length (take (buflen - 1) G) < buflen" for G :: cstring
    using 1(2) by simp
  have again: "take (buflen - 1) (take (buflen - 1) G @ H) = take (buflen - 1) (G @ H)" for G H :: cstring
    by (cases "length G < buflen - 1") simp_all
  show ?case
  proof (cases "fast_validate rem = []")
    case True
    then have loop: "make_valid_loop str buflen strict rem out replaced =
        (if rem = [] then (out, replaced)
         else if \<not> replaced then (if strict then (take (buflen - 1) str, True) else (out, False))
         else (take (buflen - 1) (out @ rem), True))"
      using 1(2) lt [of F, folded 1(3)] by (subst unf) (simp add: unrl_utf8_validate_def fst_strlcpy fst_strlcat)
    have "utf8 rem"
      using True by (simp add: fast_validate_iff)
    then show ?thesis
      unfolding loop using 1(2-4) again [of F rem] by (cases replaced) (simp_all add: repair_id del: take_append)
  next
    case False
    let ?v = "take (length rem - length (fast_validate rem)) rem"
    have rem: "rem \<noteq> []" "\<not> utf8 rem"
      using False by (auto simp: fast_validate_iff)
    have step: "fst (strlcat (fst (strlncat out rem buflen (length rem - length (fast_validate rem)))) replacement buflen)
        = take (buflen - 1) (F @ ?v @ replacement)"
      using 1(2,3) lt again [of F "?v"] again [of "F @ ?v" replacement] by (simp add: fst_strlcat fst_strlncat)
    have "make_valid_loop str buflen strict rem out replaced
        = make_valid_loop str buflen strict (tl (fast_validate rem)) (take (buflen - 1) (F @ ?v @ replacement)) True"
      using rem False step by (subst unf) (simp add: unrl_utf8_validate_def Let_def)
    also have "\<dots> = (take (buflen - 1) ((F @ ?v @ replacement) @ repair (tl (fast_validate rem))), True)"
      using 1(1) [OF rem(1) _ refl refl refl 1(2), of "fast_validate rem" "F @ ?v @ replacement"] False step
      by (simp add: unrl_utf8_validate_def)
    also have "\<dots> = (take (buflen - 1) (F @ repair rem), True)"
      using False by (simp add: repair.simps [of rem] Let_def)
    finally show ?thesis
      using rem 1(4) by auto
  qed
qed

lemma utf8_append_right: "utf8 p \<Longrightarrow> utf8 (p @ r) \<longleftrightarrow> utf8 r"
  by (metis fast_validate_iff fast_validate_utf8)

lemma cut_line_take: "\<exists>n. fst (cut_line out) = take n out"
  by (auto simp: cut_line_def Let_def intro: exI [of _ "length out"])

lemma cut_line_le: "length (fst (cut_line out)) \<le> length out"
  by (simp add: cut_line_def Let_def)

lemma cut_line_snd: "\<not> snd (cut_line out) \<Longrightarrow> fst (cut_line out) = out"
  by (auto simp: cut_line_def Let_def split: if_splits)

lemma make_valid_result:
  assumes "0 < buflen" and out_def: "out = take (buflen - 1) (repair s)"
  shows "unrl_utf8_make_valid (Some s) buflen k =
     (if utf8 s \<and> (s = [] \<or> k = 0) then Some s
      else if k = 2 \<and> snd (cut_line out) then Some (cut_prev (fst (cut_line out)) (length (fst (cut_line out))))
      else if length out = buflen - 1 then Some (cut_prev out (length out))
      else Some out)"
proof -
  have "make_valid_loop s buflen (k \<noteq> 0) s [] False = (if utf8 s \<and> (s = [] \<or> k = 0) then ([], False) else (out, True))"
    using assms(1) by (subst make_valid_loop_repair [of _ _ "[]"]) (auto simp: out_def)
  moreover obtain line fix_line where "cut_line out = (line, fix_line)"
    by (cases "cut_line out")
  ultimately show ?thesis
    using assms(1) cut_line_snd [of out]
    by (cases "utf8 s \<and> (s = [] \<or> k = 0)"; cases "k = 2"; cases fix_line) (auto simp: unrl_utf8_make_valid_def)
qed

lemma cut_prev_length: "length (cut_prev t (length t)) \<le> length t"
  by (auto simp: cut_prev_def split: option.splits)

lemma cut_line_length: "c_at out 0 \<noteq> CHR ''@'' \<Longrightarrow> length (fst (cut_line out)) \<le> 511"
  by (simp add: cut_line_def)

lemma take_take_ex: "\<exists>m. take n (take k s) = take m s"
  by (metis take_take)

lemma cut_prev_prefix: "\<exists>m. cut_prev (take n s) (length (take n s)) = take m s"
  using cut_prev_take [OF refl, of "take n s"] take_take_ex by metis

section \<open>Properties\<close>

text \<open>
  C13: \<^const>\<open>unrl_utf8_validate\<close> accepts exactly the strings that are the concatenation of
  encodings of Unicode scalar values; the end it reports is behind a valid prefix, and no
  valid sequence starts there.
\<close>

theorem utf8_validate_correct:
  "(fst (unrl_utf8_validate s) \<longleftrightarrow> utf8 s)
   \<and> (\<exists>p. s = p @ snd (unrl_utf8_validate s) \<and> utf8 p)
   \<and> (\<nexists>q t. snd (unrl_utf8_validate s) = q @ t \<and> utf8_seq (codes q))"
  using fast_validate_iff [of s] fast_validate_split [of s] fast_validate_stuck [OF refl, of s]
  by (simp add: unrl_utf8_validate_def Let_def) blast

text \<open>
  C24: With any buffer of at least one byte \<^const>\<open>unrl_utf8_make_valid\<close> returns valid UTF-8. It is
  a prefix of the text in which each invalid byte is replaced by U+FFFD, the whole of it if the
  buffer has room and no line limit is asked for. It fits the buffer unless a valid input
  is returned as it is, and with \<open>strictlen\<close> 2 a line without tags has at most 511 bytes.
\<close>

theorem make_valid_utf8:
  assumes "0 < buflen"
  shows "\<exists>out n. unrl_utf8_make_valid (Some s) buflen k = Some out \<and> utf8 out \<and> out = take n (repair s)
    \<and> (k \<noteq> 0 \<or> \<not> utf8 s \<longrightarrow> length out < buflen)
    \<and> (k \<noteq> 2 \<and> length (repair s) < buflen - 1 \<longrightarrow> out = repair s)
    \<and> (k = 2 \<and> c_at (take (buflen - 1) (repair s)) 0 \<noteq> CHR ''@'' \<longrightarrow> length out \<le> 511)"
proof -
  define out where "out = take (buflen - 1) (repair s)"
  note result = make_valid_result [OF assms out_def, of k]
  have len: "length out < buflen"
    using assms by (simp add: out_def)
  show ?thesis
  proof (cases "utf8 s \<and> (s = [] \<or> k = 0)")
    case True
    then show ?thesis
      unfolding result using assms by (intro exI [of _ s] exI [of _ "length s"]) (auto simp: repair_id)
  next
    case raw: False
    show ?thesis
    proof (cases "k = 2 \<and> snd (cut_line out)")
      case True
      obtain n where n: "fst (cut_line out) = take n (repair s)"
        using cut_line_take [of out] take_take_ex unfolding out_def by metis
      obtain m where m: "cut_prev (take n (repair s)) (length (take n (repair s))) = take m (repair s)"
        using cut_prev_prefix by blast
      have "length (take m (repair s)) < buflen" "c_at out 0 \<noteq> CHR ''@'' \<Longrightarrow> length (take m (repair s)) \<le> 511"
        using cut_prev_length [of "take n (repair s)"] cut_line_length [of out] cut_line_le [of out] len n m
        by (metis le_less_trans, metis order_trans)
      then show ?thesis
        unfolding result using raw True n m cut_prev_utf8 [OF repair_utf8 refl, of n s]
        by (intro exI [of _ "take m (repair s)"] exI [of _ m]) (auto simp: out_def)
    next
      case False
      show ?thesis
      proof (cases "length out = buflen - 1")
        case True
        obtain m where m: "cut_prev out (length out) = take m (repair s)"
          using cut_prev_prefix unfolding out_def by blast
        show ?thesis
          unfolding result using raw False True m cut_prev_utf8 [OF repair_utf8 out_def]
            cut_prev_length [of out] cut_line_length [of out] cut_line_snd [of out] len
          by (intro exI [of _ "take m (repair s)"] exI [of _ m]) (auto simp: out_def)
      next
        case short: False
        then have "out = repair s"
          using len by (auto simp: out_def)
        then show ?thesis
          unfolding result using raw False short repair_utf8 [of s] cut_line_length [of out] cut_line_snd [of out] len
          by (intro exI [of _ out] exI [of _ "length out"]) (auto simp: out_def)
      qed
    qed
  qed
qed

lemma repair_bad_byte: "repair [CHR ''a'', CHR 0xFF, CHR ''b''] = CHR ''a'' # replacement @ ''b''"
proof -
  have "fast_validate [CHR ''a'', CHR 0xFF, CHR ''b''] = [CHR 0xFF, CHR ''b'']"
    by (simp add: multibyte_def)
  moreover have "fast_validate ''b'' = []"
    by simp
  ultimately show ?thesis
    by (simp add: repair.simps [of "[CHR ''a'', CHR 0xFF, CHR ''b'']"] repair.simps [of "''b''"] Let_def)
qed

theorem make_valid_utf8_witness:
  "unrl_utf8_make_valid (Some [CHR ''a'', CHR 0xFF, CHR ''b'']) 20 1 = Some (CHR ''a'' # replacement @ ''b'')"
  using make_valid_utf8 [of 20 "[CHR ''a'', CHR 0xFF, CHR ''b'']" 1]
  by (simp add: repair_bad_byte) (simp add: replacement_def)

text \<open>
  C25: Cutting a valid message with \<^const>\<open>utf8_valid_cutoff\<close> at a length below its own leaves its longest
  valid prefix of at most that length.
\<close>

theorem utf8_cutoff_longest:
  assumes "utf8 msg" "len < length msg"
  shows "\<exists>n. utf8_valid_cutoff msg len = (take n msg, n) \<and> n \<le> len \<and> utf8 (take n msg)
    \<and> (\<forall>j. j \<le> len \<longrightarrow> utf8 (take j msg) \<longrightarrow> j \<le> n)"
proof (cases "unrl_utf8_find_prev_char msg (len + 1)")
  case None
  then have "cont (hd msg)" "msg \<noteq> []"
    using find_prev_char_None [OF None, of 0] assms(2) by (auto simp: hd_conv_nth c_at_def split: if_splits)
  then show ?thesis
    using assms(1) utf8_head_not_cont by (cases msg) auto
next
  case (Some i)
  then have i: "i \<le> len" "\<not> cont (msg ! i)" "\<And>j. i < j \<Longrightarrow> j \<le> len \<Longrightarrow> cont (msg ! j)"
    using find_prev_char_Some [OF Some] assms(2) by auto
  have "j \<le> i" if "j \<le> len" "utf8 (take j msg)" for j
  proof (rule ccontr)
    assume "\<not> j \<le> i"
    then have "cont (msg ! j)"
      using i(3) that by simp
    moreover have "utf8 (msg ! j # drop (Suc j) msg)"
      using utf8_append_right [OF that(2), of "drop j msg"] assms that by (simp add: Cons_nth_drop_Suc)
    ultimately show False
      using utf8_head_not_cont by blast
  qed
  moreover have "utf8 (take i msg)"
    using i assms by (intro utf8_cut) auto
  ultimately show ?thesis
    using i Some by (intro exI [of _ i]) (auto simp: utf8_valid_cutoff_def)
qed

lemma utf8_euro: "utf8 [CHR ''a'', CHR 0xE2, CHR 0x82, CHR 0xAC]"
  unfolding fast_validate_iff [symmetric] by (simp add: multibyte_def and_0f)

theorem utf8_cutoff_longest_witness:
  "utf8_valid_cutoff [CHR ''a'', CHR 0xE2, CHR 0x82, CHR 0xAC] 3 = (''a'', 1)
   \<and> (\<exists>n. utf8_valid_cutoff [CHR ''a'', CHR 0xE2, CHR 0x82, CHR 0xAC] 3 = (take n [CHR ''a'', CHR 0xE2, CHR 0x82, CHR 0xAC], n)
        \<and> n \<le> 3)"
proof
  show "utf8_valid_cutoff [CHR ''a'', CHR 0xE2, CHR 0x82, CHR 0xAC] 3 = (''a'', 1)"
    by code_simp
qed (use utf8_cutoff_longest [OF utf8_euro, of 3] in auto)

lemma utf8_ascii: "list_all (\<lambda>c. (of_char c :: nat) < 128) s \<Longrightarrow> utf8 s"
  unfolding fast_validate_iff [symmetric] by (induction s) auto

text \<open>
  The line limit of 510 bytes that \<open>strictlen\<close> 2 announces is not kept: a line of 511 bytes is
  not longer than 511, so that it is not cut at all.
\<close>

theorem make_valid_511:
  "unrl_utf8_make_valid (Some (replicate 511 (CHR ''a''))) 600 2 = Some (replicate 511 (CHR ''a''))"
proof -
  have "repair (replicate 511 (CHR ''a'')) = replicate 511 (CHR ''a'')"
    by (intro repair_id utf8_ascii) (simp add: list_all_iff)
  then show ?thesis
    by (subst make_valid_result [OF _ refl]) (auto simp: cut_line_def c_at_def)
qed

end
