(* ===== verification/Mtags.thy ===== *)
theory Mtags
  imports Support
begin

text \<open>
  Message tags: \<^verbatim>\<open>src/modules/message-tags.c\<close> and the table of tag handlers in
  \<^verbatim>\<open>src/api-messagetag.c\<close>. A list of tags is a HOL list; \<^verbatim>\<open>AddListItem\<close> puts an
  item in front. The callbacks of a handler are HOL functions. The lemmas show that what is
  escaped for the network is read back, for one text and for a whole list of tags, which
  arrives in reverse order.
\<close>

unbundle bit_operations_syntax

section \<open>The model\<close>

subsection \<open>Escaping\<close>

definition esc :: char where
  "esc = CHR 0x5C"

fun message_tag_unescape :: "cstring \<Rightarrow> cstring" where
  "message_tag_unescape [] = []"
| "message_tag_unescape (c # s) =
     (if c = esc then
        (case s of
           [] \<Rightarrow> []
         | x # s' \<Rightarrow>
             (if x = CHR '':'' then CHR '';'' else if x = CHR ''s'' then CHR '' ''
              else if x = CHR ''r'' then CHR 0x0D else if x = CHR ''n'' then CHR 0x0A else x)
             # message_tag_unescape s')
      else c # message_tag_unescape s)"

text \<open>\<open>room\<close> is \<^verbatim>\<open>end - o\<close>.\<close>

fun message_tag_escape :: "cstring \<Rightarrow> nat \<Rightarrow> cstring" where
  "message_tag_escape [] room = []"
| "message_tag_escape (c # s) room =
     (if c = CHR '';'' \<or> c = CHR '' '' \<or> c = esc \<or> c = CHR 0x0D \<or> c = CHR 0x0A then
        (if room < 3 then []
         else [esc, if c = CHR '';'' then CHR '':'' else if c = CHR '' '' then CHR ''s''
                    else if c = esc then esc else if c = CHR 0x0D then CHR ''r'' else CHR ''n'']
              @ message_tag_escape s (room - 2))
      else if room < 2 then []
      else c # message_tag_escape s (room - 1))"

subsection \<open>Handlers\<close>

text \<open>
  What the functions read of a client: its \<^verbatim>\<open>direction\<close> counts as absent when it is NULL; of the
  direction only whether it is a server and whether it announced tags matter.
\<close>

record tag_client =
  tc_server :: bool
  tc_local :: bool
  tc_caps :: "64 word"
  tc_direction :: "(bool \<times> bool) option"

record clicap =
  cap :: "64 word"

record mtag_handler =
  mh_name :: cstring
  mh_flags :: "32 word"
  is_ok :: "tag_client \<Rightarrow> cstring \<Rightarrow> cstring \<Rightarrow> bool"
  should_send_to_client :: "(tag_client \<Rightarrow> bool) option"
  clicap_handler :: "clicap option"
  unloaded :: bool

definition MTAG_HANDLER_FLAGS_NO_CAP_NEEDED :: "32 word" where
  "MTAG_HANDLER_FLAGS_NO_CAP_NEEDED = 0x1"

definition MessageTagHandlerFind :: "mtag_handler list \<Rightarrow> cstring \<Rightarrow> mtag_handler option" where
  "MessageTagHandlerFind mtaghandlers name = find (\<lambda>m. strcaseeq name (mh_name m)) mtaghandlers"

text \<open>
  \<^verbatim>\<open>MessageTagHandlerAdd\<close>: inconsistent requests abort the server, a second registration of a
  loaded handler is refused, and a handler left by an unloaded module is updated in place.
\<close>

fun update_first :: "('a \<Rightarrow> bool) \<Rightarrow> ('a \<Rightarrow> 'a) \<Rightarrow> 'a list \<Rightarrow> 'a list" where
  "update_first P f [] = []"
| "update_first P f (x # xs) = (if P x then f x # xs else x # update_first P f xs)"

definition MessageTagHandlerAdd :: "mtag_handler list \<Rightarrow> mtag_handler \<Rightarrow> fault + mtag_handler list \<times> bool" where
  "MessageTagHandlerAdd mtaghandlers mreq =
     (let nocap = mh_flags mreq AND MTAG_HANDLER_FLAGS_NO_CAP_NEEDED \<noteq> 0 in
      if nocap \<and> clicap_handler mreq \<noteq> None then Inl Aborted
      else if \<not> nocap \<and> clicap_handler mreq = None then Inl Aborted
      else (case MessageTagHandlerFind mtaghandlers (mh_name mreq) of
              Some m \<Rightarrow>
                if unloaded m then
                  Inr (update_first (\<lambda>m. strcaseeq (mh_name mreq) (mh_name m))
                         (\<lambda>m. mreq\<lparr>mh_name := mh_name m, unloaded := False\<rparr>) mtaghandlers, True)
                else Inr (mtaghandlers, False)
            | None \<Rightarrow> Inr (mreq\<lparr>unloaded := False\<rparr> # mtaghandlers, True)))"

definition MessageTagHandlerDel :: "bool \<Rightarrow> mtag_handler list \<Rightarrow> cstring \<Rightarrow> mtag_handler list" where
  "MessageTagHandlerDel rehashing mtaghandlers name =
     (if rehashing then update_first (\<lambda>m. mh_name m = name) (\<lambda>m. m\<lparr>unloaded := True\<rparr>) mtaghandlers
      else filter (\<lambda>m. mh_name m \<noteq> name) mtaghandlers)"

definition unload_all_unused_mtag_handlers :: "mtag_handler list \<Rightarrow> mtag_handler list" where
  "unload_all_unused_mtag_handlers mtaghandlers = filter (\<lambda>m. \<not> unloaded m) mtaghandlers"

definition message_tag_ok :: "mtag_handler list \<Rightarrow> tag_client \<Rightarrow> cstring \<Rightarrow> cstring \<Rightarrow> bool" where
  "message_tag_ok hs client name value =
     (case MessageTagHandlerFind hs name of
        None \<Rightarrow> tc_server client \<or> \<not> tc_local client
      | Some m \<Rightarrow> is_ok m client name value)"

definition client_accepts_tag :: "mtag_handler list \<Rightarrow> 64 word \<Rightarrow> cstring \<Rightarrow> tag_client \<Rightarrow> bool" where
  "client_accepts_tag hs CAP_MESSAGE_TAGS token client =
     (if tc_server client \<or> \<not> tc_local client then True
      else (case MessageTagHandlerFind hs token of
              None \<Rightarrow> False
            | Some m \<Rightarrow>
                if (case should_send_to_client m of None \<Rightarrow> False | Some f \<Rightarrow> \<not> f client) then False
                else if tc_caps client AND CAP_MESSAGE_TAGS \<noteq> 0 then True
                else if mh_flags m AND MTAG_HANDLER_FLAGS_NO_CAP_NEEDED \<noteq> 0 then False
                else (case clicap_handler m of None \<Rightarrow> False | Some h \<Rightarrow> tc_caps client AND cap h \<noteq> 0)))"

subsection \<open>Reading and writing tags\<close>

record message_tag =
  mt_name :: cstring
  mt_value :: "cstring option"

definition SERVER_TAG_SIZE_LIMIT :: nat where
  "SERVER_TAG_SIZE_LIMIT = 8191"

definition CLIENT_TAG_SIZE_LIMIT :: nat where
  "CLIENT_TAG_SIZE_LIMIT = 4094"

definition read_tag :: "cstring \<Rightarrow> cstring \<times> cstring" where
  "read_tag element =
     (case dropWhile (\<lambda>c. c \<noteq> CHR ''='') element of
        [] \<Rightarrow> (message_tag_unescape element, [])
      | _ # x \<Rightarrow> (message_tag_unescape (takeWhile (\<lambda>c. c \<noteq> CHR ''='') element), message_tag_unescape x))"

definition add_tag :: "mtag_handler list \<Rightarrow> tag_client \<Rightarrow> cstring \<Rightarrow> message_tag list \<Rightarrow> message_tag list" where
  "add_tag hs client element mtag_list =
     (case read_tag element of (name, value) \<Rightarrow>
        if message_tag_ok hs client name value
        then \<lparr>mt_name = name, mt_value = if value = [] then None else Some value\<rparr> # mtag_list
        else mtag_list)"

text \<open>
  \<open>_parse_message_tags\<close> on a line that starts with \<^verbatim>\<open>@\<close>: the rest of the line, the tags put in
  front of those in the list, and whether \<^verbatim>\<open>ERR_INPUTTOOLONG\<close> is sent.
\<close>

definition parse_message_tags ::
  "mtag_handler list \<Rightarrow> tag_client \<Rightarrow> cstring \<Rightarrow> message_tag list \<Rightarrow> cstring \<times> message_tag list \<times> bool" where
  "parse_message_tags hs client str mtag_list =
     (let tags = takeWhile (\<lambda>c. c \<noteq> CHR '' '') str;
          rest = dropWhile (\<lambda>c. c \<noteq> CHR '' '') str;
          toolong = (tc_server client \<and> length tags > SERVER_TAG_SIZE_LIMIT)
                    \<or> (\<not> tc_server client \<and> length tags > CLIENT_TAG_SIZE_LIMIT)
      in if toolong \<or> rest = [] then ([], mtag_list, toolong)
         else (tl rest, fold (add_tag hs client) (strtoken_all '';'' (Some (tl tags))) mtag_list, False))"

definition snprintf_cut :: "nat \<Rightarrow> cstring \<Rightarrow> cstring" where
  "snprintf_cut sz s = take (sz - 1) s"

definition tag_text :: "message_tag \<Rightarrow> cstring" where
  "tag_text m =
     snprintf_cut 4094
       (case mt_value m of
          Some v \<Rightarrow> message_tag_escape (mt_name m) 8192 @ ''='' @ message_tag_escape v 8192 @ '';''
        | None \<Rightarrow> message_tag_escape (mt_name m) 8192 @ '';'')"

fun tags_buf :: "(message_tag \<Rightarrow> bool) \<Rightarrow> message_tag list \<Rightarrow> cstring \<Rightarrow> cstring" where
  "tags_buf accepts [] buf = buf"
| "tags_buf accepts (m # ms) buf =
     tags_buf accepts ms (if accepts m then fst (strlcat buf (tag_text m) 4096) else buf)"

definition mtags_to_string :: "mtag_handler list \<Rightarrow> 64 word \<Rightarrow> message_tag list \<Rightarrow> tag_client option \<Rightarrow> cstring option" where
  "mtags_to_string hs CAP_MESSAGE_TAGS m client =
     (if m = [] then None
      else if (case client of
                 None \<Rightarrow> False
               | Some c \<Rightarrow> (case tc_direction c of None \<Rightarrow> False | Some (server, mtags) \<Rightarrow> server \<and> \<not> mtags)) then None
      else let buf = tags_buf (\<lambda>m. case client of None \<Rightarrow> True | Some c \<Rightarrow> client_accepts_tag hs CAP_MESSAGE_TAGS (mt_name m) c) m []
           in if buf = [] then None else Some (butlast buf))"

definition find_mtag :: "message_tag list \<Rightarrow> cstring \<Rightarrow> message_tag option" where
  "find_mtag mtags token = find (\<lambda>m. mt_name m = token) mtags"

section \<open>Escapes\<close>

text \<open>The escape of a whole text, without a buffer.\<close>

definition special :: "char \<Rightarrow> bool" where
  "special c \<longleftrightarrow> c = CHR '';'' \<or> c = CHR '' '' \<or> c = esc \<or> c = CHR 0x0D \<or> c = CHR 0x0A"

definition esc1 :: "char \<Rightarrow> cstring" where
  "esc1 c =
     (if special c then
        [esc, if c = CHR '';'' then CHR '':'' else if c = CHR '' '' then CHR ''s''
              else if c = esc then esc else if c = CHR 0x0D then CHR ''r'' else CHR ''n'']
      else [c])"

definition esc_all :: "cstring \<Rightarrow> cstring" where
  "esc_all s = concat (map esc1 s)"

lemma message_tag_escape_Cons:
  "message_tag_escape (c # s) room =
     (if room \<le> length (esc1 c) then [] else esc1 c @ message_tag_escape s (room - length (esc1 c)))"
  by (auto simp: esc1_def special_def numeral_2_eq_2)

declare message_tag_escape.simps(2) [simp del] message_tag_escape_Cons [simp]

lemma unescape_esc1: "message_tag_unescape (esc1 c @ s) = c # message_tag_unescape s"
  by (simp add: esc1_def special_def esc_def)

lemma unescape_esc_all: "message_tag_unescape (esc_all s) = s"
  by (induction s) (simp_all add: esc_all_def unescape_esc1)

lemma escape_prefix:
  "\<exists>k. message_tag_escape s room = esc_all (take k s) \<and> (0 < room \<longrightarrow> length (esc_all (take k s)) < room)
     \<and> (length (esc_all s) < room \<longrightarrow> k = length s)"
proof (induction s arbitrary: room)
  case (Cons c s)
  show ?case
  proof (cases "room \<le> length (esc1 c)")
    case True
    then show ?thesis by (intro exI [of _ 0]) (simp add: esc_all_def)
  next
    case False
    obtain k where "message_tag_escape s (room - length (esc1 c)) = esc_all (take k s)"
      "length (esc_all (take k s)) < room - length (esc1 c)"
      "length (esc_all s) < room - length (esc1 c) \<longrightarrow> k = length s"
      using Cons [of "room - length (esc1 c)"] False by auto
    then show ?thesis
      using False by (intro exI [of _ "Suc k"]) (auto simp: esc_all_def)
  qed
qed (simp add: esc_all_def)

lemma escape_fits: "length (esc_all s) < room \<Longrightarrow> message_tag_escape s room = esc_all s"
  using escape_prefix [of s room] by auto

lemma esc_all_length: "length s \<le> length (esc_all s)" "length (esc_all s) \<le> 2 * length s"
  by (induction s) (auto simp: esc_all_def esc1_def)

lemma esc_all_chars: "c \<in> set (esc_all s) \<Longrightarrow> c \<noteq> CHR '';'' \<and> c \<noteq> CHR '' ''"
  by (auto simp: esc_all_def esc1_def special_def esc_def split: if_splits)

lemma esc_all_eq_sign: "CHR ''='' \<notin> set s \<Longrightarrow> CHR ''='' \<notin> set (esc_all s)"
  by (auto simp: esc_all_def esc1_def esc_def split: if_splits)

lemma esc_all_Nil [simp]: "esc_all s = [] \<longleftrightarrow> s = []"
  using esc_all_length [of s] by auto

section \<open>Lists of tags\<close>

definition tag_elem :: "message_tag \<Rightarrow> cstring" where
  "tag_elem m = esc_all (mt_name m) @ (case mt_value m of None \<Rightarrow> [] | Some v \<Rightarrow> CHR ''='' # esc_all v)"

definition tag_wf :: "message_tag \<Rightarrow> bool" where
  "tag_wf m \<longleftrightarrow> mt_name m \<noteq> [] \<and> CHR ''='' \<notin> set (mt_name m) \<and> mt_value m \<noteq> Some []"

definition tags_length :: "message_tag list \<Rightarrow> nat" where
  "tags_length ms = (\<Sum>m \<leftarrow> ms. length (tag_elem m) + 1)"

lemma tag_elem_chars: "c \<in> set (tag_elem m) \<Longrightarrow> c \<noteq> CHR '';'' \<and> c \<noteq> CHR '' ''"
  by (auto simp: tag_elem_def dest: esc_all_chars split: option.splits)

lemma tag_elem_not_Nil: "tag_wf m \<Longrightarrow> tag_elem m \<noteq> []"
  by (simp add: tag_elem_def tag_wf_def)

lemma tag_text_fits: "length (tag_elem m) < 4093 \<Longrightarrow> tag_text m = tag_elem m @ '';''"
  by (cases "mt_value m") (simp_all add: tag_text_def tag_elem_def snprintf_cut_def escape_fits)

lemma read_tag_elem:
  assumes "tag_wf m"
  shows "read_tag (tag_elem m) = (mt_name m, case mt_value m of None \<Rightarrow> [] | Some v \<Rightarrow> v)"
proof -
  have ne: "\<forall>c \<in> set (esc_all (mt_name m)). c \<noteq> CHR ''=''"
    using assms esc_all_eq_sign by (auto simp: tag_wf_def)
  show ?thesis
  proof (cases "mt_value m")
    case None
    have "dropWhile (\<lambda>c. c \<noteq> CHR ''='') (esc_all (mt_name m)) = []"
      using ne by (simp add: dropWhile_eq_Nil_conv)
    then show ?thesis
      using None by (simp add: read_tag_def tag_elem_def unescape_esc_all del: dropWhile_eq_Nil_conv)
  next
    case (Some v)
    have "dropWhile (\<lambda>c. c \<noteq> CHR ''='') (tag_elem m) = CHR ''='' # esc_all v"
      "takeWhile (\<lambda>c. c \<noteq> CHR ''='') (tag_elem m) = esc_all (mt_name m)"
      using ne Some by (simp_all add: tag_elem_def dropWhile_append2 takeWhile_append2)
    then show ?thesis
      using Some by (simp add: read_tag_def unescape_esc_all)
  qed
qed

lemma tags_buf_fits:
  "list_all accepts ms \<Longrightarrow> length buf + tags_length ms \<le> 4093 \<Longrightarrow>
   tags_buf accepts ms buf = buf @ concat (map (\<lambda>m. tag_elem m @ '';'') ms)"
proof (induction ms arbitrary: buf)
  case (Cons m ms)
  then have "tag_text m = tag_elem m @ '';''"
    by (intro tag_text_fits) (simp add: tags_length_def)
  moreover have "fst (strlcat buf (tag_elem m @ '';'') 4096) = buf @ tag_elem m @ '';''"
    using Cons.prems by (subst fst_strlcat) (simp_all add: tags_length_def)
  ultimately show ?case
    using Cons by (simp add: tags_length_def)
qed simp

lemma fields_elem: "CHR '';'' \<notin> set w \<Longrightarrow> Support.fields '';'' (w @ CHR '';'' # s) = w # Support.fields '';'' s"
  by (induction w) auto

lemma fields_last: "CHR '';'' \<notin> set w \<Longrightarrow> Support.fields '';'' w = [w]"
  by (induction w) auto

lemma fields_tags: "ms \<noteq> [] \<Longrightarrow> Support.fields '';'' (butlast (concat (map (\<lambda>m. tag_elem m @ '';'') ms))) = map tag_elem ms"
proof (induction ms)
  case (Cons m ms)
  have m: "CHR '';'' \<notin> set (tag_elem m)"
    using tag_elem_chars by blast
  show ?case
  proof (cases "ms = []")
    case True
    then show ?thesis using m by (simp add: fields_last)
  next
    case False
    then have "concat (map (\<lambda>m. tag_elem m @ '';'') ms) \<noteq> []"
      by (cases ms) simp_all
    then show ?thesis
      using Cons False m by (simp add: butlast_append fields_elem)
  qed
qed simp

lemma fold_add_tag:
  assumes "list_all tag_wf ms"
    and "list_all (\<lambda>m. message_tag_ok hs c (mt_name m) (case mt_value m of None \<Rightarrow> [] | Some v \<Rightarrow> v)) ms"
  shows "fold (add_tag hs c) (map tag_elem ms) acc = rev ms @ acc"
  using assms
proof (induction ms arbitrary: acc)
  case (Cons m ms)
  then have "add_tag hs c (tag_elem m) acc = m # acc"
    by (cases m) (auto simp: add_tag_def read_tag_elem tag_wf_def split: option.splits)
  then show ?case
    using Cons by simp
qed simp

text \<open>Registered handlers have different names, whatever case they are written in.\<close>

definition handlers_ok :: "mtag_handler list \<Rightarrow> bool" where
  "handlers_ok hs \<longleftrightarrow> distinct (map (\<lambda>m. map tolower (mh_name m)) hs)
     \<and> list_all (\<lambda>m. (mh_flags m AND MTAG_HANDLER_FLAGS_NO_CAP_NEEDED \<noteq> 0) = (clicap_handler m = None)) hs"

lemma update_first_names: "(\<And>x. P x \<Longrightarrow> g (f x) = g x) \<Longrightarrow> map g (update_first P f xs) = map g xs"
  by (induction xs) auto

lemma update_first_all: "list_all Q xs \<Longrightarrow> (\<And>x. P x \<Longrightarrow> Q x \<Longrightarrow> Q (f x)) \<Longrightarrow> list_all Q (update_first P f xs)"
  by (induction xs) auto

lemma handler_find_None: "MessageTagHandlerFind hs name = None \<longleftrightarrow> map tolower name \<notin> (\<lambda>m. map tolower (mh_name m)) ` set hs"
  by (auto simp: MessageTagHandlerFind_def find_None_iff strcaseeq_def)

lemma handler_add_ok:
  assumes "handlers_ok hs" "MessageTagHandlerAdd hs mreq = Inr (hs', b)"
  shows "handlers_ok hs'"
proof (cases "MessageTagHandlerFind hs (mh_name mreq)")
  case None
  then show ?thesis
    using assms handler_find_None [of hs "mh_name mreq"]
    by (auto simp: handlers_ok_def MessageTagHandlerAdd_def Let_def split: if_splits)
next
  case (Some m)
  then show ?thesis
    using assms
    by (auto simp: handlers_ok_def MessageTagHandlerAdd_def Let_def update_first_names [where g = "\<lambda>m. map tolower (mh_name m)"]
        intro!: update_first_all split: if_splits)
qed

lemma handler_del_ok: "handlers_ok hs \<Longrightarrow> handlers_ok (MessageTagHandlerDel r hs name)"
proof (cases r)
  case True
  assume "handlers_ok hs"
  with True show ?thesis
    by (simp add: handlers_ok_def MessageTagHandlerDel_def update_first_names [where g = "\<lambda>m. map tolower (mh_name m)"]
        update_first_all)
qed (auto simp: handlers_ok_def MessageTagHandlerDel_def distinct_map_filter list.pred_set)

section \<open>Properties\<close>

text \<open>
  C22: In a buffer of any size \<^const>\<open>message_tag_escape\<close> stays within the buffer and never writes half an
  escape: unescaping what it wrote gives a prefix of the text, all of it if twice its length is
  below the size.
\<close>

theorem tag_escape_roundtrip:
  assumes "0 < room"
  shows "\<exists>k. length (message_tag_escape s room) < room
    \<and> message_tag_unescape (message_tag_escape s room) = take k s
    \<and> (2 * length s < room \<longrightarrow> k = length s)"
proof -
  obtain k where "message_tag_escape s room = esc_all (take k s)" "length (esc_all (take k s)) < room"
    "length (esc_all s) < room \<longrightarrow> k = length s"
    using escape_prefix [of s room] assms by blast
  then show ?thesis
    using esc_all_length [of s] by (intro exI [of _ k]) (auto simp: unescape_esc_all)
qed

theorem tag_escape_roundtrip_witness:
  "message_tag_unescape (message_tag_escape ''a;b c'' 20) = ''a;b c''
   \<and> length (message_tag_escape ''a;b c'' 4) < 4"
  using tag_escape_roundtrip [of 20 "''a;b c''"] tag_escape_roundtrip [of 4 "''a;b c''"] by auto

text \<open>
  C21: A list of tags with names that contain no equals sign, written by \<^const>\<open>mtags_to_string\<close> and read
  by \<^const>\<open>parse_message_tags\<close> on the other side, arrives complete, with the values unchanged and in
  reverse order, and the command behind it is left as it was. The text must fit the 4093 bytes
  that the writer's buffers hold, and both sides must accept the tags.
\<close>

theorem mtags_roundtrip:
  assumes "ms \<noteq> []" "list_all tag_wf ms" "tags_length ms \<le> 4093"
    and "list_all (\<lambda>m. client_accepts_tag hs CAP (mt_name m) d) ms" "tc_direction d = None \<or> tc_direction d = Some (srv, True)"
    and "list_all (\<lambda>m. message_tag_ok hs' c (mt_name m) (case mt_value m of None \<Rightarrow> [] | Some v \<Rightarrow> v)) ms"
  shows "\<exists>str. mtags_to_string hs CAP ms (Some d) = Some str
    \<and> parse_message_tags hs' c (CHR ''@'' # str @ CHR '' '' # rest) [] = (rest, rev ms, False)"
proof -
  define str where "str = butlast (concat (map (\<lambda>m. tag_elem m @ '';'') ms))"
  have buf: "tags_buf (\<lambda>m. client_accepts_tag hs CAP (mt_name m) d) ms [] = concat (map (\<lambda>m. tag_elem m @ '';'') ms)"
    using tags_buf_fits [OF assms(4), of "[]"] assms(3) by simp
  have "concat (map (\<lambda>m. tag_elem m @ '';'') ms) \<noteq> []"
    using assms(1) by (cases ms) simp_all
  then have string: "mtags_to_string hs CAP ms (Some d) = Some str"
    using assms(1,5) buf by (auto simp: mtags_to_string_def str_def split: option.splits)
  have "\<forall>c \<in> set str. c \<noteq> CHR '' ''"
    by (auto simp: str_def dest!: in_set_butlastD tag_elem_chars split: if_splits)
  then have split: "takeWhile (\<lambda>c. c \<noteq> CHR '' '') (CHR ''@'' # str @ CHR '' '' # rest) = CHR ''@'' # str"
    "dropWhile (\<lambda>c. c \<noteq> CHR '' '') (CHR ''@'' # str @ CHR '' '' # rest) = CHR '' '' # rest"
    by (simp_all add: takeWhile_append2 dropWhile_append2)
  have "length (concat (map (\<lambda>m. tag_elem m @ '';'') ms)) = tags_length ms"
    by (simp add: tags_length_def length_concat comp_def)
  then have limit: "length (CHR ''@'' # str) \<le> 4094"
    using assms(3) by (simp add: str_def)
  have "strtoken_all '';'' (Some str) = map tag_elem ms"
    using assms(1,2) tag_elem_not_Nil
    by (simp add: strtoken_all_fields str_def fields_tags filter_map comp_def list_all_iff cong: filter_cong)
  then have "parse_message_tags hs' c (CHR ''@'' # str @ CHR '' '' # rest) [] = (rest, rev ms, False)"
    using limit fold_add_tag [OF assms(2,6), of "[]"]
    unfolding parse_message_tags_def split SERVER_TAG_SIZE_LIMIT_def CLIENT_TAG_SIZE_LIMIT_def by simp
  with string show ?thesis by blast
qed

definition sample_server :: tag_client where
  "sample_server = \<lparr>tc_server = True, tc_local = True, tc_caps = 0, tc_direction = None\<rparr>"

definition sample_tags :: "message_tag list" where
  "sample_tags = [\<lparr>mt_name = ''time'', mt_value = Some ''a b''\<rparr>, \<lparr>mt_name = ''bot'', mt_value = None\<rparr>]"

theorem mtags_roundtrip_witness:
  "\<exists>str. mtags_to_string [] 1 sample_tags (Some sample_server) = Some str
    \<and> parse_message_tags [] sample_server (CHR ''@'' # str @ CHR '' '' # ''PING'') []
      = (''PING'', [\<lparr>mt_name = ''bot'', mt_value = None\<rparr>, \<lparr>mt_name = ''time'', mt_value = Some ''a b''\<rparr>], False)"
  using mtags_roundtrip [of sample_tags "[]" 1 sample_server True "[]" sample_server "''PING''"]
  by (simp add: sample_tags_def sample_server_def tag_wf_def tags_length_def tag_elem_def esc_all_def esc1_def special_def
      esc_def client_accepts_tag_def message_tag_ok_def MessageTagHandlerFind_def)

end
