(* ===== verification/Command.thy ===== *)
theory Command
  imports Support
begin

text \<open>
  The command table (\<^verbatim>\<open>src/api-command.c\<close>) and command overrides
  (\<^verbatim>\<open>src/modules.c\<close>). \<^verbatim>\<open>CommandHash\<close> is a function from the folded first byte
  of a name to the chain of commands; functions are named by their C identifiers. The link
  of a command to its owning module, used when a module is unloaded, and the \<^verbatim>\<open>friend\<close>
  pointer, which is never set, are left out. The locale \<open>command_lookup\<close> is what the parser
  relies on; it is interpreted for every table that the registration functions can build.
\<close>

unbundle bit_operations_syntax

section \<open>The model\<close>

definition MAXPARA :: nat where
  "MAXPARA = 30"

definition CMD_UNREGISTERED :: "32 word" where
  "CMD_UNREGISTERED = 0x0001"

definition CMD_USER :: "32 word" where
  "CMD_USER = 0x0002"

definition CMD_SERVER :: "32 word" where
  "CMD_SERVER = 0x0004"

definition CMD_SHUN :: "32 word" where
  "CMD_SHUN = 0x0008"

definition CMD_NOLAG :: "32 word" where
  "CMD_NOLAG = 0x0010"

definition CMD_ALIAS :: "32 word" where
  "CMD_ALIAS = 0x0020"

definition CMD_RESETIDLE :: "32 word" where
  "CMD_RESETIDLE = 0x0040"

definition CMD_VIRUS :: "32 word" where
  "CMD_VIRUS = 0x0080"

definition CMD_OPER :: "32 word" where
  "CMD_OPER = 0x0200"

definition CMD_CONTROL :: "32 word" where
  "CMD_CONTROL = 0x0400"

definition CMD_BIGLINES :: "32 word" where
  "CMD_BIGLINES = 0x0800"

definition CMD_TEXTANALYSIS :: "32 word" where
  "CMD_TEXTANALYSIS = 0x1000"

lemmas cmd_flag_defs = CMD_UNREGISTERED_def CMD_USER_def CMD_SERVER_def CMD_SHUN_def CMD_NOLAG_def CMD_ALIAS_def
  CMD_RESETIDLE_def CMD_VIRUS_def CMD_OPER_def CMD_CONTROL_def CMD_BIGLINES_def CMD_TEXTANALYSIS_def

definition has :: "32 word \<Rightarrow> 32 word \<Rightarrow> bool" where
  "has flags f \<longleftrightarrow> flags AND f \<noteq> 0"

record command_override =
  ovr_priority :: int
  ovr_owner :: "cstring option"
  ovr_func :: cstring

record real_command =
  rc_id :: nat
  cmd :: cstring
  func :: "cstring option"
  aliasfunc :: "cstring option"
  rc_flags :: "32 word"
  rc_count :: "32 word"
  parameters :: nat
  rc_bytes :: "64 word"
  overriders :: "command_override list"

type_synonym command_hash = "nat \<Rightarrow> real_command list"

definition cmd_bucket :: "cstring \<Rightarrow> nat" where
  "cmd_bucket name = of_char (toupper (c_at name 0))"

definition CommandExists :: "command_hash \<Rightarrow> cstring \<Rightarrow> bool" where
  "CommandExists h name \<longleftrightarrow> list_ex (\<lambda>p. strcaseeq (cmd p) name) (h (cmd_bucket name))"

definition admits :: "32 word \<Rightarrow> real_command \<Rightarrow> bool" where
  "admits flags p \<longleftrightarrow>
     (if has flags CMD_CONTROL then has (rc_flags p) CMD_CONTROL
      else (has flags CMD_UNREGISTERED \<longrightarrow> has (rc_flags p) CMD_UNREGISTERED)
           \<and> (has flags CMD_SHUN \<longrightarrow> has (rc_flags p) CMD_SHUN)
           \<and> (has flags CMD_VIRUS \<longrightarrow> has (rc_flags p) CMD_VIRUS)
           \<and> (has flags CMD_ALIAS \<longrightarrow> has (rc_flags p) CMD_ALIAS)
           \<and> \<not> has (rc_flags p) CMD_CONTROL)"

definition find_command :: "command_hash \<Rightarrow> cstring \<Rightarrow> 32 word \<Rightarrow> real_command option" where
  "find_command h name flags = find (\<lambda>p. admits flags p \<and> strcaseeq (cmd p) name) (h (cmd_bucket name))"

definition find_command_simple :: "command_hash \<Rightarrow> cstring \<Rightarrow> real_command option" where
  "find_command_simple h name = find (\<lambda>c. strcaseeq (cmd c) name) (h (cmd_bucket name))"

definition add_Command_backend :: "command_hash \<Rightarrow> real_command \<Rightarrow> command_hash" where
  "add_Command_backend h c = h(cmd_bucket (cmd c) := c # h (cmd_bucket (cmd c)))"

text \<open>\<open>ident\<close> is the identity of the allocated structure; the result is \<open>None\<close> for an error.\<close>

definition CommandAddInternal ::
  "command_hash \<Rightarrow> nat \<Rightarrow> cstring \<Rightarrow> cstring option \<Rightarrow> cstring option \<Rightarrow> nat \<Rightarrow> 32 word \<Rightarrow> command_hash option" where
  "CommandAddInternal h ident name fn aliasfn params flags =
     (if (case find_command h name flags of None \<Rightarrow> False | Some c \<Rightarrow> rc_flags c = flags) then None
      else if flags = 0 then None
      else Some (add_Command_backend h
             \<lparr>rc_id = ident, cmd = name, func = fn, aliasfunc = aliasfn, rc_flags = flags, rc_count = 0,
              parameters = (if params > MAXPARA then MAXPARA else params), rc_bytes = 0, overriders = []\<rparr>))"

definition CommandAdd :: "command_hash \<Rightarrow> nat \<Rightarrow> cstring \<Rightarrow> cstring \<Rightarrow> nat \<Rightarrow> 32 word \<Rightarrow> command_hash option" where
  "CommandAdd h ident name fn params flags =
     (if has flags CMD_ALIAS then None else CommandAddInternal h ident name (Some fn) None params flags)"

definition AliasAdd :: "command_hash \<Rightarrow> nat \<Rightarrow> cstring \<Rightarrow> cstring \<Rightarrow> nat \<Rightarrow> 32 word \<Rightarrow> command_hash option" where
  "AliasAdd h ident name aliasfn params flags =
     CommandAddInternal h ident name None (Some aliasfn) params (if \<not> has flags CMD_ALIAS then flags OR CMD_ALIAS else flags)"

definition CommandDelX :: "command_hash \<Rightarrow> real_command \<Rightarrow> command_hash" where
  "CommandDelX h c = h(cmd_bucket (cmd c) := filter (\<lambda>p. rc_id p \<noteq> rc_id c) (h (cmd_bucket (cmd c))))"

definition set_command :: "nat \<Rightarrow> nat \<Rightarrow> (real_command \<Rightarrow> real_command) \<Rightarrow> command_hash \<Rightarrow> command_hash" where
  "set_command b ident f h = h(b := map (\<lambda>c. if rc_id c = ident then f c else c) (h b))"

definition CommandOverrideAdd ::
  "command_hash \<Rightarrow> cstring option \<Rightarrow> cstring \<Rightarrow> int \<Rightarrow> cstring \<Rightarrow> bool \<Rightarrow> command_hash option" where
  "CommandOverrideAdd h module name p fn too_early =
     (if module \<noteq> None \<and> too_early then None
      else (case find_command_simple h name of
              None \<Rightarrow> None
            | Some c \<Rightarrow>
                if list_ex (\<lambda>ovr. ovr_owner ovr = module \<and> ovr_func ovr = fn) (overriders c) then None
                else Some (set_command (cmd_bucket name) (rc_id c)
                       (\<lambda>c. c\<lparr>overriders := takeWhile (\<lambda>x. ovr_priority x < p) (overriders c)
                                @ \<lparr>ovr_priority = p, ovr_owner = module, ovr_func = fn\<rparr>
                                # dropWhile (\<lambda>x. ovr_priority x < p) (overriders c)\<rparr>) h)))"

definition CommandOverrideDel :: "command_hash \<Rightarrow> real_command \<Rightarrow> command_override \<Rightarrow> command_hash" where
  "CommandOverrideDel h c ovr =
     set_command (cmd_bucket (cmd c)) (rc_id c) (\<lambda>c. c\<lparr>overriders := remove1 ovr (overriders c)\<rparr>) h"

text \<open>
  Which function runs: the entry point chosen by the parser, and what an override at position
  \<open>i\<close> of the chain calls next.
\<close>

datatype target = Alias "cstring option" | Override nat cstring | Func "cstring option"

definition entry_point :: "real_command \<Rightarrow> target" where
  "entry_point c =
     (if has (rc_flags c) CMD_ALIAS then Alias (aliasfunc c)
      else (case overriders c of [] \<Rightarrow> Func (func c) | o1 # _ \<Rightarrow> Override 0 (ovr_func o1)))"

definition CallCommandOverride :: "real_command \<Rightarrow> nat \<Rightarrow> target" where
  "CallCommandOverride c i =
     (if Suc i < length (overriders c) then Override (Suc i) (ovr_func (overriders c ! Suc i)) else Func (func c))"

text \<open>
  \<open>do_cmd\<close> calls the function of the command itself, whatever its overrides; the result is which function
  is called, if any.
\<close>

definition do_cmd :: "command_hash \<Rightarrow> cstring \<Rightarrow> fault + cstring option" where
  "do_cmd h name =
     (case find_command_simple h name of
        None \<Rightarrow> Inr None
      | Some c \<Rightarrow> (case func c of None \<Rightarrow> Inl Null_Deref | Some f \<Rightarrow> Inr (Some f)))"

definition core_commands :: "(cstring \<times> cstring \<times> nat \<times> 32 word) list" where
  "core_commands =
     [(''ERROR'', ''cmd_error'', MAXPARA, CMD_UNREGISTERED OR CMD_SERVER),
      (''VERSION'', ''cmd_version'', MAXPARA, CMD_UNREGISTERED OR CMD_USER OR CMD_SERVER),
      (''INFO'', ''cmd_info'', MAXPARA, CMD_USER),
      (''DNS'', ''cmd_dns'', MAXPARA, CMD_USER),
      (''REHASH'', ''cmd_rehash'', MAXPARA, CMD_USER OR CMD_SERVER),
      (''RESTART'', ''cmd_restart'', 2, CMD_USER),
      (''DIE'', ''cmd_die'', MAXPARA, CMD_USER),
      (''CREDITS'', ''cmd_credits'', MAXPARA, CMD_USER),
      (''LICENSE'', ''cmd_license'', MAXPARA, CMD_USER),
      (''MODULE'', ''cmd_module'', MAXPARA, CMD_USER)]"

fun add_all :: "(cstring \<times> cstring \<times> nat \<times> 32 word) list \<Rightarrow> nat \<Rightarrow> command_hash \<Rightarrow> command_hash" where
  "add_all [] n h = h"
| "add_all ((name, fn, params, flags) # cs) n h =
     add_all cs (Suc n) (case CommandAdd h n name fn params flags of None \<Rightarrow> h | Some h' \<Rightarrow> h')"

definition init_CommandHash :: command_hash where
  "init_CommandHash = add_all core_commands 0 (\<lambda>_. [])"

section \<open>Tables built by the registration functions\<close>

definition command_ok :: "real_command \<Rightarrow> bool" where
  "command_ok c \<longleftrightarrow> parameters c \<le> MAXPARA \<and> rc_flags c \<noteq> 0 \<and> sorted (map ovr_priority (overriders c))
     \<and> (if has (rc_flags c) CMD_ALIAS then aliasfunc c \<noteq> None else func c \<noteq> None)"

definition table_inv :: "command_hash \<Rightarrow> bool" where
  "table_inv h \<longleftrightarrow> (\<forall>b. \<forall>c \<in> set (h b). cmd_bucket (cmd c) = b \<and> command_ok c)"

definition registered :: "command_hash \<Rightarrow> real_command set" where
  "registered h = (\<Union>b. set (h b))"

inductive cmd_reach :: "command_hash \<Rightarrow> bool" where
  init: "cmd_reach init_CommandHash"
| add: "cmd_reach h \<Longrightarrow> CommandAdd h ident name fn params flags = Some h' \<Longrightarrow> cmd_reach h'"
| add_alias: "cmd_reach h \<Longrightarrow> AliasAdd h ident name fn params flags = Some h' \<Longrightarrow> cmd_reach h'"
| del: "cmd_reach h \<Longrightarrow> c \<in> registered h \<Longrightarrow> cmd_reach (CommandDelX h c)"
| override: "cmd_reach h \<Longrightarrow> CommandOverrideAdd h module name p fn early = Some h' \<Longrightarrow> cmd_reach h'"
| override_del: "cmd_reach h \<Longrightarrow> c \<in> registered h \<Longrightarrow> cmd_reach (CommandOverrideDel h c ovr)"
| used: "cmd_reach h \<Longrightarrow> cmd_reach (set_command b ident (\<lambda>c. c\<lparr>rc_count := rc_count c + k, rc_bytes := rc_bytes c + n\<rparr>) h)"

lemma table_inv_insert: "table_inv h \<Longrightarrow> command_ok c \<Longrightarrow> table_inv (add_Command_backend h c)"
  by (auto simp: table_inv_def add_Command_backend_def)

lemma table_inv_set:
  "table_inv h \<Longrightarrow> (\<And>c. command_ok c \<Longrightarrow> command_ok (f c) \<and> cmd (f c) = cmd c) \<Longrightarrow> table_inv (set_command b i f h)"
  by (auto simp: table_inv_def set_command_def)

lemma has_or: "has (a OR b) f \<longleftrightarrow> has a f \<or> has b f"
  by (auto simp: has_def bit_eq_iff bit_simps)

lemma has_self: "f \<noteq> 0 \<Longrightarrow> has f f"
  by (simp add: has_def)

lemma CommandAdd_inv: "table_inv h \<Longrightarrow> CommandAdd h i name fn params flags = Some h' \<Longrightarrow> table_inv h'"
  by (auto simp: CommandAdd_def CommandAddInternal_def command_ok_def MAXPARA_def
      intro!: table_inv_insert split: if_splits)

lemma AliasAdd_inv: "table_inv h \<Longrightarrow> AliasAdd h i name fn params flags = Some h' \<Longrightarrow> table_inv h'"
  by (auto simp: AliasAdd_def CommandAddInternal_def command_ok_def MAXPARA_def has_or has_self CMD_ALIAS_def
      intro!: table_inv_insert split: if_splits)

lemma sorted_prio_insert:
  "sorted (map f xs) \<Longrightarrow> sorted (map f (takeWhile (\<lambda>x. f x < p) xs @ y # dropWhile (\<lambda>x. f x < p) xs))"
  if "f y = (p :: int)" for xs :: "'a list"
  using that by (induction xs) (auto simp: not_less intro: order_trans dest: set_takeWhileD set_dropWhileD)

lemma sorted_map_remove1: "sorted (map f xs) \<Longrightarrow> sorted (map f (remove1 x xs))"
  by (induction xs) (auto dest: notin_set_remove1 intro: in_set_remove1 dest: set_mp [OF set_remove1_subset])

lemma CommandOverrideAdd_inv: "table_inv h \<Longrightarrow> CommandOverrideAdd h module name p fn early = Some h' \<Longrightarrow> table_inv h'"
  by (auto simp: CommandOverrideAdd_def command_ok_def split: if_splits option.splits
      intro!: table_inv_set sorted_prio_insert simp del: map_append list.map)

lemma table_inv_init: "table_inv init_CommandHash"
proof -
  have "table_inv (add_all cs n h)" if "table_inv h" for cs n h
    using that
  proof (induction cs n h rule: add_all.induct)
    case (2 name fn params flags cs n h)
    then show ?case
      using CommandAdd_inv [of h n name fn params flags] by (cases "CommandAdd h n name fn params flags") auto
  qed simp
  moreover have "table_inv (\<lambda>_. [])"
    by (simp add: table_inv_def)
  ultimately show ?thesis
    unfolding init_CommandHash_def by blast
qed

lemma reach_inv: "cmd_reach h \<Longrightarrow> table_inv h"
proof (induction rule: cmd_reach.induct)
  case (del h c)
  then show ?case by (auto simp: table_inv_def CommandDelX_def)
next
  case (override_del h c ovr)
  then show ?case
    unfolding CommandOverrideDel_def by (auto simp: command_ok_def intro!: table_inv_set sorted_map_remove1)
next
  case (used h b ident k n)
  then show ?case by (auto simp: command_ok_def intro!: table_inv_set)
qed (auto intro: table_inv_init CommandAdd_inv AliasAdd_inv CommandOverrideAdd_inv)

lemma strcaseeq_bucket: "strcaseeq a b \<Longrightarrow> cmd_bucket a = cmd_bucket b"
  by (cases a; cases b) (auto simp: strcaseeq_def cmd_bucket_def c_at_def toupper_eq_iff_tolower_eq)

section \<open>The contract of lookup\<close>

locale command_lookup =
  fixes lookup :: "cstring \<Rightarrow> 32 word \<Rightarrow> real_command option"
    and commands :: "real_command set"
  assumes lookup_sound: "lookup name flags = Some c \<Longrightarrow> c \<in> commands \<and> admits flags c \<and> strcaseeq (cmd c) name"
    and lookup_complete: "lookup name flags = None \<Longrightarrow> c \<in> commands \<Longrightarrow> admits flags c \<Longrightarrow> \<not> strcaseeq (cmd c) name"
    and commands_ok: "c \<in> commands \<Longrightarrow> command_ok c"
begin

lemma lookup_parameters: "lookup name flags = Some c \<Longrightarrow> parameters c \<le> MAXPARA"
  using lookup_sound commands_ok by (auto simp: command_ok_def)

lemma lookup_control: "lookup name flags = Some c \<Longrightarrow> has flags CMD_CONTROL \<longleftrightarrow> has (rc_flags c) CMD_CONTROL"
  using lookup_sound by (fastforce simp: admits_def split: if_splits)

lemma lookup_entry: "lookup name flags = Some c \<Longrightarrow> entry_point c \<noteq> Alias None \<and> entry_point c \<noteq> Func None"
  using lookup_sound commands_ok by (fastforce simp: command_ok_def entry_point_def split: list.splits if_splits)

end

lemma find_command_lookup: "table_inv h \<Longrightarrow> command_lookup (find_command h) (registered h)"
proof
  fix name flags c
  assume inv: "table_inv h"
  show "c \<in> registered h \<and> admits flags c \<and> strcaseeq (cmd c) name" if "find_command h name flags = Some c"
    using that by (auto simp: find_command_def registered_def find_Some_iff in_set_conv_nth)
  show "\<not> strcaseeq (cmd c) name" if "find_command h name flags = None" "c \<in> registered h" "admits flags c"
    using that inv strcaseeq_bucket [of "cmd c" name]
    by (auto simp: find_command_def registered_def find_None_iff table_inv_def)
  show "command_ok c" if "c \<in> registered h"
    using that inv by (auto simp: registered_def table_inv_def)
qed

locale reachable_table =
  fixes h :: command_hash
  assumes reach: "cmd_reach h"

sublocale reachable_table \<subseteq> lk: command_lookup "find_command h" "registered h"
  by (rule find_command_lookup [OF reach_inv [OF reach]])

interpretation core: reachable_table init_CommandHash
  by unfold_locales (rule cmd_reach.init)

section \<open>Properties\<close>

text \<open>
  C11: In every command table that registrations, removals and overrides can lead to from start-up,
  \<^const>\<open>find_command\<close> returns a registered command of that name, in any case, that admits the caller, and
  fails only if there is none. The command takes at most \<^const>\<open>MAXPARA\<close> parameters, its entry point
  is an existing function, and its overrides are called in the order of their priorities, the last
  of them handing over to the command's own function.
\<close>

theorem command_table_lookup:
  assumes "cmd_reach h"
  shows "case find_command h name flags of
      None \<Rightarrow> \<not> (\<exists>c. c \<in> registered h \<and> admits flags c \<and> strcaseeq (cmd c) name)
    | Some c \<Rightarrow> c \<in> registered h \<and> admits flags c \<and> strcaseeq (cmd c) name \<and> parameters c \<le> MAXPARA
        \<and> entry_point c \<noteq> Alias None \<and> entry_point c \<noteq> Func None
        \<and> sorted (map ovr_priority (overriders c))
        \<and> CallCommandOverride c (length (overriders c) - 1) = Func (func c)"
proof -
  note l = find_command_lookup [OF reach_inv [OF assms]]
  show ?thesis
  proof (cases "find_command h name flags")
    case None
    then show ?thesis
      using command_lookup.lookup_complete [OF l None] by auto
  next
    case (Some c)
    moreover have "sorted (map ovr_priority (overriders c))"
      using command_lookup.lookup_sound [OF l Some] command_lookup.commands_ok [OF l] by (auto simp: command_ok_def)
    ultimately show ?thesis
      using command_lookup.lookup_sound [OF l Some] command_lookup.lookup_parameters [OF l Some]
        command_lookup.lookup_entry [OF l Some] by (simp add: CallCommandOverride_def)
  qed
qed

lemma find_rehash: "map_option cmd (find_command init_CommandHash ''rehash'' CMD_USER) = Some ''REHASH''"
  by code_simp

theorem command_table_lookup_witness:
  "\<exists>c. find_command init_CommandHash ''rehash'' CMD_USER = Some c \<and> cmd c = ''REHASH'' \<and> parameters c \<le> 30"
  using command_table_lookup [OF cmd_reach.init, where name = "''rehash''" and flags = CMD_USER] find_rehash
  by (auto simp: MAXPARA_def)

end
