(* ===== verification/Parse.thy ===== *)
theory Parse
  imports Dbuf Hash Mtags Command "HOL-Library.Signed_Division"
begin

text \<open>
  From the receive queue to the command: \<^verbatim>\<open>src/parse.c\<close> and \<^verbatim>\<open>concat_params\<close> of
  \<^verbatim>\<open>src/misc.c\<close>. Clients are addresses with their fields in a store, as in the hash
  tables that the sender of a message is looked up in. Everything that is reached through a
  function pointer (command functions, hooks) or that belongs to other parts of the server
  (spam filters, bans, the removal of a client, the flood settings of a security group,
  operator permissions) is a field of the record \<open>penv\<close>, a function on the state where
  it may change it. What is sent is collected in the state in order. Both debugging code and
  code for the option \<^verbatim>\<open>FAKELAG_CONFIGURABLE\<close> are compiled out.
\<close>

unbundle bit_operations_syntax

section \<open>The state\<close>

definition MAXPARA_USER :: nat where
  "MAXPARA_USER = 15"

definition CLIENT_STATUS_CONTROL :: int where
  "CLIENT_STATUS_CONTROL = -9"

definition CLIENT_STATUS_TLS_STARTTLS_HANDSHAKE :: int where
  "CLIENT_STATUS_TLS_STARTTLS_HANDSHAKE = -7"

definition CLIENT_STATUS_HANDSHAKE :: int where
  "CLIENT_STATUS_HANDSHAKE = -3"

definition CLIENT_STATUS_ME :: int where
  "CLIENT_STATUS_ME = -2"

definition CLIENT_STATUS_UNKNOWN :: int where
  "CLIENT_STATUS_UNKNOWN = -1"

definition CLIENT_STATUS_SERVER :: int where
  "CLIENT_STATUS_SERVER = 0"

definition CLIENT_STATUS_USER :: int where
  "CLIENT_STATUS_USER = 1"

lemmas status_defs = CLIENT_STATUS_CONTROL_def CLIENT_STATUS_TLS_STARTTLS_HANDSHAKE_def CLIENT_STATUS_HANDSHAKE_def
  CLIENT_STATUS_ME_def CLIENT_STATUS_UNKNOWN_def CLIENT_STATUS_SERVER_def CLIENT_STATUS_USER_def

text \<open>
  The part of a client that exists for local connections. \<open>listener\<close> is \<open>None\<close> for NULL and
  otherwise tells whether it is for servers only.
\<close>

record plocal =
  recvQ :: dbuf
  fake_lag :: int
  fake_lag_msec :: int
  creationtime :: int
  listener :: "bool option"
  unix_socket :: bool
  bytes_received :: int
  messages_received :: int
  idle_since :: int
  tags_serial :: int
  spamfilter_run_tags_serial :: int

text \<open>\<open>pc_server\<close> is \<^verbatim>\<open>client->server\<close>: whether the \<^verbatim>\<open>SERVER\<close> line was sent and whether the link is insecure.\<close>

record pclient =
  pc_name :: cstring
  pc_id :: cstring
  status :: int
  direction :: addr
  pc_user :: "cstring option"
  pc_server :: "(bool \<times> bool) option"
  IsOper :: bool
  IsDead :: bool
  IsDeadSocket :: bool
  IsDNSLookup :: bool
  IsIdentLookup :: bool
  IsLocalhost :: bool
  IsNoFakeLag :: bool
  IsNoHandshakeDelay :: bool
  IsShunned :: bool
  IsVirus :: bool
  pc_caps :: "64 word"
  SupportMTAGS :: bool
  MyConnect :: bool
  lc :: plocal

definition IsUser :: "pclient \<Rightarrow> bool" where
  "IsUser c \<longleftrightarrow> status c = CLIENT_STATUS_USER"

definition IsServer :: "pclient \<Rightarrow> bool" where
  "IsServer c \<longleftrightarrow> status c = CLIENT_STATUS_SERVER"

definition IsMe :: "pclient \<Rightarrow> bool" where
  "IsMe c \<longleftrightarrow> status c = CLIENT_STATUS_ME"

definition IsControl :: "pclient \<Rightarrow> bool" where
  "IsControl c \<longleftrightarrow> status c = CLIENT_STATUS_CONTROL"

definition IsHandshake :: "pclient \<Rightarrow> bool" where
  "IsHandshake c \<longleftrightarrow> status c = CLIENT_STATUS_HANDSHAKE"

definition IsRegistered :: "pclient \<Rightarrow> bool" where
  "IsRegistered c \<longleftrightarrow> status c \<ge> CLIENT_STATUS_SERVER"

definition IsUnknown :: "pclient \<Rightarrow> bool" where
  "IsUnknown c \<longleftrightarrow> status c = CLIENT_STATUS_UNKNOWN \<or> status c = CLIENT_STATUS_TLS_STARTTLS_HANDSHAKE"

lemmas client_kind_defs = IsUser_def IsServer_def IsMe_def IsControl_def IsHandshake_def IsRegistered_def
  IsUnknown_def status_defs

text \<open>What the hash tables and the tag code see of a client.\<close>

definition hclient :: "pclient \<Rightarrow> client" where
  "hclient c = client.make (pc_name c) (pc_id c) (IsServer c) (IsMe c) (IsUser c) (pc_user c)"

definition tclient :: "(addr \<Rightarrow> pclient) \<Rightarrow> pclient \<Rightarrow> tag_client" where
  "tclient cs c =
     \<lparr>tc_server = IsServer c, tc_local = MyConnect c, tc_caps = pc_caps c,
      tc_direction = Some (IsServer (cs (direction c)), SupportMTAGS (cs (direction c)))\<rparr>"

datatype pevent =
    Unknown_Command addr cstring
  | Control_Error addr cstring
  | Send_Numeric addr nat cstring
  | Send_Squit addr cstring
  | Send_Kill addr cstring
  | Forward_Numeric addr addr nat cstring
  | Channel_Numeric addr addr nat cstring
  | Start_Handshake addr
  | Reject_Insecure addr
  | Client_Starttls addr

record pstate =
  clients :: "addr \<Rightarrow> pclient"
  ctable :: hash_state
  chname :: "addr \<Rightarrow> cstring"
  commands :: command_hash
  is_unpf :: "32 word"
  is_wrdi :: "32 word"
  is_unco :: "32 word"
  is_num :: "32 word"
  me_bytes_received :: int
  me_messages_received :: int
  TStime :: int
  sent :: "pevent list"

text \<open>A command that is about to run: the arguments of the command function.\<close>

record dispatch =
  d_command :: real_command
  d_target :: target
  d_from :: addr
  d_mtags :: "message_tag list"
  d_params :: "cstring list"
  d_lag :: int
  d_analyze :: "cstring option"

record penv =
  me :: addr
  me_creationtime :: int
  handshake_data_flood_amount :: int
  handshake_delay :: int
  handshake_boot_delay :: int
  get_recvq :: "pclient \<Rightarrow> nat"
  immune_lag :: "pclient \<Rightarrow> bool"
  lag_settings :: "pclient \<Rightarrow> int \<times> int"
  mtag_handlers :: "mtag_handler list"
  packet_hooks :: "addr \<Rightarrow> char list \<Rightarrow> char list option"
  pre_command :: "addr \<Rightarrow> message_tag list \<Rightarrow> cstring \<Rightarrow> bool"
  post_command :: "addr option \<Rightarrow> message_tag list \<Rightarrow> cstring \<Rightarrow> pstate \<Rightarrow> pstate"
  match_spamfilter_mtags :: "addr \<Rightarrow> message_tag list \<Rightarrow> cstring option \<Rightarrow> bool"
  run_deferred_rule_only_spamfilters :: "addr \<Rightarrow> pstate \<Rightarrow> pstate"
  run_command :: "dispatch \<Rightarrow> pstate \<Rightarrow> pstate"
  exit_client :: "addr \<Rightarrow> cstring \<Rightarrow> pstate \<Rightarrow> pstate"
  find_tkl_exception :: "addr \<Rightarrow> pstate \<Rightarrow> bool"
  take_action :: "addr \<Rightarrow> pstate \<Rightarrow> pstate"
  client_starttls :: "addr \<Rightarrow> pstate \<Rightarrow> int"

definition upd :: "addr \<Rightarrow> (pclient \<Rightarrow> pclient) \<Rightarrow> pstate \<Rightarrow> pstate" where
  "upd a f st = st\<lparr>clients := (clients st)(a := f (clients st a))\<rparr>"

definition upd_local :: "addr \<Rightarrow> (plocal \<Rightarrow> plocal) \<Rightarrow> pstate \<Rightarrow> pstate" where
  "upd_local a f = upd a (\<lambda>c. c\<lparr>lc := f (lc c)\<rparr>)"

definition emit :: "pevent \<Rightarrow> pstate \<Rightarrow> pstate" where
  "emit e st = st\<lparr>sent := sent st @ [e]\<rparr>"

section \<open>Fake lag\<close>

definition add_lag :: "int \<Rightarrow> plocal \<Rightarrow> plocal" where
  "add_lag msec l =
     (let m = fake_lag_msec l + msec
      in l\<lparr>fake_lag := fake_lag l + m sdiv 1000, fake_lag_msec := m smod 1000\<rparr>)"

definition parse_addlag :: "penv \<Rightarrow> addr \<Rightarrow> nat \<Rightarrow> nat \<Rightarrow> pstate \<Rightarrow> int \<times> pstate" where
  "parse_addlag env client command_bytes mtags_bytes st =
     (let c = clients st client in
      if \<not> IsServer c \<and> \<not> IsNoFakeLag c \<and> \<not> immune_lag env c then
        (case lag_settings env c of (lag_penalty, lag_penalty_bytes) \<Rightarrow>
           let msec = (1 + int command_bytes sdiv lag_penalty_bytes + int mtags_bytes sdiv lag_penalty_bytes) * lag_penalty
           in (msec, upd_local client (add_lag msec) st))
      else (0, st))"

definition add_fake_lag :: "addr \<Rightarrow> int \<Rightarrow> pstate \<Rightarrow> pstate" where
  "add_fake_lag client msec st =
     (if \<not> MyConnect (clients st client) \<or> IsNoFakeLag (clients st client) then st
      else upd_local client (add_lag msec) st)"

definition subtract_fake_lag :: "addr \<Rightarrow> int \<Rightarrow> pstate \<Rightarrow> pstate" where
  "subtract_fake_lag client msec st =
     (if \<not> MyConnect (clients st client) then st
      else upd_local client (\<lambda>l.
             let rest = fake_lag_msec l - msec in
             if rest \<ge> 0 then l\<lparr>fake_lag_msec := rest\<rparr>
             else let secs = (- rest + 999) sdiv 1000
                  in l\<lparr>fake_lag := fake_lag l - secs, fake_lag_msec := rest + secs * 1000\<rparr>) st)"

definition client_lagged_up :: "penv \<Rightarrow> addr \<Rightarrow> pstate \<Rightarrow> bool" where
  "client_lagged_up env client st =
     (let c = clients st client in
      if status c < CLIENT_STATUS_UNKNOWN then False
      else if IsServer c then False
      else if immune_lag env c then False
      else if fake_lag (lc c) - TStime st < 10 then False
      else True)"

section \<open>Parameters\<close>

text \<open>
  The parameter loop of \<^verbatim>\<open>parse2\<close>; \<open>i\<close> counts the parameters found so far. A parameter that starts
  with a colon, and the one that reaches the limit, take the rest of the line.
\<close>

function split_params :: "nat \<Rightarrow> nat \<Rightarrow> cstring \<Rightarrow> cstring list" where
  "split_params paramcount i s =
     (case dropWhile (\<lambda>c. c = CHR '' '') s of
        [] \<Rightarrow> []
      | c # r \<Rightarrow>
          if c = CHR '':'' then [r]
          else if Suc i \<ge> paramcount then [c # r]
          else takeWhile (\<lambda>c. c \<noteq> CHR '' '') (c # r)
               # split_params paramcount (Suc i) (dropWhile (\<lambda>c. c \<noteq> CHR '' '') (c # r)))"
  by pat_completeness auto
termination
proof (relation "measure (\<lambda>(paramcount, i, s). length s)")
  fix paramcount i :: nat and s r :: cstring and c
  assume "dropWhile (\<lambda>c. c = CHR '' '') s = c # r"
  then have "length (c # r) \<le> length s" "c \<noteq> CHR '' ''"
    using length_dropWhile_le [of "\<lambda>c. c = CHR '' ''" s] by (auto dest: dropWhile_Cons_D)
  then show "((paramcount, Suc i, dropWhile (\<lambda>c. c \<noteq> CHR '' '') (c # r)), paramcount, i, s)
      \<in> measure (\<lambda>(paramcount, i, s). length s)"
    using length_dropWhile_le [of "\<lambda>c. c \<noteq> CHR '' ''" r] by simp
qed simp

declare split_params.simps [simp del]

text \<open>\<open>concat_params\<close> on the parameters \<^verbatim>\<open>parv[1]\<close> to \<^verbatim>\<open>parv[parc - 1]\<close>.\<close>

fun concat_params :: "cstring \<Rightarrow> nat \<Rightarrow> cstring list \<Rightarrow> cstring" where
  "concat_params buf len [] = buf"
| "concat_params buf len (param # ps) =
     (let buf = (if buf \<noteq> [] then fst (strlcat buf '' '' len) else buf) in
      if CHR '' '' \<in> set param \<or> c_at param 0 = CHR '':''
      then fst (strlcat (fst (strlcat buf '':'' len)) param len)
      else concat_params (fst (strlcat buf param len)) len ps)"

section \<open>The sender\<close>

definition remove_unknown :: "addr \<Rightarrow> cstring \<Rightarrow> pstate \<Rightarrow> pstate" where
  "remove_unknown client sender st =
     (let c = clients st client in
      if \<not> IsRegistered c \<or> IsUser c then st
      else if \<not> IsServer c then st
      else if (isdigit (c_at sender 0) \<and> length sender \<le> 3) \<or> CHR ''.'' \<in> set sender
      then emit (Send_Squit client sender) st
      else emit (Send_Kill client sender) st)"

definition cancel_clients :: "penv \<Rightarrow> addr \<Rightarrow> addr \<Rightarrow> pstate \<Rightarrow> pstate" where
  "cancel_clients env cptr client st =
     (if IsServer (clients st cptr) \<or> IsServer (clients st client) \<or> IsMe (clients st client) then st
      else exit_client env cptr ''Fake prefix'' st)"

text \<open>
  The sender in front of a line, whose buffer holds \<^verbatim>\<open>HOSTLEN\<close> (63) bytes: either the line is dropped,
  or the source of the message and the rest of the line are known.
\<close>

definition find_sender :: "pstate \<Rightarrow> cstring \<Rightarrow> addr option" where
  "find_sender st sender =
     (let cs = (\<lambda>a. hclient (clients st a)) in
      case find_client cs (ctable st) sender None of
        Some from \<Rightarrow> Some from
      | None \<Rightarrow> if CHR ''@'' \<in> set sender then hash_find_nickatserver cs (ctable st) sender None else None)"

definition parse_sender :: "penv \<Rightarrow> addr \<Rightarrow> cstring \<Rightarrow> pstate \<Rightarrow> pstate + addr \<times> cstring" where
  "parse_sender env cptr ch st =
     (if c_at ch 0 = CHR '':'' \<or> c_at ch 0 = CHR ''@'' then
        (let sender = take 63 (takeWhile (\<lambda>c. c \<noteq> CHR '' '') (tl ch));
             rest = dropWhile (\<lambda>c. c \<noteq> CHR '' '') (tl ch);
             after = dropWhile (\<lambda>c. c = CHR '' '') rest
         in if sender \<noteq> [] \<and> IsServer (clients st cptr) then
              (case find_sender st sender of
                 None \<Rightarrow> Inl (remove_unknown cptr sender (st\<lparr>is_unpf := is_unpf st + 1\<rparr>))
               | Some from \<Rightarrow>
                   if direction (clients st from) \<noteq> cptr
                   then Inl (cancel_clients env cptr from (st\<lparr>is_wrdi := is_wrdi st + 1\<rparr>))
                   else Inr (from, after))
            else Inr (cptr, after))
      else Inr (cptr, ch))"

section \<open>The command\<close>

definition caller_flags :: "pclient \<Rightarrow> 32 word" where
  "caller_flags from =
     (if \<not> IsRegistered from then CMD_UNREGISTERED else 0) OR (if IsUser from then CMD_USER else 0)
     OR (if IsServer from then CMD_SERVER else 0) OR (if IsShunned from then CMD_SHUN else 0)
     OR (if IsVirus from then CMD_VIRUS else 0) OR (if IsOper from then CMD_OPER else 0)
     OR (if IsControl from then CMD_CONTROL else 0)"

definition ERR_INPUTTOOLONG :: nat where
  "ERR_INPUTTOOLONG = 417"

definition ERR_NOTREGISTERED :: nat where
  "ERR_NOTREGISTERED = 451"

definition ERR_ALREADYREGISTRED :: nat where
  "ERR_ALREADYREGISTRED = 462"

definition ERR_NOPRIVILEGES :: nat where
  "ERR_NOPRIVILEGES = 481"

definition ERR_NOTFORUSERS :: nat where
  "ERR_NOTFORUSERS = 487"

text \<open>The answer to a command that does not exist for the caller.\<close>

definition unknown_command :: "addr \<Rightarrow> addr \<Rightarrow> cstring \<Rightarrow> pstate \<Rightarrow> pstate" where
  "unknown_command cptr from ch st =
     (if IsControl (clients st from) then emit (Control_Error from ch) st
      else if \<not> IsRegistered (clients st cptr) \<and> \<not> strcaseeq ch ''NOTICE''
      then emit (Send_Numeric from ERR_NOTREGISTERED []) st
      else if IsShunned (clients st cptr) then st
      else (if ch \<noteq> [] \<and> IsUser (clients st from) then emit (Unknown_Command from ch) st else st)
             \<lparr>is_unco := is_unco st + 1\<rparr>)"

text \<open>The access checks behind the lookup: \<open>Some\<close> state if the command is denied.\<close>

definition deny_command :: "32 word \<Rightarrow> real_command \<Rightarrow> addr \<Rightarrow> pstate \<Rightarrow> pstate option" where
  "deny_command flags c cptr st =
     (if has flags CMD_USER \<and> \<not> has (rc_flags c) CMD_USER \<and> \<not> has (rc_flags c) CMD_OPER then
        Some (if has (rc_flags c) CMD_UNREGISTERED then emit (Send_Numeric cptr ERR_ALREADYREGISTRED []) st
              else emit (Send_Numeric cptr ERR_NOTFORUSERS (cmd c)) st)
      else if has flags CMD_SERVER \<and> \<not> has (rc_flags c) CMD_SERVER then Some st
      else if has (rc_flags c) CMD_OPER \<and> has flags CMD_USER \<and> \<not> has flags CMD_OPER
      then Some (emit (Send_Numeric cptr ERR_NOPRIVILEGES []) st)
      else None)"

definition resolve_command ::
  "penv \<Rightarrow> addr \<Rightarrow> addr \<Rightarrow> cstring \<Rightarrow> nat \<Rightarrow> nat \<Rightarrow> pstate \<Rightarrow> pstate \<times> (real_command \<times> int) option" where
  "resolve_command env cptr from ch bytes mtags_bytes st =
     (let flags = caller_flags (clients st from);
          cmptr = find_command (commands st) ch flags;
          (lag_added, st) =
            (if (case cmptr of None \<Rightarrow> True | Some c \<Rightarrow> \<not> has (rc_flags c) CMD_NOLAG)
             then parse_addlag env cptr bytes mtags_bytes st else (0, st))
      in case cmptr of
           None \<Rightarrow> (unknown_command cptr from ch st, None)
         | Some c \<Rightarrow>
             (case deny_command flags c cptr st of
                Some st' \<Rightarrow> (st', None)
              | None \<Rightarrow>
                  (st\<lparr>commands := set_command (cmd_bucket (cmd c)) (rc_id c)
                        (\<lambda>c. c\<lparr>rc_bytes := rc_bytes c + of_nat bytes\<rparr>) (commands st)\<rparr>, Some (c, lag_added))))"

datatype paction = Done | Call dispatch | Numeric nat addr "message_tag list" "cstring list"

definition command_params :: "nat \<Rightarrow> pclient \<Rightarrow> cstring option \<Rightarrow> cstring list" where
  "command_params paramcount from s =
     (let paramcount = (if \<not> IsServer from \<and> paramcount > MAXPARA_USER then MAXPARA_USER else paramcount)
      in case s of None \<Rightarrow> [] | Some s \<Rightarrow> split_params paramcount 0 s)"

definition cut_params :: "pclient \<Rightarrow> nat \<Rightarrow> real_command option \<Rightarrow> cstring list \<Rightarrow> cstring list" where
  "cut_params cptr bytes cmptr ps =
     (if IsServer cptr \<and> bytes > 510 \<and> \<not> (case cmptr of None \<Rightarrow> False | Some c \<Rightarrow> has (rc_flags c) CMD_BIGLINES)
      then map (take 510) ps else ps)"

definition make_call :: "addr \<Rightarrow> addr \<Rightarrow> message_tag list \<Rightarrow> real_command \<Rightarrow> int \<Rightarrow> cstring list \<Rightarrow> pstate \<Rightarrow> pstate \<times> dispatch" where
  "make_call cptr from mtags c lag_added ps st =
     (let st = st\<lparr>commands := set_command (cmd_bucket (cmd c)) (rc_id c) (\<lambda>c. c\<lparr>rc_count := rc_count c + 1\<rparr>) (commands st)\<rparr>;
          st = (if IsUser (clients st cptr) \<and> has (rc_flags c) CMD_RESETIDLE
                then upd_local cptr (\<lambda>l. l\<lparr>idle_since := TStime st\<rparr>) st else st)
      in (st, \<lparr>d_command = c, d_target = entry_point c, d_from = from, d_mtags = mtags, d_params = ps, d_lag = lag_added,
               d_analyze = (if has (rc_flags c) CMD_TEXTANALYSIS \<and> MyConnect (clients st from)
                               \<and> IsUser (clients st from) \<and> ps \<noteq> [] then Some (last ps) else None)\<rparr>))"

text \<open>
  From the parameters to the call, for a command with the lag that was added for it or for a
  numeric. Writing the parameters and the final NULL past \<^verbatim>\<open>para[MAXPARA + 1]\<close> is a fault.
\<close>

definition finish_command ::
  "penv \<Rightarrow> addr \<Rightarrow> addr \<Rightarrow> message_tag list \<Rightarrow> nat \<Rightarrow> nat + (real_command \<times> int) \<Rightarrow> cstring option \<Rightarrow> pstate
   \<Rightarrow> fault + pstate \<times> addr \<times> paction" where
  "finish_command env cptr from mtags bytes cm s st =
     (let cmptr = (case cm of Inl _ \<Rightarrow> None | Inr (c, _) \<Rightarrow> Some c);
          ps = command_params (case cmptr of None \<Rightarrow> MAXPARA | Some c \<Rightarrow> parameters c) (clients st from) s
      in if length ps + 1 > MAXPARA + 1 then Inl Array_Overflow
         else if MyConnect (clients st from) \<and> \<not> IsServer (clients st from)
                 \<and> match_spamfilter_mtags env from mtags (map_option cmd cmptr)
         then Inr (st, from, Done)
         else (let ps = cut_params (clients st cptr) bytes cmptr ps in
               case cm of
                 Inl numeric \<Rightarrow> Inr (st, from, Numeric numeric from mtags ps)
               | Inr (c, lag_added) \<Rightarrow>
                   (case make_call cptr from mtags c lag_added ps st of (st', d) \<Rightarrow> Inr (st', from, Call d))))"

definition parse2_prepare ::
  "penv \<Rightarrow> addr \<Rightarrow> message_tag list \<Rightarrow> nat \<Rightarrow> cstring \<Rightarrow> pstate \<Rightarrow> fault + pstate \<times> addr \<times> paction" where
  "parse2_prepare env cptr mtags mtags_bytes line st =
     (let line = (if \<not> IsServer (clients st cptr) \<and> length line > 510 then take 510 line else line) in
      case parse_sender env cptr line st of
        Inl st' \<Rightarrow> Inr (st', cptr, Done)
      | Inr (from, ch) \<Rightarrow>
          if pre_command env from mtags ch then Inr (st, from, Done)
          else if ch = [] then
            Inr (if \<not> IsServer (clients st cptr) then upd_local cptr (\<lambda>l. l\<lparr>fake_lag := fake_lag l + 1\<rparr>) st else st, from, Done)
          else
            (let bytes = length ch;
                 tok = takeWhile (\<lambda>c. c \<noteq> CHR '' '') ch;
                 s = dropWhile (\<lambda>c. c \<noteq> CHR '' '') ch;
                 len = (if s \<noteq> [] then length tok else 0)
             in if len > 512 then
                  Inr ((emit (Unknown_Command from (take 510 ch)) st)\<lparr>is_unco := is_unco st + 1\<rparr>, from, Done)
                else if len = 3 \<and> isdigit (c_at ch 0) \<and> isdigit (c_at ch 1) \<and> isdigit (c_at ch 2) then
                  (let numeric = (of_char (c_at ch 0) - 48) * 100 + (of_char (c_at ch 1) - 48) * 10 + (of_char (c_at ch 2) - 48);
                       st = snd (parse_addlag env cptr bytes mtags_bytes (st\<lparr>is_num := is_num st + 1\<rparr>))
                   in finish_command env cptr from mtags bytes (Inl numeric) (Some s) st)
                else
                  (case resolve_command env cptr from tok bytes mtags_bytes st of
                     (st', None) \<Rightarrow> Inr (st', from, Done)
                   | (st', Some (c, lag_added)) \<Rightarrow>
                       finish_command env cptr from mtags bytes (Inr (c, lag_added)) (if s \<noteq> [] then Some (tl s) else None) st')))"

section \<open>Numerics\<close>

definition strstr :: "cstring \<Rightarrow> cstring \<Rightarrow> bool" where
  "strstr s n \<longleftrightarrow> list_ex (\<lambda>i. take (length n) (drop i s) = n) [0..<Suc (length s)]"

definition numeric_to :: "addr \<Rightarrow> nat \<Rightarrow> cstring \<Rightarrow> cstring \<Rightarrow> pstate \<Rightarrow> pstate" where
  "numeric_to client numeric buffer nick st =
     (let cs = (\<lambda>a. hclient (clients st a)); c = clients st client in
      case find_client cs (ctable st) nick None of
        Some acptr \<Rightarrow>
          let a = clients st acptr in
          if \<not> IsMe a \<and> IsUser a then
            (if MyConnect a \<and> isdigit (c_at nick 0) then
               (case dropWhile (\<lambda>c. c \<noteq> CHR '' '') buffer of
                  [] \<Rightarrow> st
                | _ # skip \<Rightarrow> emit (Forward_Numeric acptr client numeric (pc_name a @ '' '' @ skip)) st)
             else emit (Forward_Numeric acptr client numeric buffer) st)
          else if IsServer a \<and> direction a \<noteq> direction c then emit (Forward_Numeric acptr client numeric buffer) st
          else st
      | None \<Rightarrow>
          (case find_server cs (ctable st) (Some nick) None of
             Some acptr \<Rightarrow>
               let a = clients st acptr in
               if \<not> IsMe a \<and> direction a \<noteq> direction c then emit (Forward_Numeric acptr client numeric buffer) st else st
           | None \<Rightarrow>
               (case find_channel (chname st) (ctable st) nick of
                  Some channel \<Rightarrow> emit (Channel_Numeric channel client numeric buffer) st
                | None \<Rightarrow> st)))"

definition do_numeric :: "penv \<Rightarrow> nat \<Rightarrow> addr \<Rightarrow> cstring list \<Rightarrow> pstate \<Rightarrow> pstate" where
  "do_numeric env numeric client ps st =
     (let c = clients st client in
      if numeric > 999 then st
      else if MyConnect c \<and> \<not> IsServer c \<and> \<not> IsUser c \<and> IsHandshake c
              \<and> (case pc_server c of None \<Rightarrow> False | Some (server_sent, _) \<Rightarrow> \<not> server_sent)
              \<and> (numeric = 451 \<and> length ps > 1 \<and> strstr (hd ps) ''STARTTLS'' \<or> numeric = 691 \<or> numeric = 670)
      then (if numeric = 451 then
              (if snd (the (pc_server c)) then emit (Start_Handshake client) st else emit (Reject_Insecure client) st)
            else if numeric = 691 then emit (Reject_Insecure client) st
            else let st' = emit (Client_Starttls client) st
                 in if client_starttls env client st < 0 then emit (Reject_Insecure client) st' else st')
      else if ps = [] \<or> hd ps = [] \<or> \<not> IsServer c then st
      else let numeric = (if numeric < 100 then numeric + 100 else numeric);
               buffer = concat_params [] 512 ps;
               targets = take 511 (hd ps)
           in fold (numeric_to client numeric buffer) (strtoken_all '','' (Some targets)) st)"

section \<open>A line\<close>

definition perform :: "penv \<Rightarrow> paction \<Rightarrow> pstate \<Rightarrow> pstate" where
  "perform env act st =
     (case act of
        Done \<Rightarrow> st
      | Call d \<Rightarrow> run_command env d st
      | Numeric numeric from mtags ps \<Rightarrow> do_numeric env numeric from ps st)"

definition parse2 :: "penv \<Rightarrow> addr \<Rightarrow> message_tag list \<Rightarrow> nat \<Rightarrow> cstring \<Rightarrow> pstate \<Rightarrow> fault + pstate \<times> addr" where
  "parse2 env cptr mtags mtags_bytes line st =
     (case parse2_prepare env cptr mtags mtags_bytes line st of
        Inl e \<Rightarrow> Inl e
      | Inr (st', from, act) \<Rightarrow> Inr (perform env act st', from))"

definition ban_handshake_data_flooder :: "penv \<Rightarrow> addr \<Rightarrow> pstate \<Rightarrow> pstate" where
  "ban_handshake_data_flooder env client st =
     (if find_tkl_exception env client st then exit_client env client ''Handshake data flood detected'' st
      else take_action env client st)"

text \<open>The tags in front of a line: the tags, how many bytes they take, and the rest behind the blanks.\<close>

definition parse_tags :: "penv \<Rightarrow> addr \<Rightarrow> cstring \<Rightarrow> pstate \<Rightarrow> pstate \<times> message_tag list \<times> nat \<times> cstring" where
  "parse_tags env cptr ch st =
     (if c_at ch 0 = CHR ''@'' then
        (case parse_message_tags (mtag_handlers env) (tclient (clients st) (clients st cptr)) ch [] of
           (rest, mtags, toolong) \<Rightarrow>
             let tags = takeWhile (\<lambda>c. c \<noteq> CHR '' '') ch
             in (if toolong then emit (Send_Numeric cptr ERR_INPUTTOOLONG []) st else st, mtags,
                 if toolong \<or> CHR '' '' \<notin> set ch then length tags else length tags + 1,
                 dropWhile (\<lambda>c. c = CHR '' '') rest))
      else (st, [], 0, ch))"

text \<open>
  What is left of the line in its buffer, up to the first NUL, when \<^verbatim>\<open>parse2\<close> has cut it into the command and its
  parameters.
\<close>

definition cut_line_text :: "penv \<Rightarrow> addr \<Rightarrow> message_tag list \<Rightarrow> cstring \<Rightarrow> pstate \<Rightarrow> cstring" where
  "cut_line_text env cptr mtags line st =
     (let line = (if \<not> IsServer (clients st cptr) \<and> length line > 510 then take 510 line else line) in
      case parse_sender env cptr line st of
        Inl _ \<Rightarrow> line
      | Inr (from, ch) \<Rightarrow>
          if pre_command env from mtags ch \<or> ch = [] then line
          else let tok = takeWhile (\<lambda>c. c \<noteq> CHR '' '') ch
               in take (length line - length ch) line @ (if tok \<noteq> ch \<and> length tok > 512 then take 510 ch else tok))"

definition parse :: "penv \<Rightarrow> addr \<Rightarrow> char list \<Rightarrow> pstate \<Rightarrow> fault + pstate" where
  "parse env cptr buffer st =
     (case packet_hooks env cptr buffer of
        None \<Rightarrow> Inr st
      | Some buffer \<Rightarrow>
          let c = clients st cptr in
          if IsDeadSocket c then Inr st
          else if bytes_received (lc c) \<ge> handshake_data_flood_amount env \<and> IsUnknown c
          then Inr (ban_handshake_data_flooder env cptr st)
          else
            (let ch = dropWhile (\<lambda>c. c = CHR '' '') (takeWhile (\<lambda>c. c \<noteq> NUL) buffer) in
             case parse_tags env cptr ch st of
               (st, mtags, mtags_bytes, ch) \<Rightarrow>
                 (case parse2 env cptr mtags mtags_bytes ch st of
                    Inl e \<Rightarrow> Inl e
                  | Inr (st', from) \<Rightarrow>
                      Inr (post_command env (if IsDead (clients st' cptr) then None else Some from) mtags
                             (cut_line_text env cptr mtags ch st) st'))))"

definition dopacket :: "penv \<Rightarrow> addr \<Rightarrow> char list \<Rightarrow> nat \<Rightarrow> pstate \<Rightarrow> fault + pstate" where
  "dopacket env client buffer len st =
     parse env client buffer
       (upd_local client
          (\<lambda>l. l\<lparr>bytes_received := bytes_received l + int len, messages_received := messages_received l + 1\<rparr>)
          (st\<lparr>me_bytes_received := me_bytes_received st + int len, me_messages_received := me_messages_received st + 1\<rparr>))"

section \<open>The queue\<close>

definition queue :: "addr \<Rightarrow> pstate \<Rightarrow> dbuf" where
  "queue client st = recvQ (lc (clients st client))"

definition set_queue :: "addr \<Rightarrow> dbuf \<Rightarrow> pstate \<Rightarrow> pstate" where
  "set_queue client q = upd_local client (\<lambda>l. l\<lparr>recvQ := q\<rparr>)"

definition after_command :: "penv \<Rightarrow> addr \<Rightarrow> pstate \<Rightarrow> pstate" where
  "after_command env client st =
     (let c = clients st client in
      if \<not> IsDead c \<and> MyConnect c \<and> tags_serial (lc c) \<noteq> spamfilter_run_tags_serial (lc c)
      then run_deferred_rule_only_spamfilters env client st else st)"

text \<open>One pass of the loop of \<^verbatim>\<open>parse_client_queued\<close>: the state and whether the loop goes on.\<close>

definition queue_pass :: "penv \<Rightarrow> addr \<Rightarrow> pstate \<Rightarrow> fault + pstate \<times> bool" where
  "queue_pass env client st =
     (case dbuf_getmsg (queue client st) of
        Inl e \<Rightarrow> Inl e
      | Inr (dolen, buf, q) \<Rightarrow>
          if dolen = 0 then Inr (set_queue client q st, False)
          else (case dopacket env client buf dolen (set_queue client q st) of
                  Inl e \<Rightarrow> Inl e
                | Inr st' \<Rightarrow>
                    let st' = after_command env client st'
                    in Inr (st', \<not> IsDead (clients st' client))))"

partial_function (option) parse_queue :: "penv \<Rightarrow> addr \<Rightarrow> pstate \<Rightarrow> (fault + pstate) option" where
  "parse_queue env client st =
     (if dbuf_length (queue client st) \<noteq> 0 \<and> \<not> client_lagged_up env client st then
        (case queue_pass env client st of
           Inl e \<Rightarrow> Some (Inl e)
         | Inr (st', go_on) \<Rightarrow> if go_on then parse_queue env client st' else Some (Inr st'))
      else Some (Inr st))"

definition delayed :: "penv \<Rightarrow> addr \<Rightarrow> pstate \<Rightarrow> bool" where
  "delayed env client st =
     (let c = clients st client; l = lc c in
      IsDNSLookup c \<or> IsIdentLookup c
      \<or> (\<not> IsUser c \<and> \<not> IsServer c \<and> \<not> unix_socket l \<and> \<not> IsLocalhost c
         \<and> (handshake_delay env > 0 \<and> \<not> IsNoHandshakeDelay c \<and> TStime st - creationtime l < handshake_delay env
            \<or> handshake_boot_delay env > 0 \<and> TStime st - me_creationtime env < handshake_boot_delay env
              \<and> (case listener l of None \<Rightarrow> False | Some serversonly \<Rightarrow> \<not> serversonly))))"

definition parse_client_queued :: "penv \<Rightarrow> addr \<Rightarrow> pstate \<Rightarrow> (fault + pstate) option" where
  "parse_client_queued env client st = (if delayed env client st then Some (Inr st) else parse_queue env client st)"

definition dead_socket :: "addr \<Rightarrow> pstate \<Rightarrow> pstate" where
  "dead_socket a st = upd a (\<lambda>c. c\<lparr>IsDeadSocket := True, lc := (lc c)\<lparr>recvQ := dbuf_queue_init\<rparr>\<rparr>) st"

definition process_packet :: "penv \<Rightarrow> addr \<Rightarrow> char list \<Rightarrow> bool \<Rightarrow> pstate \<Rightarrow> (fault + pstate \<times> bool) option" where
  "process_packet env client readbuf killsafely st =
     (case dbuf_put (queue client st) readbuf of
        Inl e \<Rightarrow> Some (Inl e)
      | Inr q \<Rightarrow>
          (case parse_client_queued env client (set_queue client q st) of
             None \<Rightarrow> None
           | Some (Inl e) \<Rightarrow> Some (Inl e)
           | Some (Inr st) \<Rightarrow>
               let c = clients st client in
               Some (Inr
                 (if IsDead c then (st, False)
                  else if IsUnknown c \<and> int (unat (dbuf_length (queue client st))) > handshake_data_flood_amount env
                  then (if \<not> killsafely then ban_handshake_data_flooder env client st else dead_socket client st, False)
                  else if IsUser c \<and> unat (dbuf_length (queue client st)) > get_recvq env c
                  then (if \<not> killsafely then exit_client env client ''Excess Flood'' st else dead_socket client st, False)
                  else (st, True)))))"

end
