(* ===== verification/Parse_Lines.thy ===== *)
theory Parse_Lines
  imports Parse
begin

text \<open>
  What becomes of one line: the parameters of a command survive being written by
  \<^const>\<open>concat_params\<close> and read by the parser, a command runs only for a caller it admits and in the
  name of a client that its connection may speak for, and the parameter array is never overrun.
\<close>

unbundle bit_operations_syntax

section \<open>Parameters\<close>

definition middle_ok :: "cstring \<Rightarrow> bool" where
  "middle_ok p \<longleftrightarrow> p \<noteq> [] \<and> CHR '' '' \<notin> set p \<and> hd p \<noteq> CHR '':''"

definition trailing :: "cstring \<Rightarrow> cstring" where
  "trailing p = (if CHR '' '' \<in> set p \<or> c_at p 0 = CHR '':'' then CHR '':'' # p else p)"

definition params_text :: "cstring list \<Rightarrow> cstring \<Rightarrow> cstring" where
  "params_text ms l = concat (map (\<lambda>m. m @ '' '') ms) @ trailing l"

lemma c_at_0: "p \<noteq> [] \<Longrightarrow> c_at p 0 = hd p"
  by (cases p) (simp_all add: c_at_def)

lemma until_sep: "x \<notin> set m \<Longrightarrow> takeWhile (\<lambda>c. c \<noteq> x) (m @ x # s) = m" "x \<notin> set m \<Longrightarrow> dropWhile (\<lambda>c. c \<noteq> x) (m @ x # s) = x # s"
  by (induction m) auto

lemma until_end: "x \<notin> set m \<Longrightarrow> takeWhile (\<lambda>c. c \<noteq> x) m = m" "x \<notin> set m \<Longrightarrow> dropWhile (\<lambda>c. c \<noteq> x) m = []"
  by (induction m) auto

lemma split_params_Nil: "split_params n i [] = []"
  by (subst split_params.simps) simp

lemma split_params_blank: "split_params n i (CHR '' '' # s) = split_params n i s"
  by (subst (1 2) split_params.simps) simp

lemma split_params_middle:
  assumes "middle_ok m" "Suc i < n"
  shows "split_params n i (m @ CHR '' '' # s) = m # split_params n (Suc i) s"
proof -
  obtain c r where m: "m = c # r" "c \<noteq> CHR '' ''" "c \<noteq> CHR '':''"
    using assms(1) by (cases m) (auto simp: middle_ok_def)
  have "takeWhile (\<lambda>c. c \<noteq> CHR '' '') (m @ CHR '' '' # s) = m" "dropWhile (\<lambda>c. c \<noteq> CHR '' '') (m @ CHR '' '' # s) = CHR '' '' # s"
    using assms(1) until_sep [of "CHR '' ''" m s] by (auto simp: middle_ok_def)
  then show ?thesis
    using m assms(2) by (subst split_params.simps) (simp add: split_params_blank)
qed

lemma split_params_last: "l \<noteq> [] \<Longrightarrow> split_params n i (trailing l) = [l]"
proof (cases "CHR '' '' \<in> set l \<or> c_at l 0 = CHR '':''")
  case False
  assume "l \<noteq> []"
  with False obtain c r where l: "l = c # r" "c \<noteq> CHR '' ''" "c \<noteq> CHR '':''" "CHR '' '' \<notin> set r"
    by (cases l) (auto simp: c_at_def)
  then have "trailing l = c # r" "dropWhile (\<lambda>c. c = CHR '' '') (c # r) = c # r"
    using False by (simp_all add: trailing_def)
  then show ?thesis
    using l until_end [OF l(4)] by (subst split_params.simps) (simp add: split_params_Nil del: dropWhile_eq_Nil_conv)
qed (simp add: trailing_def split_params.simps [of n i "CHR '':'' # l"])

lemma split_params_text:
  "list_all middle_ok ms \<Longrightarrow> l \<noteq> [] \<Longrightarrow> i + length ms < n \<Longrightarrow> split_params n i (params_text ms l) = ms @ [l]"
proof (induction ms arbitrary: i)
  case (Cons m ms)
  then have "split_params n i (m @ CHR '' '' # params_text ms l) = m # ms @ [l]"
    by (subst split_params_middle) auto
  then show ?case
    by (simp add: params_text_def)
qed (simp add: params_text_def split_params_last)

lemma strlcat_fits: "length dst + length src < sz \<Longrightarrow> fst (strlcat dst src sz) = dst @ src"
  by (simp add: fst_strlcat)

lemma concat_params_last:
  assumes "length (buf @ '' '' @ trailing l) < len"
  shows "concat_params buf len [l] = (if buf = [] then [] else buf @ '' '') @ trailing l"
  using assms by (cases "buf = []"; cases "CHR '' '' \<in> set l \<or> c_at l 0 = CHR '':''") (simp_all add: trailing_def strlcat_fits)

lemma concat_params_text:
  "list_all middle_ok ms \<Longrightarrow> l \<noteq> [] \<Longrightarrow> length (buf @ '' '' @ params_text ms l) < len \<Longrightarrow>
   concat_params buf len (ms @ [l]) = (if buf = [] then [] else buf @ '' '') @ params_text ms l"
proof (induction ms arbitrary: buf)
  case Nil
  then show ?case using concat_params_last [of buf l len] by (simp add: params_text_def)
next
  case (Cons m ms)
  have m: "CHR '' '' \<notin> set m" "c_at m 0 \<noteq> CHR '':''" "m \<noteq> []"
    using Cons.prems(1) by (cases m; auto simp: middle_ok_def c_at_def)+
  have "concat_params buf len ((m # ms) @ [l]) = concat_params ((if buf = [] then [] else buf @ '' '') @ m) len (ms @ [l])"
    using m Cons.prems(3) by (cases "buf = []") (simp_all add: strlcat_fits params_text_def)
  also have "\<dots> = ((if buf = [] then [] else buf @ '' '') @ m @ '' '') @ params_text ms l"
    using Cons.prems m by (subst Cons.IH) (simp_all add: params_text_def)
  finally show ?case
    by (simp add: params_text_def)
qed

lemma split_params_length: "length (split_params n i s) \<le> max 1 (n - i)"
proof (induction n i s rule: split_params.induct)
  case (1 n i s)
  show ?case
  proof (cases "dropWhile (\<lambda>c. c = CHR '' '') s")
    case Nil
    then show ?thesis by (subst split_params.simps) (simp only: list.case list.size)
  next
    case (Cons c r)
    show ?thesis
    proof (cases "c = CHR '':'' \<or> Suc i \<ge> n")
      case True
      then show ?thesis using Cons by (subst split_params.simps) auto
    next
      case False
      then have "length (split_params n (Suc i) (dropWhile (\<lambda>c. c \<noteq> CHR '' '') (c # r))) \<le> max 1 (n - Suc i)"
        using 1 [OF Cons] by blast
      then show ?thesis
        using False Cons by (subst split_params.simps) auto
    qed
  qed
qed

section \<open>Who may call what\<close>

lemma has_if: "has (if P then a else 0) f \<longleftrightarrow> P \<and> has a f"
  by (simp add: has_def)

lemma caller_flags_has [simp]:
  "has (caller_flags f) CMD_UNREGISTERED \<longleftrightarrow> \<not> IsRegistered f"
  "has (caller_flags f) CMD_USER \<longleftrightarrow> IsUser f"
  "has (caller_flags f) CMD_SERVER \<longleftrightarrow> IsServer f"
  "has (caller_flags f) CMD_SHUN \<longleftrightarrow> IsShunned f"
  "has (caller_flags f) CMD_VIRUS \<longleftrightarrow> IsVirus f"
  "has (caller_flags f) CMD_OPER \<longleftrightarrow> IsOper f"
  "has (caller_flags f) CMD_CONTROL \<longleftrightarrow> IsControl f"
  "\<not> has (caller_flags f) CMD_ALIAS"
  unfolding caller_flags_def has_or has_if by (simp_all add: has_def cmd_flag_defs)

text \<open>The conditions under which a command may run for a client.\<close>

definition permitted :: "pclient \<Rightarrow> real_command \<Rightarrow> bool" where
  "permitted f c \<longleftrightarrow>
     (IsControl f \<longleftrightarrow> has (rc_flags c) CMD_CONTROL)
     \<and> (\<not> IsControl f \<longrightarrow>
          (\<not> IsRegistered f \<longrightarrow> has (rc_flags c) CMD_UNREGISTERED)
          \<and> (IsShunned f \<longrightarrow> has (rc_flags c) CMD_SHUN) \<and> (IsVirus f \<longrightarrow> has (rc_flags c) CMD_VIRUS))
     \<and> (IsUser f \<longrightarrow> has (rc_flags c) CMD_USER \<or> has (rc_flags c) CMD_OPER)
     \<and> (IsUser f \<and> has (rc_flags c) CMD_OPER \<longrightarrow> IsOper f)
     \<and> (IsServer f \<longrightarrow> has (rc_flags c) CMD_SERVER)"

text \<open>Only the local part of clients and what is sent change while a command is resolved.\<close>

definition same_clients :: "pstate \<Rightarrow> pstate \<Rightarrow> bool" where
  "same_clients st st' \<longleftrightarrow> (\<forall>a. \<exists>l. clients st' a = (clients st a)\<lparr>lc := l\<rparr>)"

lemma lc_self: "\<exists>l. c = c\<lparr>lc := l\<rparr>"
  by (rule exI [of _ "lc c"]) simp

lemma same_clients_eq: "clients st' = clients st \<Longrightarrow> same_clients st st'"
  unfolding same_clients_def by (simp add: lc_self)

lemma same_clients_upd_local: "same_clients st (upd_local a f st)"
  unfolding same_clients_def
proof
  fix x
  show "\<exists>l. clients (upd_local a f st) x = (clients st x)\<lparr>lc := l\<rparr>"
    by (cases "x = a") (auto simp: upd_local_def upd_def lc_self)
qed

lemma same_clientsD:
  assumes "same_clients st st'"
  shows "IsServer (clients st' a) = IsServer (clients st a)" "IsUser (clients st' a) = IsUser (clients st a)"
    "IsControl (clients st' a) = IsControl (clients st a)" "MyConnect (clients st' a) = MyConnect (clients st a)"
    "IsRegistered (clients st' a) = IsRegistered (clients st a)" "IsDead (clients st' a) = IsDead (clients st a)"
    "direction (clients st' a) = direction (clients st a)"
proof -
  obtain l where "clients st' a = (clients st a)\<lparr>lc := l\<rparr>"
    using assms by (auto simp: same_clients_def)
  then show "IsServer (clients st' a) = IsServer (clients st a)" "IsUser (clients st' a) = IsUser (clients st a)"
    "IsControl (clients st' a) = IsControl (clients st a)" "MyConnect (clients st' a) = MyConnect (clients st a)"
    "IsRegistered (clients st' a) = IsRegistered (clients st a)" "IsDead (clients st' a) = IsDead (clients st a)"
    "direction (clients st' a) = direction (clients st a)"
    by (simp_all add: client_kind_defs)
qed

lemma parse_addlag_frame: "same_clients st (snd (parse_addlag env a n m st))" "commands (snd (parse_addlag env a n m st)) = commands st"
  by (auto simp: parse_addlag_def Let_def same_clients_eq same_clients_upd_local split: prod.split)
     (simp add: upd_local_def upd_def)

lemma parse_sender_from:
  "parse_sender env cptr ch st = Inr (from, rest) \<Longrightarrow>
   from = cptr \<or> IsServer (clients st cptr) \<and> direction (clients st from) = cptr"
  by (auto simp: parse_sender_def Let_def split: if_splits option.splits)

lemma admits_deny_permitted:
  "admits (caller_flags f) c \<Longrightarrow> deny_command (caller_flags f) c a st = None \<Longrightarrow> permitted f c"
  by (auto simp: admits_def deny_command_def permitted_def split: if_splits)

lemma resolve_Some:
  assumes "resolve_command env cptr from tok b m st = (st', Some (c, lag))"
  shows "find_command (commands st) tok (caller_flags (clients st from)) = Some c"
    "permitted (clients st from) c" "same_clients st st'"
proof -
  define flags where "flags = caller_flags (clients st from)"
  define st1 where "st1 = snd (if (case find_command (commands st) tok flags of None \<Rightarrow> True | Some c \<Rightarrow> \<not> has (rc_flags c) CMD_NOLAG)
             then parse_addlag env cptr b m st else (0, st))"
  have st1: "same_clients st st1"
    using parse_addlag_frame(1) [of st] same_clients_eq [OF refl] by (auto simp: st1_def)
  obtain x where r: "find_command (commands st) tok flags = Some c" "deny_command flags c cptr st1 = None"
    "st' = st1\<lparr>commands := x\<rparr>"
    using assms unfolding resolve_command_def Let_def flags_def [symmetric]
    by (auto simp: st1_def split: option.splits prod.splits if_splits)
  then show "find_command (commands st) tok (caller_flags (clients st from)) = Some c"
    by (simp add: flags_def)
  have "admits flags c"
    using r(1) by (auto simp: find_command_def find_Some_iff)
  then show "permitted (clients st from) c"
    using r(2) unfolding flags_def by (rule admits_deny_permitted)
  show "same_clients st st'"
    using st1 unfolding r(3) same_clients_def by simp
qed

lemma command_params_bound: "n \<le> MAXPARA \<Longrightarrow> length (command_params n f s) \<le> MAXPARA"
proof (cases s)
  case (Some x)
  define k where "k = (if \<not> IsServer f \<and> n > MAXPARA_USER then MAXPARA_USER else n)"
  assume "n \<le> MAXPARA"
  then have "k \<le> MAXPARA"
    by (simp add: k_def MAXPARA_def MAXPARA_USER_def)
  then show ?thesis
    using split_params_length [of k 0 x] unfolding command_params_def Let_def k_def [symmetric] Some
    by (simp add: MAXPARA_def)
qed (simp add: command_params_def)

lemma cut_params_length [simp]: "length (cut_params c b cm ps) = length ps"
  by (simp add: cut_params_def)

lemma finish_Call:
  assumes "finish_command env cptr from mtags b cm s st = Inr (st', f, Call d)"
  shows "f = from" "\<exists>c lag ps. cm = Inr (c, lag) \<and> make_call cptr from mtags c lag ps st = (st', d) \<and> length ps \<le> MAXPARA"
proof -
  obtain c lag where cm: "cm = Inr (c, lag)"
    using assms by (cases cm) (auto simp: finish_command_def Let_def split: if_split_asm)
  define ps where "ps = command_params (parameters c) (clients st from) s"
  show "f = from" "\<exists>c lag ps. cm = Inr (c, lag) \<and> make_call cptr from mtags c lag ps st = (st', d) \<and> length ps \<le> MAXPARA"
    using assms unfolding cm finish_command_def Let_def sum.case prod.case option.case ps_def [symmetric]
    by (auto split: if_split_asm prod.splits intro!: exI [of _ "cut_params (clients st cptr) b (Some c) ps"])
qed

lemma finish_numeric [simp]: "finish_command env cptr from mtags b (Inl n) s st \<noteq> Inr (st', f, Call d)"
  using finish_Call(2) by fastforce

lemma make_call_sel:
  assumes "make_call cptr from mtags c lag ps st = (st', d)"
  shows "d_command d = c" "d_from d = from" "d_mtags d = mtags" "d_params d = ps" "d_target d = entry_point c" "d_lag d = lag"
  using assms by (auto simp: make_call_def Let_def)

lemma prepare_Call:
  assumes "parse2_prepare env cptr mtags n line st = Inr (st', f, Call d)"
  obtains ch tok b st1 lag s line' where "parse_sender env cptr line' st = Inr (d_from d, ch)"
    "resolve_command env cptr (d_from d) tok b n st = (st1, Some (d_command d, lag))"
    "finish_command env cptr (d_from d) mtags b (Inr (d_command d, lag)) s st1 = Inr (st', f, Call d)"
proof -
  define line' where "line' = (if \<not> IsServer (clients st cptr) \<and> length line > 510 then take 510 line else line)"
  obtain src ch where ps: "parse_sender env cptr line' st = Inr (src, ch)"
    using assms by (auto simp: parse2_prepare_def Let_def line'_def split: sum.splits)
  define tok where "tok = takeWhile (\<lambda>c. c \<noteq> CHR '' '') ch"
  obtain st1 c lag s where
    r: "resolve_command env cptr src tok (length ch) n st = (st1, Some (c, lag))"
    "finish_command env cptr src mtags (length ch) (Inr (c, lag)) s st1 = Inr (st', f, Call d)"
    using assms ps unfolding parse2_prepare_def Let_def line'_def [symmetric]
    by (auto simp: tok_def split: if_splits prod.splits option.splits)
  moreover have "src = d_from d" "c = d_command d"
    using finish_Call(2) [OF r(2)] make_call_sel by blast+
  ultimately show thesis
    using ps that by blast
qed

section \<open>No overrun\<close>

lemma finish_no_overflow:
  assumes "case cm of Inl _ \<Rightarrow> True | Inr (c, _) \<Rightarrow> parameters c \<le> MAXPARA"
  shows "\<exists>r. finish_command env cptr from mtags b cm s st = Inr r"
proof -
  define cmptr where "cmptr = (case cm of Inl _ \<Rightarrow> None | Inr (c, _) \<Rightarrow> Some c)"
  have "(case cmptr of None \<Rightarrow> MAXPARA | Some c \<Rightarrow> parameters c) \<le> MAXPARA"
    using assms by (auto simp: cmptr_def split: sum.splits)
  then show ?thesis
    using command_params_bound [of "case cmptr of None \<Rightarrow> MAXPARA | Some c \<Rightarrow> parameters c"]
    unfolding finish_command_def Let_def cmptr_def [symmetric] by (auto simp: not_less split: sum.splits prod.splits)
qed

lemma prepare_no_fault:
  assumes "cmd_reach (commands st)"
  shows "\<exists>r. parse2_prepare env cptr mtags n line st = Inr r"
proof -
  have params: "parameters c \<le> MAXPARA" if "resolve_command env cptr a tok b n st = (st1, Some (c, lag))" for a tok b st1 c lag
    using resolve_Some(1) [OF that] command_lookup.lookup_parameters [OF find_command_lookup [OF reach_inv [OF assms]]] by blast
  have num: "finish_command env cptr a mtags b (Inl k) s st1 \<noteq> Inl e" for a b k s st1 e
    using finish_no_overflow [of "Inl k" env cptr a mtags b s st1] by auto
  have call: "finish_command env cptr a mtags b (Inr (c, lag)) s st1 \<noteq> Inl e"
    if "resolve_command env cptr a tok b n st = (st1, Some (c, lag))" for a tok b st1 c lag s e
    using params [OF that] finish_no_overflow [of "Inr (c, lag)" env cptr a mtags b s st1] by auto
  have "parse2_prepare env cptr mtags n line st \<noteq> Inl e" for e
  proof
    assume "parse2_prepare env cptr mtags n line st = Inl e"
    then show False
      unfolding parse2_prepare_def Let_def
      by (auto simp: num split: sum.splits prod.splits option.splits if_split_asm dest: call)
  qed
  then show ?thesis
    by (cases "parse2_prepare env cptr mtags n line st") auto
qed

section \<open>A connection of each kind\<close>

definition sample_local :: plocal where
  "sample_local = \<lparr>recvQ = dbuf_queue_init, fake_lag = 100, fake_lag_msec = 0, creationtime = 0, listener = None,
     unix_socket = False, bytes_received = 0, messages_received = 0, idle_since = 0, tags_serial = 0,
     spamfilter_run_tags_serial = 0\<rparr>"

definition sample_client :: "int \<Rightarrow> pclient" where
  "sample_client s = \<lparr>pc_name = ''alice'', pc_id = ''001AAAAAA'', status = s, direction = 0, pc_user = None, pc_server = None,
     IsOper = False, IsDead = False, IsDeadSocket = False, IsDNSLookup = False, IsIdentLookup = False, IsLocalhost = False,
     IsNoFakeLag = False, IsNoHandshakeDelay = False, IsShunned = False, IsVirus = False, pc_caps = 0, SupportMTAGS = False,
     MyConnect = True, lc = sample_local\<rparr>"

definition sample_state :: "int \<Rightarrow> pstate" where
  "sample_state s = \<lparr>clients = (\<lambda>_. sample_client s), ctable = init_hash [] [] [], chname = (\<lambda>_. []), commands = init_CommandHash,
     is_unpf = 0, is_wrdi = 0, is_unco = 0, is_num = 0, me_bytes_received = 0, me_messages_received = 0, TStime = 100, sent = []\<rparr>"

definition sample_env :: penv where
  "sample_env = \<lparr>me = 1, me_creationtime = 0, handshake_data_flood_amount = 4096, handshake_delay = 0, handshake_boot_delay = 0,
     get_recvq = (\<lambda>_. 8000), immune_lag = (\<lambda>_. False), lag_settings = (\<lambda>_. (1000, 90)), mtag_handlers = [],
     packet_hooks = (\<lambda>_. Some), pre_command = (\<lambda>_ _ _. False), post_command = (\<lambda>_ _ _ st. st),
     match_spamfilter_mtags = (\<lambda>_ _ _. False), run_deferred_rule_only_spamfilters = (\<lambda>_ st. st), run_command = (\<lambda>_ st. st),
     exit_client = (\<lambda>a _ st. upd a (\<lambda>c. c\<lparr>IsDead := True\<rparr>) st), find_tkl_exception = (\<lambda>_ _. False),
     take_action = (\<lambda>a st. upd a (\<lambda>c. c\<lparr>IsDead := True\<rparr>) st), client_starttls = (\<lambda>_ _. 0)\<rparr>"

section \<open>Properties\<close>

text \<open>
  C23: The parameters of a message, any number below the limit of which all but the last are words that do
  not start with a colon, are written by \<^const>\<open>concat_params\<close> and read back by the parameter loop of
  \<^verbatim>\<open>parse2\<close> unchanged, if the buffer has room; the last one may contain blanks and colons.
\<close>

theorem params_roundtrip:
  assumes "list_all middle_ok ms" "l \<noteq> []" "length ms < n" "length (params_text ms l) + 1 < len"
  shows "split_params n 0 (concat_params [] len (ms @ [l])) = ms @ [l]"
  using assms split_params_text [of ms l 0 n] concat_params_text [of ms l "[]" len] by simp

theorem params_roundtrip_witness:
  "split_params 15 0 (concat_params [] 512 [''#chan'', ''+b'', ''see you :)'']) = [''#chan'', ''+b'', ''see you :)'']"
  using params_roundtrip [of "[''#chan'', ''+b'']" "''see you :)''" 15 512]
  by (simp add: middle_ok_def params_text_def trailing_def c_at_def)


lemma sample_call:
  "case parse2_prepare sample_env 0 [] 0 ''rehash a b'' (sample_state 1) of
     Inr (_, _, Call d) \<Rightarrow> cmd (d_command d) = ''REHASH'' \<and> d_params d = [''a'', ''b''] \<and> d_from d = 0 | _ \<Rightarrow> False"
  by code_simp


text \<open>
  C2: With a command table built by the registration functions no line, however long or malformed,
  makes \<^verbatim>\<open>parse2\<close> write outside the array of parameters.
\<close>

theorem parse2_no_overflow:
  assumes "cmd_reach (commands st)"
  shows "\<exists>st' from. parse2 env cptr mtags mtags_bytes line st = Inr (st', from)"
  using prepare_no_fault [OF assms, of env cptr mtags mtags_bytes line] by (auto simp: parse2_def)

theorem parse2_no_overflow_witness:
  "\<exists>st' from. parse2 sample_env 0 [] 0 (concat (replicate 40 ''x '')) (sample_state 0) = Inr (st', from)"
  by (rule parse2_no_overflow) (simp add: sample_state_def cmd_reach.init)

text \<open>
  A message from a server in the name of a client that is not behind it is only counted: the
  server is not told to remove that client, although the comment in \<^verbatim>\<open>parse2\<close> says so.
\<close>

theorem wrong_direction_ignored:
  assumes "IsServer (clients st cptr)" "CHR '' '' \<notin> set sender" "sender \<noteq> []" "length sender \<le> 63"
    and "find_sender st sender = Some src" "direction (clients st src) \<noteq> cptr"
  shows "parse_sender env cptr (CHR '':'' # sender @ CHR '' '' # rest) st = Inl (st\<lparr>is_wrdi := is_wrdi st + 1\<rparr>)"
  using assms by (simp add: parse_sender_def c_at_def Let_def until_sep cancel_clients_def)

end
