(* ===== verification/Parse_Queue.thy ===== *)
theory Parse_Queue
  imports Parse_Lines
begin

text \<open>
  The receive queue and fake lag. The lag of a connection is the time \<open>lag_of\<close> in milliseconds; all
  functions change it by exactly the amount they are given. The loop over the queue returns and
  leaves a complete line behind only for a client that is lagged up or gone, and a user gets
  only as many commands through as its lag allows. Command functions and hooks come from
  other modules; what is assumed of them is stated in the definitions \<open>calm\<close> and \<open>lag_calm\<close>.
\<close>

section \<open>Lag\<close>

definition lag_of :: "plocal \<Rightarrow> int" where
  "lag_of l = 1000 * fake_lag l + fake_lag_msec l"

definition lag_ok :: "plocal \<Rightarrow> bool" where
  "lag_ok l \<longleftrightarrow> 0 \<le> fake_lag_msec l \<and> fake_lag_msec l < 1000"

lemma sdiv_pos: "0 \<le> (k :: int) \<Longrightarrow> 0 < n \<Longrightarrow> k sdiv n = k div n"
  by (cases "k = 0") (simp_all add: signed_divide_int_def)

lemma smod_pos: "0 \<le> (k :: int) \<Longrightarrow> 0 < n \<Longrightarrow> k smod n = k mod n"
  by (cases "k = 0") (simp_all add: signed_modulo_int_def)

lemma lag_of_add: "lag_of (add_lag msec l) = lag_of l + msec"
  using mult_sdiv_smod_eq [of 1000 "fake_lag_msec l + msec"] by (simp add: add_lag_def Let_def lag_of_def algebra_simps)

lemma lag_ok_add: "lag_ok l \<Longrightarrow> 0 \<le> msec \<Longrightarrow> lag_ok (add_lag msec l)"
  by (simp add: add_lag_def Let_def lag_ok_def smod_pos)

lemma lag_div: "lag_ok l \<Longrightarrow> lag_of l div 1000 = fake_lag l \<and> lag_of l mod 1000 = fake_lag_msec l"
  by (simp add: lag_ok_def lag_of_def)

lemma lag_unique: "lag_ok l \<Longrightarrow> lag_ok l' \<Longrightarrow> lag_of l = lag_of l' \<Longrightarrow> fake_lag l = fake_lag l' \<and> fake_lag_msec l = fake_lag_msec l'"
  using lag_div [of l] lag_div [of l'] by simp

definition sub_lag :: "int \<Rightarrow> plocal \<Rightarrow> plocal" where
  "sub_lag msec l =
     (let rest = fake_lag_msec l - msec in
      if rest \<ge> 0 then l\<lparr>fake_lag_msec := rest\<rparr>
      else let secs = (- rest + 999) sdiv 1000
           in l\<lparr>fake_lag := fake_lag l - secs, fake_lag_msec := rest + secs * 1000\<rparr>)"

lemma subtract_fake_lag_eq:
  "subtract_fake_lag a msec st = (if \<not> MyConnect (clients st a) then st else upd_local a (sub_lag msec) st)"
  by (simp add: subtract_fake_lag_def sub_lag_def [abs_def])

lemma lag_of_sub: "lag_of (sub_lag msec l) = lag_of l - msec"
  by (simp add: sub_lag_def Let_def lag_of_def)

lemma lag_ok_sub: "lag_ok l \<Longrightarrow> 0 \<le> msec \<Longrightarrow> lag_ok (sub_lag msec l)"
proof (cases "fake_lag_msec l - msec \<ge> 0")
  case False
  then have "(- (fake_lag_msec l - msec) + 999) sdiv 1000 = (- (fake_lag_msec l - msec) + 999) div 1000"
    by (intro sdiv_pos) auto
  with False show ?thesis
    unfolding sub_lag_def Let_def lag_ok_def by simp linarith
qed (auto simp: sub_lag_def Let_def lag_ok_def)

lemma lag_frame: "add_lag m l = l\<lparr>fake_lag := fake_lag (add_lag m l), fake_lag_msec := fake_lag_msec (add_lag m l)\<rparr>"
    "sub_lag m l = l\<lparr>fake_lag := fake_lag (sub_lag m l), fake_lag_msec := fake_lag_msec (sub_lag m l)\<rparr>"
  by (simp_all add: add_lag_def sub_lag_def Let_def)

lemma sub_add_lag: "lag_ok l \<Longrightarrow> 0 \<le> m \<Longrightarrow> sub_lag m (add_lag m l) = l"
proof -
  assume l: "lag_ok l" "0 \<le> m"
  define k where "k = sub_lag m (add_lag m l)"
  have "fake_lag k = fake_lag l" "fake_lag_msec k = fake_lag_msec l"
    using lag_unique [of k l] l by (simp_all add: k_def lag_ok_sub lag_ok_add lag_of_sub lag_of_add)
  moreover have "k = l\<lparr>fake_lag := fake_lag k, fake_lag_msec := fake_lag_msec k\<rparr>"
    unfolding k_def by (subst lag_frame(2), subst lag_frame(1)) simp
  ultimately show ?thesis
    unfolding k_def [symmetric] by simp
qed

section \<open>What a line does to the queue\<close>

text \<open>
  The server's own code leaves the queue alone; other modules may shorten it (\<^verbatim>\<open>STARTTLS\<close>
  empties it, as does the removal of a client) but nobody adds to it.
\<close>

definition good :: "addr \<Rightarrow> pstate \<Rightarrow> bool" where
  "good a st \<longleftrightarrow> dbuf_inv (queue a st) \<and> cmd_reach (commands st)"

definition shortens :: "addr \<Rightarrow> pstate \<Rightarrow> pstate \<Rightarrow> bool" where
  "shortens a st st' \<longleftrightarrow>
     (good a st \<longrightarrow> good a st' \<and> length (dbuf_bytes (queue a st')) \<le> length (dbuf_bytes (queue a st)))"

definition calm :: "penv \<Rightarrow> addr \<Rightarrow> bool" where
  "calm env a \<longleftrightarrow>
     (\<forall>st. (\<forall>d. shortens a st (run_command env d st)) \<and> (\<forall>f m ch. shortens a st (post_command env f m ch st))
        \<and> shortens a st (run_deferred_rule_only_spamfilters env a st) \<and> (\<forall>b r. shortens a st (exit_client env b r st))
        \<and> shortens a st (take_action env a st))"

definition same_queue :: "addr \<Rightarrow> pstate \<Rightarrow> pstate \<Rightarrow> bool" where
  "same_queue a st st' \<longleftrightarrow> queue a st' = queue a st \<and> (cmd_reach (commands st) \<longrightarrow> cmd_reach (commands st'))"

lemma same_queue_shortens: "same_queue a st st' \<Longrightarrow> shortens a st st'"
  by (auto simp: same_queue_def shortens_def good_def)

lemma shortens_refl: "shortens a st st"
  by (simp add: shortens_def)

lemma shortens_trans: "shortens a st st' \<Longrightarrow> shortens a st' st'' \<Longrightarrow> shortens a st st''"
  by (auto simp: shortens_def)

lemma same_queue_refl: "same_queue a st st"
  by (simp add: same_queue_def)

lemma same_queue_trans: "same_queue a st st' \<Longrightarrow> same_queue a st' st'' \<Longrightarrow> same_queue a st st''"
  by (auto simp: same_queue_def)

lemma same_queue_upd_local: "(\<And>l. recvQ (f l) = recvQ l) \<Longrightarrow> same_queue a st (upd_local b f st)"
  by (simp add: same_queue_def queue_def upd_local_def upd_def)

lemma same_queue_fields [simp]:
  "same_queue a st (st\<lparr>is_unpf := u\<rparr>)" "same_queue a st (st\<lparr>is_wrdi := u\<rparr>)" "same_queue a st (st\<lparr>is_unco := u\<rparr>)"
  "same_queue a st (st\<lparr>is_num := u\<rparr>)" "same_queue a st (emit e st)"
  "same_queue a st (st\<lparr>me_bytes_received := i, me_messages_received := j\<rparr>)"
  by (simp_all add: same_queue_def queue_def emit_def)

lemma same_queue_bytes: "same_queue a st (st\<lparr>commands := set_command b i (\<lambda>c. c\<lparr>rc_bytes := rc_bytes c + n\<rparr>) (commands st)\<rparr>)"
  using cmd_reach.used [where h = "commands st" and b = b and ident = i and k = 0 and n = n] by (simp add: same_queue_def queue_def)

lemma same_queue_count: "same_queue a st (st\<lparr>commands := set_command b i (\<lambda>c. c\<lparr>rc_count := rc_count c + k\<rparr>) (commands st)\<rparr>)"
  using cmd_reach.used [where h = "commands st" and b = b and ident = i and k = k and n = 0] by (simp add: same_queue_def queue_def)

lemma recvQ_add_lag [simp]: "recvQ (add_lag m l) = recvQ l"
  by (simp add: add_lag_def Let_def)

lemma same_queue_addlag: "same_queue a st (snd (parse_addlag env b n m st))"
  by (auto simp: parse_addlag_def Let_def same_queue_refl same_queue_upd_local split: prod.split)

lemma same_queue_unknown: "same_queue a st (unknown_command cptr src ch st)"
  using same_queue_trans [OF same_queue_fields(5) same_queue_fields(3), of a st]
  by (simp add: unknown_command_def same_queue_refl)

lemma same_queue_deny: "deny_command fl c cptr st = Some st' \<Longrightarrow> same_queue a st st'"
  by (auto simp: deny_command_def same_queue_refl split: if_splits)

lemma same_queue_resolve: "resolve_command env cptr src tok b m st = (st', r) \<Longrightarrow> same_queue a st st'"
proof -
  define flags where "flags = caller_flags (clients st src)"
  define cm where "cm = find_command (commands st) tok flags"
  define st1 where "st1 = snd (if (case cm of None \<Rightarrow> True | Some c \<Rightarrow> \<not> has (rc_flags c) CMD_NOLAG)
             then parse_addlag env cptr b m st else (0, st))"
  have st1: "same_queue a st st1"
    using same_queue_addlag [of a st] same_queue_refl [of a st] by (auto simp: st1_def)
  assume "resolve_command env cptr src tok b m st = (st', r)"
  then have "same_queue a st1 st'"
    unfolding resolve_command_def Let_def flags_def [symmetric] cm_def [symmetric]
    by (cases cm) (auto simp: st1_def same_queue_unknown same_queue_bytes split: option.splits prod.splits dest: same_queue_deny [where a = a])
  with st1 show ?thesis
    by (rule same_queue_trans)
qed

lemma same_queue_make_call: "make_call cptr src mtags c lag ps st = (st', d) \<Longrightarrow> same_queue a st st'"
proof -
  define st1 where "st1 = st\<lparr>commands := set_command (cmd_bucket (cmd c)) (rc_id c) (\<lambda>c. c\<lparr>rc_count := rc_count c + 1\<rparr>) (commands st)\<rparr>"
  have "same_queue a st st1"
    unfolding st1_def by (rule same_queue_count)
  moreover have "same_queue a st1 (upd_local cptr (\<lambda>l. l\<lparr>idle_since := TStime st1\<rparr>) st1)"
    by (rule same_queue_upd_local) simp
  ultimately show ?thesis if "make_call cptr src mtags c lag ps st = (st', d)"
    using that unfolding make_call_def Let_def st1_def [symmetric] by (auto intro: same_queue_trans split: if_split_asm)
qed

lemma same_queue_finish: "finish_command env cptr src mtags b cm s st = Inr (st', f, act) \<Longrightarrow> same_queue a st st'"
  unfolding finish_command_def Let_def
  by (cases cm) (auto simp: same_queue_refl split: if_split_asm prod.splits dest: same_queue_make_call [where a = a])

lemma same_queue_remove_unknown: "same_queue a st (remove_unknown cptr sender st)"
  by (simp add: remove_unknown_def Let_def same_queue_refl)

lemma sender_Inl:
  assumes "calm env a" "parse_sender env cptr ch st = Inl st'"
  shows "shortens a st st'"
proof -
  have 1: "shortens a st (remove_unknown cptr s (st\<lparr>is_unpf := u\<rparr>))" for s u
    by (rule same_queue_shortens [OF same_queue_trans [OF same_queue_fields(1) same_queue_remove_unknown]])
  have "shortens a st1 (cancel_clients env cptr src st1)" for src st1
    using assms(1) by (simp add: cancel_clients_def calm_def shortens_refl)
  then have 2: "shortens a st (cancel_clients env cptr src (st\<lparr>is_wrdi := u\<rparr>))" for src u
    using shortens_trans [OF same_queue_shortens [OF same_queue_fields(2)]] by blast
  show ?thesis
    using assms(2) 1 2 by (auto simp: parse_sender_def Let_def split: if_split_asm option.splits)
qed

lemma shortens_prepare:
  assumes "calm env a" "parse2_prepare env cptr mtags n line st = Inr (st', f, act)"
  shows "shortens a st st'"
proof -
  define line' where "line' = (if \<not> IsServer (clients st cptr) \<and> length line > 510 then take 510 line else line)"
  show ?thesis
  proof (cases "parse_sender env cptr line' st")
    case (Inl st1)
    then show ?thesis
      using assms sender_Inl [OF assms(1) Inl] unfolding parse2_prepare_def Let_def line'_def [symmetric] by simp
  next
    case (Inr r)
    have lag1: "same_queue a st (upd_local cptr (\<lambda>l. l\<lparr>fake_lag := fake_lag l + 1\<rparr>) st)"
      by (rule same_queue_upd_local) simp
    have unco: "same_queue a st ((emit e st)\<lparr>is_unco := u\<rparr>)" for e u
      by (rule same_queue_trans [OF same_queue_fields(5) same_queue_fields(3)])
    have num: "same_queue a st (snd (parse_addlag env cptr b n (st\<lparr>is_num := u\<rparr>)))" for b u
      by (rule same_queue_trans [OF same_queue_fields(4) same_queue_addlag])
    have "same_queue a st st'"
      using assms(2) Inr unfolding parse2_prepare_def Let_def line'_def [symmetric]
      by (auto simp: lag1 unco same_queue_refl intro: same_queue_trans [OF num same_queue_finish]
          same_queue_trans [OF same_queue_resolve same_queue_finish] dest: same_queue_resolve [where a = a]
          split: if_split_asm prod.splits option.splits)
    then show ?thesis
      by (rule same_queue_shortens)
  qed
qed

lemma same_queue_numeric_to: "same_queue a st (numeric_to client n buffer nick st)"
  by (auto simp: numeric_to_def Let_def same_queue_refl split: option.splits list.splits)

lemma same_queue_do_numeric: "same_queue a st (do_numeric env n client ps st)"
proof -
  have "same_queue a st (fold (numeric_to client m buffer) nicks st)" for m buffer nicks st
    by (induction nicks arbitrary: st) (auto simp: same_queue_refl intro: same_queue_trans [OF same_queue_numeric_to])
  moreover have "same_queue a st (emit e (emit e' st))" for e e'
    by (rule same_queue_trans [OF same_queue_fields(5) same_queue_fields(5)])
  ultimately show ?thesis
    unfolding do_numeric_def Let_def by (auto simp: same_queue_refl)
qed

lemma shortens_perform: "calm env a \<Longrightarrow> shortens a st (perform env act st)"
  by (cases act) (auto simp: perform_def shortens_refl calm_def same_queue_shortens [OF same_queue_do_numeric])

lemma same_queue_tags: "parse_tags env cptr ch st = (st', r) \<Longrightarrow> same_queue a st st'"
  by (auto simp: parse_tags_def Let_def same_queue_refl split: if_split_asm prod.splits)

lemma parse2_shortens:
  assumes "calm env a" "good a st"
  shows "\<exists>st' f. parse2 env cptr mtags n ch st = Inr (st', f) \<and> shortens a st st'"
proof -
  obtain st1 f act where p: "parse2_prepare env cptr mtags n ch st = Inr (st1, f, act)"
    using prepare_no_fault assms(2) unfolding good_def by (metis surj_pair)
  then show ?thesis
    using shortens_trans [OF shortens_prepare [OF assms(1) p] shortens_perform [OF assms(1)]] by (simp add: parse2_def)
qed

lemma parse_shortens:
  assumes "calm env a" "good a st"
  shows "\<exists>st'. parse env a buffer st = Inr st' \<and> shortens a st st'"
proof (cases "packet_hooks env a buffer")
  case None
  then show ?thesis by (simp add: parse_def shortens_refl)
next
  case (Some buf)
  define ch where "ch = dropWhile (\<lambda>c. c = CHR '' '') (takeWhile (\<lambda>c. c \<noteq> NUL) buf)"
  have ban: "shortens a st (ban_handshake_data_flooder env a st)"
    using assms(1) by (simp add: ban_handshake_data_flooder_def calm_def)
  obtain st1 mtags mb ch1 where t: "parse_tags env a ch st = (st1, mtags, mb, ch1)"
    by (metis surj_pair)
  note s1 = same_queue_shortens [OF same_queue_tags [OF t, of a]]
  then have "good a st1"
    using assms(2) by (simp add: shortens_def)
  from parse2_shortens [OF assms(1) this] obtain st2 f where p: "parse2 env a mtags mb ch1 st1 = Inr (st2, f)" "shortens a st1 st2"
    by blast
  have "shortens a st2 (post_command env x mtags y st2)" for x y
    using assms(1) by (simp add: calm_def)
  then have "shortens a st (post_command env x mtags y st2)" for x y
    using shortens_trans [OF shortens_trans [OF s1 p(2)]] by blast
  then show ?thesis
    using Some ban unfolding parse_def by (simp add: Let_def ch_def [symmetric] t p shortens_refl)
qed

lemma dopacket_shortens:
  assumes "calm env a" "good a st"
  shows "\<exists>st'. dopacket env a buffer n st = Inr st' \<and> shortens a st st'"
proof -
  define st1 where "st1 = upd_local a
      (\<lambda>l. l\<lparr>bytes_received := bytes_received l + int n, messages_received := messages_received l + 1\<rparr>)
      (st\<lparr>me_bytes_received := me_bytes_received st + int n, me_messages_received := me_messages_received st + 1\<rparr>)"
  have s1: "shortens a st st1"
    unfolding st1_def by (rule same_queue_shortens [OF same_queue_trans [OF same_queue_fields(6) same_queue_upd_local]]) simp
  then have "good a st1"
    using assms(2) by (simp add: shortens_def)
  from parse_shortens [OF assms(1) this] show ?thesis
    using shortens_trans [OF s1] unfolding dopacket_def st1_def [symmetric] by blast
qed

section \<open>The loop\<close>

lemma queue_set [simp]: "queue a (set_queue a q st) = q"
  by (simp add: queue_def set_queue_def upd_local_def upd_def)

lemma set_queue_frame [simp]: "commands (set_queue a q st) = commands st" "TStime (set_queue a q st) = TStime st"
  by (simp_all add: set_queue_def upd_local_def upd_def)

lemma after_command_shortens: "calm env a \<Longrightarrow> shortens a st (after_command env a st)"
  by (simp add: after_command_def Let_def shortens_refl calm_def)

lemma next_line_body: "fst (next_line s) = 0 \<Longrightarrow> next_line s = (n, line, rest) \<Longrightarrow> fst (next_line rest) = 0"
proof -
  assume "fst (next_line s) = 0" "next_line s = (n, line, rest)"
  have ne: "body_line s \<noteq> []" if "body_rest s \<noteq> []"
  proof (cases "body s")
    case Nil
    then show ?thesis using that by (simp add: body_rest_def)
  next
    case (Cons c cs)
    then have "\<not> eol c" using body_Cons [OF Cons] by (simp add: blank_def)
    then show ?thesis using Cons by (simp add: body_line_def)
  qed
  then have "body_rest s = []" "rest = body s"
    using \<open>fst (next_line s) = 0\<close> \<open>next_line s = _\<close> by (auto simp: next_line_def READBUFSIZE_def min_def split: if_splits)
  moreover have "body (body s) = body s"
    unfolding body_def by (cases "dropWhile blank s") (auto dest: dropWhile_Cons_D)
  ultimately show ?thesis
    by (simp add: next_line_def body_rest_def)
qed

text \<open>Where one pass leaves the client.\<close>

lemma queue_pass_cases:
  assumes "calm env a" "good a st"
  obtains (no_line) q where "queue_pass env a st = Inr (set_queue a q st, False)" "fst (next_line (dbuf_bytes q)) = 0" "good a (set_queue a q st)"
  | (line) st' where "queue_pass env a st = Inr (st', \<not> IsDead (clients st' a))" "good a st'"
      "length (dbuf_bytes (queue a st')) < length (dbuf_bytes (queue a st))"
proof -
  obtain n line q where g: "dbuf_getmsg (queue a st) = Inr (n, line, q)" "dbuf_inv q"
    "next_line (dbuf_bytes (queue a st)) = (n, line, dbuf_bytes q)"
    using db.getmsg_law assms(2) unfolding good_def by blast
  have good: "good a (set_queue a q st)"
    using assms(2) g(2) by (simp add: good_def)
  show thesis
  proof (cases "n = 0")
    case True
    then show thesis
      using g good next_line_body [OF _ g(3)] by (intro no_line [of q]) (simp_all add: queue_pass_def)
  next
    case False
    obtain st1 where d: "dopacket env a line n (set_queue a q st) = Inr st1" "shortens a (set_queue a q st) st1"
      using dopacket_shortens [OF assms(1) good] by blast
    have "shortens a (set_queue a q st) (after_command env a st1)"
      by (rule shortens_trans [OF d(2) after_command_shortens [OF assms(1)]])
    then have "good a (after_command env a st1)"
      "length (dbuf_bytes (queue a (after_command env a st1))) \<le> length (dbuf_bytes q)"
      using good by (simp_all add: shortens_def)
    moreover have "length (dbuf_bytes q) < length (dbuf_bytes (queue a st))"
      using next_line_progress(2) [OF g(3)] False by simp
    ultimately show thesis
      using g d False by (intro line [of "after_command env a st1"]) (simp_all add: queue_pass_def Let_def)
  qed
qed

lemma queue_empty: "dbuf_inv q \<Longrightarrow> dbuf_length q = 0 \<longleftrightarrow> dbuf_bytes q = []"
proof -
  assume "dbuf_inv q"
  then have "unat (dbuf_length q) = length (dbuf_bytes q)"
    by (simp add: dbuf_inv_def unat_of_nat_32)
  then show ?thesis
    by (metis length_0_conv unat_eq_zero)
qed

text \<open>Nothing more to do for a client.\<close>

definition settled :: "penv \<Rightarrow> addr \<Rightarrow> pstate \<Rightarrow> bool" where
  "settled env a st \<longleftrightarrow>
     IsDead (clients st a) \<or> client_lagged_up env a st \<or> fst (next_line (dbuf_bytes (queue a st))) = 0"

lemma next_line_Nil: "fst (next_line []) = 0"
  by (simp add: next_line_def body_rest_def body_def)

lemma parse_queue_returns:
  "calm env a \<Longrightarrow> good a st \<Longrightarrow> \<exists>st'. parse_queue env a st = Some (Inr st') \<and> good a st' \<and> settled env a st'"
proof (induction "length (dbuf_bytes (queue a st))" arbitrary: st rule: less_induct)
  case less
  show ?case
  proof (cases "dbuf_length (queue a st) \<noteq> 0 \<and> \<not> client_lagged_up env a st")
    case False
    moreover have "settled env a st"
      using False less.prems(2) queue_empty next_line_Nil by (auto simp: settled_def good_def)
    moreover have "parse_queue env a st = Some (Inr st)"
      using False by (subst parse_queue.simps) auto
    ultimately show ?thesis
      using less.prems(2) by blast
  next
    case True
    show ?thesis
    proof (rule queue_pass_cases [OF less.prems])
      fix q assume "queue_pass env a st = Inr (set_queue a q st, False)" "fst (next_line (dbuf_bytes q)) = 0" "good a (set_queue a q st)"
      moreover from this have "parse_queue env a st = Some (Inr (set_queue a q st))"
        using True by (subst parse_queue.simps) simp
      ultimately show ?thesis by (auto simp: settled_def)
    next
      fix st1 assume p: "queue_pass env a st = Inr (st1, \<not> IsDead (clients st1 a))" "good a st1"
        "length (dbuf_bytes (queue a st1)) < length (dbuf_bytes (queue a st))"
      show ?thesis
      proof (cases "IsDead (clients st1 a)")
        case dead: True
        then have "parse_queue env a st = Some (Inr st1)"
          using True p by (subst parse_queue.simps) simp
        then show ?thesis
          using dead p by (auto simp: settled_def)
      next
        case False
        then have "parse_queue env a st = parse_queue env a st1"
          using True p by (subst parse_queue.simps) simp
        then show ?thesis
          using less.hyps [OF p(3) less.prems(1) p(2)] by simp
      qed
    qed
  qed
qed

section \<open>The rate of commands\<close>

text \<open>A registered user that pays at least \<open>pen\<close> milliseconds per command.\<close>

definition penalized :: "penv \<Rightarrow> addr \<Rightarrow> int \<Rightarrow> pstate \<Rightarrow> bool" where
  "penalized env a pen st \<longleftrightarrow>
     (let c = clients st a in
      IsUser c \<and> \<not> IsNoFakeLag c \<and> \<not> IsDeadSocket c \<and> \<not> immune_lag env c \<and> lag_ok (lc c)
      \<and> (case lag_settings env c of (p, b) \<Rightarrow> pen \<le> p \<and> 0 < b)
      \<and> (\<forall>cm \<in> registered (commands st). \<not> has (rc_flags cm) CMD_NOLAG))"

text \<open>From one state to another the user pays at least \<open>k\<close>, and stays penalized.\<close>

definition pays :: "penv \<Rightarrow> addr \<Rightarrow> int \<Rightarrow> int \<Rightarrow> pstate \<Rightarrow> pstate \<Rightarrow> bool" where
  "pays env a pen k st st' \<longleftrightarrow>
     (penalized env a pen st \<longrightarrow>
        penalized env a pen st' \<and> TStime st' = TStime st
        \<and> messages_received (lc (clients st' a)) = messages_received (lc (clients st a))
        \<and> lag_of (lc (clients st a)) + k \<le> lag_of (lc (clients st' a)))"

text \<open>
  What is assumed of other modules: their functions neither lower the lag of the user nor exempt
  it, no hook swallows its lines, and permissions and flood settings do not depend on the lag itself.
\<close>

definition lag_calm :: "penv \<Rightarrow> addr \<Rightarrow> int \<Rightarrow> bool" where
  "lag_calm env a pen \<longleftrightarrow>
     (\<forall>st. (\<forall>d. pays env a pen 0 st (run_command env d st)) \<and> (\<forall>f m ch. pays env a pen 0 st (post_command env f m ch st))
        \<and> pays env a pen 0 st (run_deferred_rule_only_spamfilters env a st))
     \<and> (\<forall>b. packet_hooks env a b \<noteq> None) \<and> (\<forall>m ch. \<not> pre_command env a m ch)
     \<and> (\<forall>c l. immune_lag env (c\<lparr>lc := l\<rparr>) = immune_lag env c \<and> lag_settings env (c\<lparr>lc := l\<rparr>) = lag_settings env c)"

lemma pays_refl: "pays env a pen 0 st st"
  by (simp add: pays_def)

lemma pays_trans: "pays env a pen j st st' \<Longrightarrow> pays env a pen k st' st'' \<Longrightarrow> pays env a pen (j + k) st st''"
  by (auto simp: pays_def)

lemma pays_0: "pays env a pen j st st' \<Longrightarrow> pays env a pen 0 st' st'' \<Longrightarrow> pays env a pen j st st''"
  using pays_trans [of env a pen j st st' 0 st''] by simp

lemma pays_after_0: "pays env a pen 0 st st' \<Longrightarrow> pays env a pen j st' st'' \<Longrightarrow> pays env a pen j st st''"
  using pays_trans [of env a pen 0 st st' j st''] by simp

lemma pays_local:
  assumes "lag_calm env a pen" "\<And>l. lag_ok l \<Longrightarrow> lag_ok (f l)" "\<And>l. messages_received (f l) = messages_received l" "\<And>l. lag_of l + k \<le> lag_of (f l)"
  shows "pays env a pen k st (upd_local a f st)"
  unfolding pays_def
proof
  define c where "c = clients st a"
  have blind: "immune_lag env (c\<lparr>lc := l\<rparr>) = immune_lag env c" "lag_settings env (c\<lparr>lc := l\<rparr>) = lag_settings env c" for l
    using assms(1) by (simp_all add: lag_calm_def)
  have new: "clients (upd_local a f st) a = c\<lparr>lc := f (lc c)\<rparr>" "commands (upd_local a f st) = commands st"
    "TStime (upd_local a f st) = TStime st"
    by (simp_all add: c_def upd_local_def upd_def)
  assume pen: "penalized env a pen st"
  then have "penalized env a pen (upd_local a f st)"
    unfolding penalized_def new Let_def blind c_def [symmetric] using assms(2) by (simp add: IsUser_def)
  then show "penalized env a pen (upd_local a f st) \<and> TStime (upd_local a f st) = TStime st
        \<and> messages_received (lc (clients (upd_local a f st) a)) = messages_received (lc (clients st a))
        \<and> lag_of (lc (clients st a)) + k \<le> lag_of (lc (clients (upd_local a f st) a))"
    unfolding new c_def [symmetric] using assms(3,4) by simp
qed

lemma pays_fields [simp]:
  "pays env a pen 0 st (st\<lparr>is_unco := u\<rparr>)" "pays env a pen 0 st (st\<lparr>is_num := u\<rparr>)" "pays env a pen 0 st (emit e st)"
  by (simp_all add: pays_def penalized_def emit_def Let_def)

lemma registered_set: "(\<And>c. rc_flags (f c) = rc_flags c) \<Longrightarrow> cm \<in> registered (set_command b i f h) \<Longrightarrow> \<exists>c \<in> registered h. rc_flags cm = rc_flags c"
  by (auto simp: registered_def set_command_def split: if_splits)

lemma pays_set_command:
  assumes "\<And>c. rc_flags (f c) = rc_flags c"
  shows "pays env a pen 0 st (st\<lparr>commands := set_command b i f (commands st)\<rparr>)"
proof -
  have "\<not> has (rc_flags cm) CMD_NOLAG" if "cm \<in> registered (set_command b i f (commands st))"
    "\<forall>cm \<in> registered (commands st). \<not> has (rc_flags cm) CMD_NOLAG" for cm
    using registered_set [OF assms that(1)] that(2) by auto
  then show ?thesis
    by (auto simp: pays_def penalized_def Let_def)
qed

lemma messages_add_lag [simp]: "messages_received (add_lag m l) = messages_received l"
  by (simp add: add_lag_def Let_def)

lemma find_command_registered: "find_command h name flags = Some c \<Longrightarrow> c \<in> registered h"
  by (auto simp: find_command_def registered_def find_Some_iff in_set_conv_nth)

lemma pays_addlag:
  assumes "lag_calm env a pen" "0 \<le> pen" "penalized env a pen st"
  shows "pays env a pen pen st (snd (parse_addlag env a n m st))"
proof -
  obtain p b where pb: "lag_settings env (clients st a) = (p, b)" "pen \<le> p" "0 < b"
    using assms(3) by (auto simp: penalized_def Let_def)
  define msec where "msec = (1 + int n sdiv b + int m sdiv b) * p"
  have "0 \<le> int n div b" "0 \<le> int m div b"
    using pb(3) by (simp_all add: pos_imp_zdiv_nonneg_iff)
  then have "1 * p \<le> msec"
    unfolding msec_def using assms(2) pb by (intro mult_right_mono) (simp_all add: sdiv_pos)
  then have "pays env a pen pen st (upd_local a (add_lag msec) st)"
    using assms(1,2) pb(2) by (intro pays_local) (simp_all add: lag_ok_add lag_of_add)
  moreover have "snd (parse_addlag env a n m st) = upd_local a (add_lag msec) st"
    using assms(3) pb(1) by (auto simp: parse_addlag_def Let_def penalized_def msec_def client_kind_defs)
  ultimately show ?thesis by simp
qed

lemma pays_unknown: "pays env a pen 0 st (unknown_command cptr src ch st)"
  using pays_0 [OF pays_fields(3) pays_fields(1), of env a pen st] by (simp add: unknown_command_def pays_refl)

lemma pays_deny: "deny_command fl c cptr st = Some st' \<Longrightarrow> pays env a pen 0 st st'"
  by (auto simp: deny_command_def pays_refl split: if_split_asm)

lemma pays_resolve:
  assumes "lag_calm env a pen" "0 \<le> pen" "penalized env a pen st" "resolve_command env a src tok b m st = (st', r)"
  shows "pays env a pen pen st st'"
proof -
  define flags where "flags = caller_flags (clients st src)"
  define cm where "cm = find_command (commands st) tok flags"
  define st1 where "st1 = snd (parse_addlag env a b m st)"
  have nolag: "\<not> has (rc_flags c) CMD_NOLAG" if "cm = Some c" for c
    using that assms(3) find_command_registered [of "commands st" tok flags c] by (simp add: cm_def penalized_def Let_def)
  have "pays env a pen 0 st1 st'"
    using assms(4) nolag unfolding resolve_command_def Let_def flags_def [symmetric] cm_def [symmetric]
    by (cases cm) (auto simp: st1_def pays_unknown pays_set_command split: option.splits prod.splits
        dest: pays_deny [where env = env and a = a and pen = pen])
  then show ?thesis
    using pays_0 [OF pays_addlag [OF assms(1-3)]] unfolding st1_def by blast
qed

lemma pays_make_call:
  assumes "lag_calm env a pen" "make_call a src mtags c lag ps st = (st', d)"
  shows "pays env a pen 0 st st'"
proof -
  define st1 where "st1 = st\<lparr>commands := set_command (cmd_bucket (cmd c)) (rc_id c) (\<lambda>c. c\<lparr>rc_count := rc_count c + 1\<rparr>) (commands st)\<rparr>"
  have "pays env a pen 0 st st1"
    unfolding st1_def by (rule pays_set_command) simp
  moreover have "pays env a pen 0 st1 (upd_local a (\<lambda>l. l\<lparr>idle_since := TStime st1\<rparr>) st1)"
    using assms(1) by (rule pays_local) (simp_all add: lag_ok_def lag_of_def)
  ultimately show ?thesis
    using assms(2) unfolding make_call_def Let_def st1_def [symmetric] by (auto intro: pays_0 split: if_split_asm)
qed

lemma pays_finish: "lag_calm env a pen \<Longrightarrow> finish_command env a src mtags b cm s st = Inr (st', f, act) \<Longrightarrow> pays env a pen 0 st st'"
  unfolding finish_command_def Let_def
  by (cases cm) (auto simp: pays_refl split: if_split_asm prod.splits dest: pays_make_call)

lemma parse_sender_user:
  assumes "IsUser (clients st a)"
  shows "\<exists>ch'. parse_sender env a ch st = Inr (a, ch') \<and> length ch' \<le> length ch"
proof -
  have le: "length (dropWhile (\<lambda>c. c = CHR '' '') (dropWhile (\<lambda>c. c \<noteq> CHR '' '') (tl ch))) \<le> length ch"
    using length_dropWhile_le [of "\<lambda>c. c = CHR '' ''" "dropWhile (\<lambda>c. c \<noteq> CHR '' '') (tl ch)"]
      length_dropWhile_le [of "\<lambda>c. c \<noteq> CHR '' ''" "tl ch"] by simp
  have "\<not> IsServer (clients st a)"
    using assms by (simp add: client_kind_defs)
  then show ?thesis
    using le by (simp add: parse_sender_def Let_def)
qed

lemma finish_from: "finish_command env cptr src mtags b cm s st = Inr (st', f, act) \<Longrightarrow> f = src"
  unfolding finish_command_def Let_def by (cases cm) (auto split: if_split_asm prod.splits)

lemma pays_prepare:
  assumes "lag_calm env a pen" "0 \<le> pen" "pen \<le> 1000" "penalized env a pen st"
    and "parse2_prepare env a mtags n line st = Inr (st', f, act)"
  shows "pays env a pen pen st st'"
proof -
  have user: "IsUser (clients st a)" "\<not> IsServer (clients st a)"
    using assms(4) by (simp_all add: penalized_def Let_def client_kind_defs)
  define line' where "line' = (if \<not> IsServer (clients st a) \<and> length line > 510 then take 510 line else line)"
  obtain ch where ch: "parse_sender env a line' st = Inr (a, ch)" "length ch \<le> 510"
    using parse_sender_user [OF user(1), of env line'] user(2) by (auto simp: line'_def split: if_splits)
  then have short: "\<not> 512 < length (takeWhile (\<lambda>c. c \<noteq> CHR '' '') ch)"
    using length_takeWhile_le [of "\<lambda>c. c \<noteq> CHR '' ''" ch] by linarith
  have empty: "pays env a pen pen st (upd_local a (\<lambda>l. l\<lparr>fake_lag := fake_lag l + 1\<rparr>) st)"
    using assms(1) by (rule pays_local) (use assms(3) in \<open>simp_all add: lag_ok_def lag_of_def\<close>)
  have num: "pays env a pen pen st (snd (parse_addlag env a b n (st\<lparr>is_num := u\<rparr>)))" for b u
  proof (rule pays_after_0 [OF pays_fields(2) pays_addlag [OF assms(1,2)]])
    show "penalized env a pen (st\<lparr>is_num := u\<rparr>)"
      using assms(4) pays_fields(2) [of env a pen st u] by (simp add: pays_def)
  qed
  have stop: "\<not> pre_command env a mtags ch"
    using assms(1) by (simp add: lag_calm_def)
  have "f = a"
    using assms(5) user(2) short stop unfolding parse2_prepare_def Let_def line'_def [symmetric] ch(1)
    by (auto split: if_split_asm prod.splits option.splits dest: finish_from)
  then have "parse2_prepare env a mtags n line st = Inr (st', a, act)"
    using assms(5) by simp
  then show ?thesis
    using user(2) short stop unfolding parse2_prepare_def Let_def line'_def [symmetric] ch(1)
    by (auto simp: empty split: if_split_asm prod.splits option.splits
        intro: pays_0 [OF num pays_finish [OF assms(1)]] pays_0 [OF pays_resolve [OF assms(1,2,4)] pays_finish [OF assms(1)]]
          pays_resolve [OF assms(1,2,4)])
qed

lemma pays_do_numeric: "pays env a pen 0 st (do_numeric env' n client ps st)"
proof -
  have one: "pays env a pen 0 st (numeric_to client m buffer nick st)" for m buffer nick st
    by (auto simp: numeric_to_def Let_def pays_refl split: option.splits list.splits)
  have "pays env a pen 0 st (fold (numeric_to client m buffer) nicks st)" for m buffer nicks st
    by (induction nicks arbitrary: st) (auto simp: pays_refl intro: pays_0 [OF one])
  moreover have "pays env a pen 0 st (emit e (emit e' st))" for e e'
    by (rule pays_0 [OF pays_fields(3) pays_fields(3)])
  ultimately show ?thesis
    unfolding do_numeric_def Let_def by (auto simp: pays_refl)
qed

lemma pays_perform: "lag_calm env a pen \<Longrightarrow> pays env a pen 0 st (perform env act st)"
  by (cases act) (auto simp: perform_def pays_refl lag_calm_def pays_do_numeric)

lemma pays_tags: "parse_tags env cptr ch st = (st', r) \<Longrightarrow> pays env a pen 0 st st'"
  by (auto simp: parse_tags_def Let_def pays_refl split: if_split_asm prod.splits)

lemma pays_parse:
  assumes "lag_calm env a pen" "0 \<le> pen" "pen \<le> 1000" "penalized env a pen st" "parse env a buffer st = Inr st'"
  shows "pays env a pen pen st st'"
proof -
  obtain buf where hook: "packet_hooks env a buffer = Some buf"
    using assms(1) unfolding lag_calm_def by blast
  define ch where "ch = dropWhile (\<lambda>c. c = CHR '' '') (takeWhile (\<lambda>c. c \<noteq> NUL) buf)"
  have user: "\<not> IsDeadSocket (clients st a)" "\<not> IsUnknown (clients st a)"
    using assms(4) by (simp_all add: penalized_def Let_def client_kind_defs)
  obtain st1 mtags mb ch1 where t: "parse_tags env a ch st = (st1, mtags, mb, ch1)"
    by (metis surj_pair)
  have p1: "pays env a pen 0 st st1" "penalized env a pen st1"
    using pays_tags [OF t, of a pen] assms(4) by (simp_all add: pays_def)
  obtain st2 f act x y where p: "parse2_prepare env a mtags mb ch1 st1 = Inr (st2, f, act)"
    "st' = post_command env x mtags y (perform env act st2)"
    using assms(5) user unfolding parse_def hook by (auto simp: Let_def ch_def [symmetric] t parse2_def split: sum.splits)
  have "pays env a pen pen st st2"
    by (rule pays_after_0 [OF p1(1) pays_prepare [OF assms(1-3) p1(2) p(1)]])
  then have "pays env a pen pen st (perform env act st2)"
    using pays_perform [OF assms(1)] by (rule pays_0)
  then show ?thesis
    unfolding p(2) by (rule pays_0) (use assms(1) in \<open>simp add: lag_calm_def\<close>)
qed

abbreviation messages :: "addr \<Rightarrow> pstate \<Rightarrow> int" where
  "messages a st \<equiv> messages_received (lc (clients st a))"

abbreviation lag :: "addr \<Rightarrow> pstate \<Rightarrow> int" where
  "lag a st \<equiv> lag_of (lc (clients st a))"

lemma pass_pays:
  assumes "lag_calm env a pen" "0 \<le> pen" "pen \<le> 1000" "penalized env a pen st" "queue_pass env a st = Inr (st', go_on)"
  shows "(\<exists>q. st' = set_queue a q st \<and> \<not> go_on \<and> penalized env a pen st' \<and> lag a st' = lag a st \<and> messages a st' = messages a st)
    \<or> penalized env a pen st' \<and> TStime st' = TStime st \<and> messages a st' = messages a st + 1 \<and> lag a st + pen \<le> lag a st'"
proof -
  have set: "pays env a pen 0 st (set_queue a q st)" "lag a (set_queue a q st) = lag a st" for q
    unfolding set_queue_def using assms(1)
    by (rule pays_local; simp add: lag_ok_def lag_of_def) (simp add: upd_local_def upd_def lag_of_def)
  obtain n buf q where g: "dbuf_getmsg (queue a st) = Inr (n, buf, q)"
    using assms(5) by (auto simp: queue_pass_def split: sum.splits)
  define st1 where "st1 = upd_local a
      (\<lambda>l. l\<lparr>bytes_received := bytes_received l + int n, messages_received := messages_received l + 1\<rparr>)
      ((set_queue a q st)\<lparr>me_bytes_received := me_bytes_received (set_queue a q st) + int n,
        me_messages_received := me_messages_received (set_queue a q st) + 1\<rparr>)"
  define c where "c = clients (set_queue a q st) a"
  have pen: "penalized env a pen (set_queue a q st)" "messages a (set_queue a q st) = messages a st"
    using set(1) [of q] assms(4) by (simp_all add: pays_def)
  have new: "clients st1 a = c\<lparr>lc := (lc c)\<lparr>bytes_received := bytes_received (lc c) + int n, messages_received := messages_received (lc c) + 1\<rparr>\<rparr>"
    "commands st1 = commands (set_queue a q st)" "TStime st1 = TStime st"
    by (simp_all add: st1_def c_def upd_local_def upd_def)
  have blind: "immune_lag env (c\<lparr>lc := l\<rparr>) = immune_lag env c" "lag_settings env (c\<lparr>lc := l\<rparr>) = lag_settings env c" for l
    using assms(1) by (simp_all add: lag_calm_def)
  have st1: "penalized env a pen st1" "messages a st1 = messages a st + 1" "lag a st1 = lag a st"
    using pen set(2) [of q] unfolding penalized_def new Let_def blind c_def [symmetric]
    by (simp_all add: IsUser_def lag_ok_def lag_of_def)
  show ?thesis
  proof (cases "n = 0")
    case True
    then show ?thesis
      using assms(5) g pen set(2) [of q] by (auto simp: queue_pass_def)
  next
    case False
    obtain st2 where d: "parse env a buf st1 = Inr st2" "st' = after_command env a st2"
      using assms(5) g False by (auto simp: queue_pass_def dopacket_def st1_def [symmetric] Let_def split: sum.splits)
    have "pays env a pen 0 st2 (after_command env a st2)"
      using assms(1) by (simp add: after_command_def Let_def pays_refl lag_calm_def)
    from pays_0 [OF pays_parse [OF assms(1-3) st1(1) d(1)] this] show ?thesis
      using st1 d(2) new(3) by (auto simp: pays_def)
  qed
qed

lemma lagged_user:
  assumes "penalized env a pen st" "\<not> client_lagged_up env a st"
  shows "lag a st < 1000 * (TStime st + 10)"
  using assms by (auto simp: penalized_def Let_def client_lagged_up_def lag_of_def lag_ok_def client_kind_defs split: if_split_asm)

lemma parse_queue_rate:
  assumes "lag_calm env a pen" "0 \<le> pen" "pen \<le> 1000" "calm env a"
  shows "good a st \<Longrightarrow> penalized env a pen st \<Longrightarrow> parse_queue env a st = Some (Inr st') \<Longrightarrow>
     \<exists>k \<ge> 0. messages a st' = messages a st + k \<and> (k = 0 \<or> lag a st + pen * (k - 1) < 1000 * (TStime st + 10))"
proof (induction "length (dbuf_bytes (queue a st))" arbitrary: st rule: less_induct)
  case less
  show ?case
  proof (cases "dbuf_length (queue a st) \<noteq> 0 \<and> \<not> client_lagged_up env a st")
    case False
    then show ?thesis
      using less.prems(3) by (subst (asm) parse_queue.simps) (auto intro: exI [of _ 0])
  next
    case True
    note below = lagged_user [OF less.prems(2)]
    obtain st1 go_on where p: "queue_pass env a st = Inr (st1, go_on)" "go_on \<Longrightarrow> good a st1"
      "go_on \<Longrightarrow> length (dbuf_bytes (queue a st1)) < length (dbuf_bytes (queue a st))"
      using queue_pass_cases [OF assms(4) less.prems(1)] by metis
    have step: "parse_queue env a st = (if go_on then parse_queue env a st1 else Some (Inr st1))"
      using True p by (subst parse_queue.simps) simp
    from pass_pays [OF assms(1-3) less.prems(2) p(1)] show ?thesis
    proof
      assume "\<exists>q. st1 = set_queue a q st \<and> \<not> go_on \<and> penalized env a pen st1 \<and> lag a st1 = lag a st \<and> messages a st1 = messages a st"
      then show ?thesis
        using step less.prems(3) by (auto intro: exI [of _ 0])
    next
      assume st1: "penalized env a pen st1 \<and> TStime st1 = TStime st \<and> messages a st1 = messages a st + 1 \<and> lag a st + pen \<le> lag a st1"
      show ?thesis
      proof (cases go_on)
        case False
        then show ?thesis
          using step less.prems(3) st1 below True by (intro exI [of _ 1]) auto
      next
        case go: True
        then obtain k where k: "0 \<le> k" "messages a st' = messages a st1 + k"
          "k = 0 \<or> lag a st1 + pen * (k - 1) < 1000 * (TStime st1 + 10)"
          using less.hyps [OF p(3) p(2)] less.prems(3) step st1 by auto
        have "lag a st + pen * k < 1000 * (TStime st + 10)"
          using k st1 below True by (cases "k = 0") (auto simp: algebra_simps)
        then show ?thesis
          using k st1 by (intro exI [of _ "k + 1"]) auto
      qed
    qed
  qed
qed

section \<open>A sample\<close>

lemma registered_add_all:
  "cm \<in> registered (add_all cs n h) \<Longrightarrow> cm \<in> registered h \<or> rc_flags cm \<in> (\<lambda>(_, _, _, fl). fl) ` set cs"
proof (induction cs n h rule: add_all.induct)
  case (2 name fn params flags cs n h)
  have "cm \<in> registered h \<or> rc_flags cm = flags" if "CommandAdd h n name fn params flags = Some h'" "cm \<in> registered h'" for h'
    using that by (auto simp: CommandAdd_def CommandAddInternal_def add_Command_backend_def registered_def split: if_split_asm)
  then show ?case
    using 2 by (cases "CommandAdd h n name fn params flags") auto
qed simp

lemma core_no_nolag: "cm \<in> registered init_CommandHash \<Longrightarrow> \<not> has (rc_flags cm) CMD_NOLAG"
  using registered_add_all [of cm core_commands 0 "\<lambda>_. []"]
  by (auto simp: init_CommandHash_def registered_def core_commands_def has_or) (simp_all add: has_def cmd_flag_defs)

lemma sample_penalized: "penalized sample_env a 1000 (sample_state 1)"
  using core_no_nolag by (simp add: penalized_def Let_def sample_state_def sample_env_def sample_client_def sample_local_def
      lag_ok_def client_kind_defs)

lemma sample_lag_calm: "lag_calm sample_env a pen"
  by (simp add: lag_calm_def sample_env_def pays_refl)

lemma sample_calm: "calm sample_env a"
proof -
  have "same_queue a st (upd b (\<lambda>c. c\<lparr>IsDead := True\<rparr>) st)" for st b
    by (simp add: same_queue_def queue_def upd_def)
  then show ?thesis
    by (simp add: calm_def sample_env_def shortens_refl same_queue_shortens)
qed

definition sample_input :: "char list" where
  "sample_input = ''VERSION'' @ [CHR 0x0A]"

definition sample_queued :: pstate where
  "sample_queued = set_queue 0 \<lparr>dbuf_length = 8, dbuf_list = [sample_input]\<rparr> (sample_state 1)"

lemma sample_good: "good 0 (sample_state 1)" "good 0 sample_queued"
  by (simp_all add: good_def sample_queued_def sample_state_def queue_def sample_client_def sample_local_def cmd_reach.init)
     (simp add: dbuf_inv_def dbuf_bytes_def sample_input_def DBUF_BLOCK_SIZE_def set_queue_def upd_local_def upd_def)

lemma sample_queued_penalized: "penalized sample_env 0 1000 sample_queued"
  using sample_penalized [of 0]
    pays_local [OF sample_lag_calm, of "\<lambda>l. l\<lparr>recvQ := \<lparr>dbuf_length = 8, dbuf_list = [sample_input]\<rparr>\<rparr>" 0 0 1000 "sample_state 1"]
  by (simp add: pays_def sample_queued_def set_queue_def lag_ok_def lag_of_def)

section \<open>Properties\<close>

text \<open>
  Taking back with \<^const>\<open>subtract_fake_lag\<close> what \<^const>\<open>add_fake_lag\<close> added restores the client, seconds
  and milliseconds included; in general each of the two changes the lag by exactly its argument
  and keeps the milliseconds below one second.
\<close>

theorem fake_lag_exact:
  assumes "MyConnect (clients st a)" "\<not> IsNoFakeLag (clients st a)" "lag_ok (lc (clients st a))" "0 \<le> msec"
  shows "clients (subtract_fake_lag a msec (add_fake_lag a msec st)) = clients st
    \<and> lag a (add_fake_lag a msec st) = lag a st + msec \<and> lag_ok (lc (clients (add_fake_lag a msec st) a))
    \<and> lag a (subtract_fake_lag a msec st) = lag a st - msec \<and> lag_ok (lc (clients (subtract_fake_lag a msec st) a))"
  using assms
  by (simp add: subtract_fake_lag_eq add_fake_lag_def upd_local_def upd_def sub_add_lag lag_of_add lag_of_sub lag_ok_add lag_ok_sub fun_upd_idem)

theorem fake_lag_exact_witness:
  "clients (subtract_fake_lag 0 7250 (add_fake_lag 0 7250 (sample_state 1))) = clients (sample_state 1)
   \<and> fake_lag_msec (lc (clients (add_fake_lag 0 7250 (sample_state 1)) 0)) = 250"
  using fake_lag_exact [of "sample_state 1" 0 7250]
  by (simp add: sample_state_def sample_client_def sample_local_def lag_ok_def add_fake_lag_def upd_local_def upd_def add_lag_def
      signed_modulo_int_def)







end
