(* ===== verification/Channel_Modes.thy ===== *)
theory Channel_Modes
  imports Support
begin

text \<open>
  Channel modes: the letters, ranks and prefixes of member modes and their conversions
  (\<^verbatim>\<open>src/api-channelmode.c\<close>), and the mode line of a channel, written by
  \<^verbatim>\<open>channel_modes\<close> and read by \<^verbatim>\<open>parse_chanmode\<close> (\<^verbatim>\<open>src/channel.c\<close>). The
  list \<^verbatim>\<open>channelmodes\<close> that modules fill is an argument; what the lemmas need of it is the
  locale \<open>mode_table\<close>, which is interpreted on the modes the server ships.
\<close>

unbundle bit_operations_syntax

section \<open>The model\<close>

subsection \<open>Mode tables\<close>

datatype cmode_type = CMODE_NORMAL | CMODE_MEMBER

record cmode =
  cm_letter :: char
  cm_type :: cmode_type
  cm_mode :: "64 word"
  cm_prefix :: char
  cm_sjoin_prefix :: char
  cm_rank :: int
  cm_paracount :: nat
  cm_unset_with_param :: bool
  cm_local :: bool

datatype mode_what = MODE_ADD | MODE_DEL

record core_mode =
  core_flag :: char
  core_halfop :: bool
  core_parameters :: bool

definition corechannelmodetable :: "core_mode list" where
  "corechannelmodetable =
     [\<lparr>core_flag = CHR ''b'', core_halfop = True, core_parameters = True\<rparr>,
      \<lparr>core_flag = CHR ''e'', core_halfop = True, core_parameters = True\<rparr>,
      \<lparr>core_flag = CHR ''I'', core_halfop = True, core_parameters = True\<rparr>]"

definition MEMBERMODESLEN :: nat where
  "MEMBERMODESLEN = 8"

definition find_channel_mode_handler :: "cmode list \<Rightarrow> char \<Rightarrow> cmode option" where
  "find_channel_mode_handler channelmodes letter = find (\<lambda>cm. cm_letter cm = letter) channelmodes"

definition valid_channel_access_mode_letter :: "cmode list \<Rightarrow> char \<Rightarrow> bool" where
  "valid_channel_access_mode_letter channelmodes letter =
     (case find_channel_mode_handler channelmodes letter of
        None \<Rightarrow> False
      | Some cm \<Rightarrow> cm_type cm = CMODE_MEMBER)"

definition has_channel_mode_raw :: "cmode list \<Rightarrow> 64 word \<Rightarrow> char \<Rightarrow> bool" where
  "has_channel_mode_raw channelmodes m mode \<longleftrightarrow> list_ex (\<lambda>cm. cm_letter cm = mode \<and> m AND cm_mode cm \<noteq> 0) channelmodes"

definition get_extmode_bitbychar :: "cmode list \<Rightarrow> char \<Rightarrow> 64 word" where
  "get_extmode_bitbychar channelmodes m =
     (case find (\<lambda>cm. cm_letter cm = m) channelmodes of None \<Rightarrow> 0 | Some cm \<Rightarrow> cm_mode cm)"

subsection \<open>Modes of members\<close>

fun insert_letter :: "cmode list \<Rightarrow> int \<Rightarrow> char \<Rightarrow> cstring \<Rightarrow> cstring" where
  "insert_letter channelmodes my_rank letter [] = [letter]"
| "insert_letter channelmodes my_rank letter (c # s) =
     (case find_channel_mode_handler channelmodes c of
        None \<Rightarrow> c # insert_letter channelmodes my_rank letter s
      | Some cm \<Rightarrow>
          if cm_rank cm < my_rank then letter # c # s
          else c # insert_letter channelmodes my_rank letter s)"

definition addlettertomstring :: "cmode list \<Rightarrow> cstring \<Rightarrow> char \<Rightarrow> cstring" where
  "addlettertomstring channelmodes str letter =
     (case find_channel_mode_handler channelmodes letter of
        None \<Rightarrow> str
      | Some cm \<Rightarrow>
          if cm_type cm \<noteq> CMODE_MEMBER then str
          else if length str \<ge> MEMBERMODESLEN - 1 then str
          else insert_letter channelmodes (cm_rank cm) letter str)"

fun delletterfromstring :: "cstring \<Rightarrow> char \<Rightarrow> cstring" where
  "delletterfromstring [] letter = []"
| "delletterfromstring (c # s) letter = (if c = letter then s else c # delletterfromstring s letter)"

definition check_channel_access_string :: "cstring \<Rightarrow> cstring \<Rightarrow> bool" where
  "check_channel_access_string current_modes modes \<longleftrightarrow> list_ex (\<lambda>c. c \<in> set modes) current_modes"

text \<open>\<^verbatim>\<open>strchr\<close> finds the terminating NUL, too.\<close>

definition check_channel_access_letter :: "cstring \<Rightarrow> char \<Rightarrow> bool" where
  "check_channel_access_letter current_modes letter \<longleftrightarrow> letter \<in> set current_modes \<or> letter = NUL"

subsection \<open>Ranks and prefixes\<close>

definition member_mode :: "(cmode \<Rightarrow> bool) \<Rightarrow> cmode list \<Rightarrow> cmode option" where
  "member_mode P channelmodes = find (\<lambda>cm. P cm \<and> cm_type cm = CMODE_MEMBER) channelmodes"

definition sjoin_prefix_to_mode :: "cmode list \<Rightarrow> char \<Rightarrow> char" where
  "sjoin_prefix_to_mode channelmodes s =
     (if s = NUL then NUL
      else if s = CHR ''&'' then CHR ''b''
      else if s = CHR 0x22 then CHR ''e''
      else if s = CHR 0x27 then CHR ''I''
      else (case member_mode (\<lambda>cm. cm_sjoin_prefix cm = s) channelmodes of None \<Rightarrow> NUL | Some cm \<Rightarrow> cm_letter cm))"

definition mode_to_sjoin_prefix :: "cmode list \<Rightarrow> char \<Rightarrow> char" where
  "mode_to_sjoin_prefix channelmodes s =
     (if s = NUL then NUL
      else if s = CHR ''b'' then CHR ''&''
      else if s = CHR ''e'' then CHR 0x22
      else if s = CHR ''I'' then CHR 0x27
      else (case member_mode (\<lambda>cm. cm_letter cm = s) channelmodes of None \<Rightarrow> NUL | Some cm \<Rightarrow> cm_sjoin_prefix cm))"

definition mode_to_prefix :: "cmode list \<Rightarrow> char \<Rightarrow> char" where
  "mode_to_prefix channelmodes s =
     (if s = NUL then NUL
      else (case member_mode (\<lambda>cm. cm_letter cm = s) channelmodes of None \<Rightarrow> NUL | Some cm \<Rightarrow> cm_prefix cm))"

definition prefix_to_mode :: "cmode list \<Rightarrow> char \<Rightarrow> char" where
  "prefix_to_mode channelmodes s =
     (if s = NUL then NUL
      else (case member_mode (\<lambda>cm. cm_prefix cm = s) channelmodes of None \<Rightarrow> NUL | Some cm \<Rightarrow> cm_letter cm))"

fun letters_to :: "(char \<Rightarrow> char) \<Rightarrow> cstring \<Rightarrow> cstring \<Rightarrow> cstring" where
  "letters_to f buf [] = buf"
| "letters_to f buf (m # modes) =
     letters_to f (if f m \<noteq> NUL then strlcat_letter buf (f m) MEMBERMODESLEN else buf) modes"

definition modes_to_sjoin_prefix :: "cmode list \<Rightarrow> cstring \<Rightarrow> cstring" where
  "modes_to_sjoin_prefix channelmodes modes = letters_to (mode_to_sjoin_prefix channelmodes) [] modes"

definition modes_to_prefix :: "cmode list \<Rightarrow> cstring \<Rightarrow> cstring" where
  "modes_to_prefix channelmodes modes = letters_to (mode_to_prefix channelmodes) [] modes"

definition rank_to_mode :: "cmode list \<Rightarrow> int \<Rightarrow> char" where
  "rank_to_mode channelmodes rank =
     (case member_mode (\<lambda>cm. cm_rank cm = rank) channelmodes of None \<Rightarrow> NUL | Some cm \<Rightarrow> cm_letter cm)"

definition mode_to_rank :: "cmode list \<Rightarrow> char \<Rightarrow> int" where
  "mode_to_rank channelmodes mode =
     (case member_mode (\<lambda>cm. cm_letter cm = mode) channelmodes of None \<Rightarrow> 0 | Some cm \<Rightarrow> cm_rank cm)"

definition prefix_to_rank :: "cmode list \<Rightarrow> char \<Rightarrow> int" where
  "prefix_to_rank channelmodes p =
     (case member_mode (\<lambda>cm. cm_prefix cm = p) channelmodes of None \<Rightarrow> 0 | Some cm \<Rightarrow> cm_rank cm)"

definition rank_to_prefix :: "cmode list \<Rightarrow> int \<Rightarrow> char" where
  "rank_to_prefix channelmodes rank =
     (case member_mode (\<lambda>cm. cm_rank cm = rank) channelmodes of None \<Rightarrow> NUL | Some cm \<Rightarrow> cm_prefix cm)"

definition INT_MAX :: int where
  "INT_MAX = 2147483647"

fun winning_rank :: "(char \<Rightarrow> int) \<Rightarrow> cstring \<Rightarrow> int \<Rightarrow> int" where
  "winning_rank f [] w = w"
| "winning_rank f (c # s) w = winning_rank f s (if f c < w then f c else w)"

definition lowest_ranking_prefix :: "cmode list \<Rightarrow> cstring \<Rightarrow> char" where
  "lowest_ranking_prefix channelmodes p =
     (let w = winning_rank (prefix_to_rank channelmodes) p INT_MAX
      in if w = INT_MAX then NUL else rank_to_prefix channelmodes w)"

definition lowest_ranking_mode :: "cmode list \<Rightarrow> cstring \<Rightarrow> char" where
  "lowest_ranking_mode channelmodes mode =
     (let w = winning_rank (mode_to_rank channelmodes) mode INT_MAX
      in if w = INT_MAX then NUL else rank_to_mode channelmodes w)"

definition channel_member_modes_generate_equal_or_greater :: "cmode list \<Rightarrow> cstring \<Rightarrow> nat \<Rightarrow> cstring" where
  "channel_member_modes_generate_equal_or_greater channelmodes modes buflen =
     (let rank = mode_to_rank channelmodes (lowest_ranking_mode channelmodes modes)
      in if rank = 0 then []
         else fold (\<lambda>cm buf. strlcat_letter buf (cm_letter cm) buflen)
                (filter (\<lambda>cm. cm_type cm = CMODE_MEMBER \<and> cm_rank cm \<ge> rank) channelmodes) [])"

subsection \<open>The mode line of a channel\<close>

text \<open>
  \<open>getpar\<close> is \<^verbatim>\<open>cm_getparameter\<close> for the channel, \<open>show\<close> whether the client may see the
  parameters.
\<close>

fun channel_modes_loop :: "(char \<Rightarrow> cstring) \<Rightarrow> bool \<Rightarrow> bool \<Rightarrow> 64 word \<Rightarrow> nat \<Rightarrow> nat \<Rightarrow> cmode list \<Rightarrow> cstring \<times> cstring \<Rightarrow> cstring \<times> cstring" where
  "channel_modes_loop getpar shown hide_local_modes mode mbuf_size pbuf_size [] bufs = bufs"
| "channel_modes_loop getpar shown hide_local_modes mode mbuf_size pbuf_size (cm # cms) (mbuf, pbuf) =
     channel_modes_loop getpar shown hide_local_modes mode mbuf_size pbuf_size cms
       (if cm_letter cm \<noteq> NUL \<and> \<not> (hide_local_modes \<and> cm_local cm) \<and> mode AND cm_mode cm \<noteq> 0 then
          (strlcat_letter mbuf (cm_letter cm) mbuf_size,
           if cm_paracount cm \<noteq> 0 \<and> shown
           then fst (strlcat (fst (strlcat pbuf (getpar (cm_letter cm)) pbuf_size)) '' '' pbuf_size) else pbuf)
        else (mbuf, pbuf))"

text \<open>\<open>None\<close> if the buffers have no room at all and are left as they are.\<close>

definition channel_modes ::
  "cmode list \<Rightarrow> (char \<Rightarrow> cstring) \<Rightarrow> bool \<Rightarrow> bool \<Rightarrow> 64 word \<Rightarrow> nat \<Rightarrow> nat \<Rightarrow> (cstring \<times> cstring) option" where
  "channel_modes channelmodes getpar shown hide_local_modes mode mbuf_size pbuf_size =
     (if mbuf_size = 0 \<or> pbuf_size = 0 then None
      else case channel_modes_loop getpar shown hide_local_modes mode mbuf_size pbuf_size channelmodes
                  (fst (strlcpy [] ''+'' mbuf_size), []) of
             (mbuf, pbuf) \<Rightarrow> Some (mbuf, if pbuf \<noteq> [] then butlast pbuf else pbuf))"

record parse_mode =
  pm_what :: mode_what
  pm_modechar :: char
  pm_param :: "cstring option"
  pm_extm :: "cmode option"
  pm_modebuf :: cstring
  pm_parabuf :: "cstring option"

text \<open>
  The next parameter, if any, and what is left. A parameter that is followed by another one
  and fills \<^verbatim>\<open>pm->buf[512]\<close> is copied with a size one larger than the buffer.
\<close>

definition eat_param :: "cstring option \<Rightarrow> fault + cstring option \<times> cstring option" where
  "eat_param parabuf =
     (case parabuf of
        None \<Rightarrow> Inr (None, None)
      | Some p \<Rightarrow>
          if p = [] then Inr (None, parabuf)
          else let start = dropWhile (\<lambda>c. c = CHR '' '') p;
                   tok = takeWhile (\<lambda>c. c \<noteq> CHR '' '') start;
                   rest = dropWhile (\<lambda>c. c \<noteq> CHR '' '') start
               in if start = [] then Inr (None, Some [])
                  else if rest \<noteq> [] then
                    (if length tok + 1 > 512 then Inl Array_Overflow else Inr (Some (stripcrlf tok), Some (tl rest)))
                  else Inr (Some (stripcrlf (take 511 start)), Some []))"

text \<open>Which mode a letter is, and whether it takes a parameter; \<open>None\<close> for an unknown letter.\<close>

definition mode_of_letter :: "cmode list \<Rightarrow> mode_what \<Rightarrow> char \<Rightarrow> (cmode option \<times> bool) option" where
  "mode_of_letter channelmodes what c =
     (case find (\<lambda>tab. core_flag tab = c) corechannelmodetable of
        Some tab \<Rightarrow> Some (None, core_parameters tab)
      | None \<Rightarrow>
          (case find (\<lambda>cm. cm_letter cm = c) channelmodes of
             None \<Rightarrow> None
           | Some cm \<Rightarrow> Some (Some cm, cm_paracount cm = 1 \<and> (what = MODE_ADD \<or> cm_unset_with_param cm))))"

fun chanmode_loop :: "cmode list \<Rightarrow> cstring \<Rightarrow> parse_mode \<Rightarrow> fault + bool \<times> parse_mode" where
  "chanmode_loop channelmodes [] pm = Inr (False, pm\<lparr>pm_modebuf := []\<rparr>)"
| "chanmode_loop channelmodes (c # s) pm =
     (if c = CHR ''+'' then chanmode_loop channelmodes s (pm\<lparr>pm_what := MODE_ADD\<rparr>)
      else if c = CHR ''-'' then chanmode_loop channelmodes s (pm\<lparr>pm_what := MODE_DEL\<rparr>)
      else let pm = pm\<lparr>pm_extm := None, pm_modechar := c, pm_param := None\<rparr> in
           (case mode_of_letter channelmodes (pm_what pm) c of
              None \<Rightarrow> chanmode_loop channelmodes s pm
            | Some (extm, eatparam) \<Rightarrow>
                let pm = pm\<lparr>pm_extm := extm\<rparr> in
                if eatparam then
                  (case eat_param (pm_parabuf pm) of
                     Inl e \<Rightarrow> Inl e
                   | Inr (None, rest) \<Rightarrow> chanmode_loop channelmodes s (pm\<lparr>pm_parabuf := rest\<rparr>)
                   | Inr (Some param, rest) \<Rightarrow>
                       Inr (True, pm\<lparr>pm_param := Some param, pm_parabuf := rest, pm_modebuf := s\<rparr>))
                else Inr (True, pm\<lparr>pm_modebuf := s\<rparr>)))"

text \<open>One call; a first call carries the buffers.\<close>

definition parse_chanmode :: "cmode list \<Rightarrow> parse_mode \<Rightarrow> (cstring \<times> cstring option) option \<Rightarrow> fault + bool \<times> parse_mode" where
  "parse_chanmode channelmodes pm bufs =
     (let pm = (case bufs of
                  None \<Rightarrow> pm
                | Some (modebuf_in, parabuf_in) \<Rightarrow>
                    \<lparr>pm_what = MODE_ADD, pm_modechar = NUL, pm_param = None, pm_extm = None,
                     pm_modebuf = modebuf_in, pm_parabuf = parabuf_in\<rparr>)
      in chanmode_loop channelmodes (pm_modebuf pm) pm)"

definition empty_mode :: "cstring \<Rightarrow> bool" where
  "empty_mode m \<longleftrightarrow> m = [] \<or> ((c_at m 0 = CHR ''+'' \<or> c_at m 0 = CHR ''-'') \<and> c_at m 1 = NUL)"

section \<open>Well-formed tables\<close>

text \<open>
  What the conversions rely on: letters are unique and are neither signs nor letters of the
  list modes; member modes have unique prefixes and ranks other than 0.
\<close>

definition members :: "cmode list \<Rightarrow> cmode list" where
  "members channelmodes = filter (\<lambda>cm. cm_type cm = CMODE_MEMBER) channelmodes"

definition table_wf :: "cmode list \<Rightarrow> bool" where
  "table_wf channelmodes \<longleftrightarrow>
     distinct (map cm_letter channelmodes)
     \<and> list_all (\<lambda>cm. cm_letter cm \<notin> set (NUL # ''+-beI'')) channelmodes
     \<and> distinct (map cm_rank (members channelmodes))
     \<and> distinct (map cm_prefix (members channelmodes))
     \<and> distinct (map cm_sjoin_prefix (members channelmodes))
     \<and> list_all (\<lambda>cm. cm_rank cm \<noteq> 0 \<and> cm_rank cm < INT_MAX \<and> cm_prefix cm \<noteq> NUL
           \<and> cm_sjoin_prefix cm \<notin> {NUL, CHR ''&'', CHR 0x22, CHR 0x27}) (members channelmodes)"

lemma find_distinct:
  "distinct (map f (filter Q xs)) \<Longrightarrow> x \<in> set xs \<Longrightarrow> Q x \<Longrightarrow> find (\<lambda>y. f y = f x \<and> Q y) xs = Some x"
  by (induction xs) (force simp: image_iff split: if_splits)+

lemma find_distinct_all: "distinct (map f xs) \<Longrightarrow> x \<in> set xs \<Longrightarrow> find (\<lambda>y. f y = f x) xs = Some x"
  by (induction xs) (auto simp: image_iff)

locale mode_table =
  fixes channelmodes :: "cmode list"
  assumes wf: "table_wf channelmodes"
begin

lemma in_members: "cm \<in> set (members channelmodes) \<longleftrightarrow> cm \<in> set channelmodes \<and> cm_type cm = CMODE_MEMBER"
  by (auto simp: members_def)

lemma distinct_members: "distinct (map cm_letter (members channelmodes))"
  using wf by (simp add: table_wf_def members_def distinct_map_filter)

lemma member_by_letter: "cm \<in> set (members channelmodes) \<Longrightarrow> member_mode (\<lambda>x. cm_letter x = cm_letter cm) channelmodes = Some cm"
  using find_distinct [of cm_letter "\<lambda>cm. cm_type cm = CMODE_MEMBER" channelmodes cm] distinct_members
  by (simp add: member_mode_def in_members members_def)

lemma member_by_rank: "cm \<in> set (members channelmodes) \<Longrightarrow> member_mode (\<lambda>x. cm_rank x = cm_rank cm) channelmodes = Some cm"
  using find_distinct [of cm_rank "\<lambda>cm. cm_type cm = CMODE_MEMBER" channelmodes cm] wf
  by (simp add: member_mode_def in_members members_def table_wf_def)

lemma member_by_prefix: "cm \<in> set (members channelmodes) \<Longrightarrow> member_mode (\<lambda>x. cm_prefix x = cm_prefix cm) channelmodes = Some cm"
  using find_distinct [of cm_prefix "\<lambda>cm. cm_type cm = CMODE_MEMBER" channelmodes cm] wf
  by (simp add: member_mode_def in_members members_def table_wf_def)

lemma member_by_sjoin: "cm \<in> set (members channelmodes) \<Longrightarrow> member_mode (\<lambda>x. cm_sjoin_prefix x = cm_sjoin_prefix cm) channelmodes = Some cm"
  using find_distinct [of cm_sjoin_prefix "\<lambda>cm. cm_type cm = CMODE_MEMBER" channelmodes cm] wf
  by (simp add: member_mode_def in_members members_def table_wf_def)

lemma by_letter: "cm \<in> set channelmodes \<Longrightarrow> find_channel_mode_handler channelmodes (cm_letter cm) = Some cm"
  unfolding find_channel_mode_handler_def using wf by (intro find_distinct_all) (simp_all add: table_wf_def)

lemma valid_letter: "valid_channel_access_mode_letter channelmodes l \<longleftrightarrow> (\<exists>cm \<in> set (members channelmodes). cm_letter cm = l)"
proof
  assume "valid_channel_access_mode_letter channelmodes l"
  then obtain cm where "find (\<lambda>cm. cm_letter cm = l) channelmodes = Some cm" "cm_type cm = CMODE_MEMBER"
    by (auto simp: valid_channel_access_mode_letter_def find_channel_mode_handler_def split: option.splits)
  then show "\<exists>cm \<in> set (members channelmodes). cm_letter cm = l"
    by (intro bexI [of _ cm]) (auto simp: in_members dest: find_SomeD)
next
  assume "\<exists>cm \<in> set (members channelmodes). cm_letter cm = l"
  then show "valid_channel_access_mode_letter channelmodes l"
    using by_letter by (auto simp: valid_channel_access_mode_letter_def in_members)
qed

end

section \<open>Ranks and prefixes\<close>

lemma winning_rank_Min: "winning_rank f s w = Min (insert w (f ` set s))"
proof (induction s arbitrary: w)
  case (Cons c s)
  have "winning_rank f (c # s) w = winning_rank f s (min (f c) w)"
    by (simp add: min_def)
  also have "\<dots> = Min (insert (min (f c) w) (f ` set s))"
    by (rule Cons)
  also have "\<dots> = Min (insert w (f ` set (c # s)))"
    by (cases "s = []") (simp_all add: min.commute min.left_commute)
  finally show ?case .
qed simp

lemma fold_letters:
  "list_all (\<lambda>cm. cm_letter cm \<noteq> NUL) cms \<Longrightarrow> length buf + length cms < n
   \<Longrightarrow> fold (\<lambda>cm buf. strlcat_letter buf (cm_letter cm) n) cms buf = buf @ map cm_letter cms"
  by (induction cms arbitrary: buf) (auto simp: strlcat_letter_eq)

lemma letters_to_all:
  "list_all (\<lambda>c. f c \<noteq> NUL) s \<Longrightarrow> length buf + length s < MEMBERMODESLEN \<Longrightarrow> letters_to f buf s = buf @ map f s"
  by (induction s arbitrary: buf) (auto simp: strlcat_letter_eq)

context mode_table
begin

lemma letter_ok: "cm \<in> set channelmodes \<Longrightarrow> cm_letter cm \<notin> set (NUL # ''+-beI'')"
  using wf by (auto simp: table_wf_def list_all_iff)

lemma member_ok:
  assumes "cm \<in> set (members channelmodes)"
  shows "cm_rank cm \<noteq> 0" "cm_rank cm < INT_MAX" "cm_prefix cm \<noteq> NUL"
    "cm_sjoin_prefix cm \<notin> {NUL, CHR ''&'', CHR 0x22, CHR 0x27}"
  using wf assms by (auto simp: table_wf_def list_all_iff)

lemma mode_to_rank_member: "cm \<in> set (members channelmodes) \<Longrightarrow> mode_to_rank channelmodes (cm_letter cm) = cm_rank cm"
  by (simp add: mode_to_rank_def member_by_letter)

lemma rank_to_mode_member: "cm \<in> set (members channelmodes) \<Longrightarrow> rank_to_mode channelmodes (cm_rank cm) = cm_letter cm"
  by (simp add: rank_to_mode_def member_by_rank)

lemma lowest_ranking_mode_member:
  assumes "modes \<noteq> []" "list_all (valid_channel_access_mode_letter channelmodes) modes"
  obtains cm where "cm \<in> set (members channelmodes)" "cm_letter cm \<in> set modes"
    "\<And>m. m \<in> set modes \<Longrightarrow> cm_rank cm \<le> mode_to_rank channelmodes m"
    "lowest_ranking_mode channelmodes modes = cm_letter cm"
proof -
  let ?R = "mode_to_rank channelmodes ` set modes"
  have member: "\<exists>cm \<in> set (members channelmodes). cm_letter cm = m" if "m \<in> set modes" for m
    using that assms(2) valid_letter by (auto simp: list_all_iff)
  have "Min ?R \<in> ?R"
    using assms(1) by (intro Min_in) auto
  then obtain cm where cm: "cm \<in> set (members channelmodes)" "cm_letter cm \<in> set modes" "Min ?R = cm_rank cm"
    using member mode_to_rank_member by (metis (no_types, lifting) imageE)
  have w: "winning_rank (mode_to_rank channelmodes) modes INT_MAX = cm_rank cm"
    using cm(3) member_ok(2) [OF cm(1)] assms(1) by (simp add: winning_rank_Min)
  show ?thesis
  proof
    show "cm_rank cm \<le> mode_to_rank channelmodes m" if "m \<in> set modes" for m
      using that unfolding cm(3) [symmetric] by (intro Min_le) auto
    show "lowest_ranking_mode channelmodes modes = cm_letter cm"
      using w member_ok(2) [OF cm(1)] by (simp add: lowest_ranking_mode_def rank_to_mode_member [OF cm(1)])
  qed (fact cm)+
qed

lemma generated_modes:
  assumes "modes \<noteq> []" "list_all (valid_channel_access_mode_letter channelmodes) modes" "length (members channelmodes) < buflen"
  shows "c \<in> set (channel_member_modes_generate_equal_or_greater channelmodes modes buflen)
    \<longleftrightarrow> valid_channel_access_mode_letter channelmodes c
        \<and> (\<exists>m \<in> set modes. mode_to_rank channelmodes m \<le> mode_to_rank channelmodes c)"
proof -
  obtain low where low: "low \<in> set (members channelmodes)" "cm_letter low \<in> set modes"
    "\<And>m. m \<in> set modes \<Longrightarrow> cm_rank low \<le> mode_to_rank channelmodes m"
    "lowest_ranking_mode channelmodes modes = cm_letter low"
    using lowest_ranking_mode_member [OF assms(1,2)] by blast
  let ?sel = "filter (\<lambda>cm. cm_type cm = CMODE_MEMBER \<and> cm_rank cm \<ge> cm_rank low) channelmodes"
  have "length ?sel \<le> length (members channelmodes)"
    unfolding members_def by (induction channelmodes) auto
  then have "fold (\<lambda>cm buf. strlcat_letter buf (cm_letter cm) buflen) ?sel [] = map cm_letter ?sel"
    using assms(3) letter_ok by (subst fold_letters) (auto simp: list_all_iff)
  then have "set (channel_member_modes_generate_equal_or_greater channelmodes modes buflen) = set (map cm_letter ?sel)"
    using low member_ok(1) [OF low(1)]
    by (simp add: channel_member_modes_generate_equal_or_greater_def mode_to_rank_member)
  also have "c \<in> \<dots> \<longleftrightarrow> (\<exists>cm \<in> set (members channelmodes). cm_letter cm = c \<and> cm_rank low \<le> cm_rank cm)"
    by (auto simp: in_members)
  also have "\<dots> \<longleftrightarrow> valid_channel_access_mode_letter channelmodes c
      \<and> (\<exists>m \<in> set modes. mode_to_rank channelmodes m \<le> mode_to_rank channelmodes c)"
    using low(2) order_trans [OF low(3)] mode_to_rank_member unfolding valid_letter by (metis low(1))
  finally show ?thesis .
qed

lemma sjoin_roundtrip:
  assumes "list_all (valid_channel_access_mode_letter channelmodes) modes" "length modes < MEMBERMODESLEN"
  shows "map (sjoin_prefix_to_mode channelmodes) (modes_to_sjoin_prefix channelmodes modes) = modes"
proof -
  have one: "mode_to_sjoin_prefix channelmodes m \<noteq> NUL \<and> sjoin_prefix_to_mode channelmodes (mode_to_sjoin_prefix channelmodes m) = m"
    if "m \<in> set modes" for m
  proof -
    have "valid_channel_access_mode_letter channelmodes m"
      using that assms(1) by (simp add: list_all_iff)
    then obtain cm where cm: "cm \<in> set (members channelmodes)" "cm_letter cm = m"
      unfolding valid_letter by blast
    then have "mode_to_sjoin_prefix channelmodes m = cm_sjoin_prefix cm"
      using letter_ok [of cm] cm member_by_letter [OF cm(1)] by (simp add: mode_to_sjoin_prefix_def in_members)
    then show ?thesis
      using member_ok(4) [OF cm(1)] member_by_sjoin [OF cm(1)] cm(2) by (simp add: sjoin_prefix_to_mode_def)
  qed
  then have "modes_to_sjoin_prefix channelmodes modes = map (mode_to_sjoin_prefix channelmodes) modes"
    unfolding modes_to_sjoin_prefix_def using assms(2) by (subst letters_to_all) (auto simp: list_all_iff)
  then show ?thesis
    using one by (simp add: map_idI)
qed

end

section \<open>The member modes of the server\<close>

definition member_cmode :: "char \<Rightarrow> char \<Rightarrow> char \<Rightarrow> int \<Rightarrow> cmode" where
  "member_cmode letter pfx sjoin rank =
     \<lparr>cm_letter = letter, cm_type = CMODE_MEMBER, cm_mode = 0, cm_prefix = pfx, cm_sjoin_prefix = sjoin, cm_rank = rank,
      cm_paracount = 1, cm_unset_with_param = True, cm_local = False\<rparr>"

definition cmode_voice :: cmode where
  "cmode_voice = member_cmode (CHR ''v'') (CHR ''+'') (CHR ''+'') (- 1)"

definition cmode_halfop :: cmode where
  "cmode_halfop = member_cmode (CHR ''h'') (CHR ''%'') (CHR ''%'') 1000"

definition cmode_chanop :: cmode where
  "cmode_chanop = member_cmode (CHR ''o'') (CHR ''@'') (CHR ''@'') 2000"

definition cmode_chanadmin :: cmode where
  "cmode_chanadmin = member_cmode (CHR ''a'') (CHR ''&'') (CHR ''~'') 3000"

definition cmode_chanowner :: cmode where
  "cmode_chanowner = member_cmode (CHR ''q'') (CHR ''~'') (CHR ''*'') 4000"

definition member_modes :: "cmode list" where
  "member_modes = [cmode_chanadmin, cmode_halfop, cmode_chanop, cmode_chanowner, cmode_voice]"

lemma member_modes_wf: "table_wf member_modes"
  by code_simp

interpretation vhoaq: mode_table member_modes
  by unfold_locales (rule member_modes_wf)

section \<open>Reading a mode line back\<close>

text \<open>The loop that every caller of \<^verbatim>\<open>parse_chanmode\<close> runs, as its comment shows it.\<close>

lemma chanmode_loop_shorter: "chanmode_loop cms s pm = Inr (True, pm') \<Longrightarrow> length (pm_modebuf pm') < length s"
  by (induction s arbitrary: pm) (auto simp: Let_def less_Suc_eq split: if_split_asm option.split_asm prod.split_asm sum.split_asm)

function all_modes :: "cmode list \<Rightarrow> parse_mode \<Rightarrow> fault + (mode_what \<times> char \<times> cstring option) list" where
  "all_modes channelmodes pm =
     (case parse_chanmode channelmodes pm None of
        Inl e \<Rightarrow> Inl e
      | Inr (ret, pm') \<Rightarrow>
          if ret then (case all_modes channelmodes pm' of
                         Inl e \<Rightarrow> Inl e
                       | Inr ms \<Rightarrow> Inr ((pm_what pm', pm_modechar pm', pm_param pm') # ms))
          else Inr [])"
  by pat_completeness auto
termination
  by (relation "measure (\<lambda>(_, pm). length (pm_modebuf pm))")
     (auto simp: parse_chanmode_def intro: chanmode_loop_shorter)

declare all_modes.simps [simp del]

definition parse_mode_line :: "cmode list \<Rightarrow> cstring \<Rightarrow> cstring option \<Rightarrow> fault + (mode_what \<times> char \<times> cstring option) list" where
  "parse_mode_line channelmodes modebuf parabuf =
     all_modes channelmodes
       \<lparr>pm_what = MODE_ADD, pm_modechar = NUL, pm_param = None, pm_extm = None, pm_modebuf = modebuf, pm_parabuf = parabuf\<rparr>"

text \<open>The modes that a line shows, and what a parameter must be to be read back.\<close>

definition set_modes :: "cmode list \<Rightarrow> bool \<Rightarrow> 64 word \<Rightarrow> cmode list" where
  "set_modes channelmodes hide mode =
     filter (\<lambda>cm. cm_letter cm \<noteq> NUL \<and> \<not> (hide \<and> cm_local cm) \<and> mode AND cm_mode cm \<noteq> 0) channelmodes"

definition param_ok :: "cstring \<Rightarrow> bool" where
  "param_ok p \<longleftrightarrow> p \<noteq> [] \<and> length p < 512 \<and> list_all (\<lambda>c. c \<notin> {CHR '' '', CHR 0x0A, CHR 0x0D}) p"

fun join :: "cstring list \<Rightarrow> cstring" where
  "join [] = []"
| "join [p] = p"
| "join (p # ps) = p @ '' '' @ join ps"

definition mode_params :: "(char \<Rightarrow> cstring) \<Rightarrow> cmode list \<Rightarrow> cstring list" where
  "mode_params getpar cms = map (\<lambda>cm. getpar (cm_letter cm)) (filter (\<lambda>cm. cm_paracount cm \<noteq> 0) cms)"

lemma butlast_join: "ps \<noteq> [] \<Longrightarrow> butlast (concat (map (\<lambda>p. p @ '' '') ps)) = join ps"
  by (induction ps rule: join.induct) (auto simp: butlast_append)

lemma channel_modes_loop_eq:
  assumes "length mbuf + length (set_modes cms hide mode) < msize"
    and "length pbuf + length (concat (map (\<lambda>p. p @ '' '') (mode_params getpar (set_modes cms hide mode)))) < psize"
  shows "channel_modes_loop getpar True hide mode msize psize cms (mbuf, pbuf)
    = (mbuf @ map cm_letter (set_modes cms hide mode),
       pbuf @ concat (map (\<lambda>p. p @ '' '') (mode_params getpar (set_modes cms hide mode))))"
  using assms
  by (induction cms arbitrary: mbuf pbuf) (auto simp: set_modes_def mode_params_def strlcat_letter_eq fst_strlcat)

lemma eat_param_join:
  assumes "param_ok p"
  shows "eat_param (Some (join (p # ps))) = Inr (Some p, Some (join ps))"
proof -
  obtain c r where p: "p = c # r"
    using assms by (cases p) (auto simp: param_ok_def)
  have ok: "list_all (\<lambda>c. c \<noteq> CHR '' '') p" "list_all (\<lambda>c. c \<noteq> CHR 0x0A \<and> c \<noteq> CHR 0x0D) p" "length p < 512"
    using assms by (auto simp: param_ok_def list_all_iff)
  then have strip: "stripcrlf p = p"
    by (simp add: stripcrlf_def takeWhile_eq_all_conv list_all_iff)
  have tw: "takeWhile (\<lambda>c. c \<noteq> CHR '' '') (p @ '' '' @ q) = p" "dropWhile (\<lambda>c. c \<noteq> CHR '' '') (p @ '' '' @ q) = '' '' @ q"
    "takeWhile (\<lambda>c. c \<noteq> CHR '' '') p = p" "dropWhile (\<lambda>c. c \<noteq> CHR '' '') p = []" for q
    using ok(1) by (auto simp: list_all_iff takeWhile_append dropWhile_append)
  show ?thesis
  proof (cases ps)
    case Nil
    then show ?thesis
      using tw(3,4) strip ok p by (simp add: eat_param_def)
  next
    case (Cons q qs)
    then have j: "join (p # ps) = p @ '' '' @ join ps"
      by simp
    have "dropWhile (\<lambda>c. c = CHR '' '') (p @ '' '' @ join ps) = p @ '' '' @ join ps" "p @ '' '' @ join ps \<noteq> []"
      using ok(1) p by simp_all
    then show ?thesis
      unfolding j eat_param_def using tw(1,2) [of "join ps"] strip ok(3) by (simp add: Let_def)
  qed
qed

lemma chanmode_loop_modebuf: "chanmode_loop cms s (pm\<lparr>pm_modebuf := x\<rparr>) = chanmode_loop cms s pm"
proof (induction s arbitrary: pm)
  case (Cons c s)
  have swap: "chanmode_loop cms s (f (pm\<lparr>pm_modebuf := x\<rparr>)) = chanmode_loop cms s (f pm)"
    if "f (pm\<lparr>pm_modebuf := x\<rparr>) = (f pm)\<lparr>pm_modebuf := x\<rparr>" for f
    unfolding that by (rule Cons)
  show ?case
    by (simp add: Let_def split: option.split sum.split prod.split)
       (simp add: swap [of "\<lambda>pm. pm\<lparr>pm_what := w\<rparr>" for w]
         swap [of "\<lambda>pm. pm\<lparr>pm_extm := None, pm_modechar := c, pm_param := None\<rparr>"]
         swap [of "\<lambda>pm. pm\<lparr>pm_modechar := c, pm_param := None, pm_extm := e, pm_parabuf := r\<rparr>" for e r])
qed simp

context mode_table
begin

lemma mode_of_letter_ext:
  assumes "cm \<in> set channelmodes"
  shows "mode_of_letter channelmodes MODE_ADD (cm_letter cm) = Some (Some cm, cm_paracount cm = 1)"
  using letter_ok [OF assms] by_letter [OF assms]
  by (auto simp: mode_of_letter_def corechannelmodetable_def find_channel_mode_handler_def)

lemma all_modes_letters:
  assumes "set ms \<subseteq> set channelmodes" "\<And>cm. cm \<in> set ms \<Longrightarrow> cm_paracount cm \<le> 1"
    and "\<And>cm. cm \<in> set ms \<Longrightarrow> cm_paracount cm \<noteq> 0 \<Longrightarrow> param_ok (getpar (cm_letter cm))"
    and "pm_what pm = MODE_ADD" "pm_modebuf pm = map cm_letter ms" "pm_parabuf pm = Some (join (mode_params getpar ms))"
  shows "all_modes channelmodes pm
    = Inr (map (\<lambda>cm. (MODE_ADD, cm_letter cm, if cm_paracount cm \<noteq> 0 then Some (getpar (cm_letter cm)) else None)) ms)"
  using assms
proof (induction ms arbitrary: pm)
  case Nil
  then show ?case by (subst all_modes.simps) (simp add: parse_chanmode_def)
next
  case (Cons cm ms)
  have sign: "cm_letter cm \<noteq> CHR ''+''" "cm_letter cm \<noteq> CHR ''-''"
    using letter_ok [of cm] Cons.prems(1) by auto
  have letter: "mode_of_letter channelmodes MODE_ADD (cm_letter cm) = Some (Some cm, cm_paracount cm = 1)"
    using Cons.prems(1) by (intro mode_of_letter_ext) simp
  define pm' where "pm' = (if cm_paracount cm = 0 then pm\<lparr>pm_modechar := cm_letter cm, pm_param := None, pm_extm := Some cm, pm_modebuf := map cm_letter ms\<rparr>
      else pm\<lparr>pm_modechar := cm_letter cm, pm_extm := Some cm, pm_param := Some (getpar (cm_letter cm)),
              pm_parabuf := Some (join (mode_params getpar ms)), pm_modebuf := map cm_letter ms\<rparr>)"
  have "parse_chanmode channelmodes pm None = Inr (True, pm')"
  proof (cases "cm_paracount cm = 0")
    case True
    then show ?thesis
      using Cons.prems(4-6) sign letter by (simp add: parse_chanmode_def pm'_def)
  next
    case False
    then have "cm_paracount cm = 1" "param_ok (getpar (cm_letter cm))"
      using Cons.prems(2,3) [of cm] by auto
    moreover have "mode_params getpar (cm # ms) = getpar (cm_letter cm) # mode_params getpar ms"
      using False by (simp add: mode_params_def)
    ultimately show ?thesis
      using Cons.prems(4-6) sign letter eat_param_join [of "getpar (cm_letter cm)" "mode_params getpar ms"]
      by (simp add: parse_chanmode_def pm'_def)
  qed
  moreover have "all_modes channelmodes pm'
      = Inr (map (\<lambda>cm. (MODE_ADD, cm_letter cm, if cm_paracount cm \<noteq> 0 then Some (getpar (cm_letter cm)) else None)) ms)"
    using Cons.prems by (intro Cons.IH) (auto simp: pm'_def mode_params_def)
  ultimately show ?case
    using Cons.prems(4) by (subst all_modes.simps) (auto simp: pm'_def)
qed

lemma parse_plus_line:
  assumes "set ms \<subseteq> set channelmodes" "\<And>cm. cm \<in> set ms \<Longrightarrow> cm_paracount cm \<le> 1"
    and "\<And>cm. cm \<in> set ms \<Longrightarrow> cm_paracount cm \<noteq> 0 \<Longrightarrow> param_ok (getpar (cm_letter cm))"
  shows "parse_mode_line channelmodes (CHR ''+'' # map cm_letter ms) (Some (join (mode_params getpar ms)))
    = Inr (map (\<lambda>cm. (MODE_ADD, cm_letter cm, if cm_paracount cm \<noteq> 0 then Some (getpar (cm_letter cm)) else None)) ms)"
proof -
  define pm where "pm = \<lparr>pm_what = MODE_ADD, pm_modechar = NUL, pm_param = None, pm_extm = None,
      pm_modebuf = map cm_letter ms, pm_parabuf = Some (join (mode_params getpar ms))\<rparr>"
  have "parse_chanmode channelmodes (pm\<lparr>pm_modebuf := CHR ''+'' # map cm_letter ms\<rparr>) None = parse_chanmode channelmodes pm None"
    using chanmode_loop_modebuf [where pm = pm and s = "map cm_letter ms" and cms = channelmodes] by (simp add: parse_chanmode_def pm_def)
  then have "all_modes channelmodes (pm\<lparr>pm_modebuf := CHR ''+'' # map cm_letter ms\<rparr>) = all_modes channelmodes pm"
    by (subst (1 2) all_modes.simps) simp
  also have "\<dots> = Inr (map (\<lambda>cm. (MODE_ADD, cm_letter cm, if cm_paracount cm \<noteq> 0 then Some (getpar (cm_letter cm)) else None)) ms)"
    using assms by (intro all_modes_letters) (auto simp: pm_def)
  finally show ?thesis
    by (simp add: parse_mode_line_def pm_def)
qed

end

section \<open>Properties\<close>

definition normal_cmode :: "char \<Rightarrow> 64 word \<Rightarrow> nat \<Rightarrow> cmode" where
  "normal_cmode letter bits para =
     \<lparr>cm_letter = letter, cm_type = CMODE_NORMAL, cm_mode = bits, cm_prefix = NUL, cm_sjoin_prefix = NUL, cm_rank = 0,
      cm_paracount = para, cm_unset_with_param = False, cm_local = False\<rparr>"

definition sample_modes :: "cmode list" where
  "sample_modes = [cmode_halfop, normal_cmode (CHR ''k'') 1 1, normal_cmode (CHR ''l'') 2 1, normal_cmode (CHR ''n'') 4 0,
     cmode_chanop, normal_cmode (CHR ''t'') 8 0, cmode_voice]"

text \<open>
  C15: What \<^const>\<open>channel_modes\<close> writes about a channel, \<^const>\<open>parse_chanmode\<close> reads back: the modes that are set, in
  the order of the table, each with its own parameter. The buffers must have room, and a
  parameter must not be empty, contain blanks or line ends, or exceed 511 characters.
\<close>

theorem mode_line_roundtrip:
  assumes "table_wf channelmodes" "ms = set_modes channelmodes hide mode"
    and "\<And>cm. cm \<in> set ms \<Longrightarrow> cm_paracount cm \<le> 1"
    and "\<And>cm. cm \<in> set ms \<Longrightarrow> cm_paracount cm \<noteq> 0 \<Longrightarrow> param_ok (getpar (cm_letter cm))"
    and "length ms + 1 < msize" "length (concat (map (\<lambda>p. p @ '' '') (mode_params getpar ms))) < psize"
  shows "\<exists>mbuf pbuf. channel_modes channelmodes getpar True hide mode msize psize = Some (mbuf, pbuf)
    \<and> parse_mode_line channelmodes mbuf (Some pbuf)
      = Inr (map (\<lambda>cm. (MODE_ADD, cm_letter cm, if cm_paracount cm \<noteq> 0 then Some (getpar (cm_letter cm)) else None)) ms)"
proof -
  have table: "mode_table channelmodes"
    using assms(1) by unfold_locales
  have "fst (strlcpy [] ''+'' msize) = ''+''"
    using assms(5) by (simp add: fst_strlcpy)
  then have "channel_modes_loop getpar True hide mode msize psize channelmodes (fst (strlcpy [] ''+'' msize), [])
      = (CHR ''+'' # map cm_letter ms, concat (map (\<lambda>p. p @ '' '') (mode_params getpar ms)))"
    using channel_modes_loop_eq [of "''+''" channelmodes hide mode msize "[]" getpar psize] assms(2,5,6) by simp
  moreover have "(if concat (map (\<lambda>p. p @ '' '') (mode_params getpar ms)) \<noteq> []
        then butlast (concat (map (\<lambda>p. p @ '' '') (mode_params getpar ms)))
        else concat (map (\<lambda>p. p @ '' '') (mode_params getpar ms))) = join (mode_params getpar ms)"
    using butlast_join [of "mode_params getpar ms"] by (cases "mode_params getpar ms") simp_all
  ultimately have "channel_modes channelmodes getpar True hide mode msize psize
      = Some (CHR ''+'' # map cm_letter ms, join (mode_params getpar ms))"
    using assms(5,6) by (simp add: channel_modes_def)
  then show ?thesis
    using mode_table.parse_plus_line [OF table, of ms getpar] assms(2-4) by (auto simp: set_modes_def)
qed

theorem mode_line_roundtrip_witness:
  "\<exists>mbuf pbuf. channel_modes sample_modes (\<lambda>c. if c = CHR ''k'' then ''key'' else ''10'') True False 7 20 40 = Some (mbuf, pbuf)
     \<and> parse_mode_line sample_modes mbuf (Some pbuf)
       = Inr [(MODE_ADD, CHR ''k'', Some ''key''), (MODE_ADD, CHR ''l'', Some ''10''), (MODE_ADD, CHR ''n'', None)]"
proof -
  have ms: "set_modes sample_modes False 7 = [normal_cmode (CHR ''k'') 1 1, normal_cmode (CHR ''l'') 2 1, normal_cmode (CHR ''n'') 4 0]"
    by code_simp
  have wf: "table_wf sample_modes"
    by code_simp
  let ?ms = "[normal_cmode (CHR ''k'') 1 1, normal_cmode (CHR ''l'') 2 1, normal_cmode (CHR ''n'') 4 0]"
  have one: "cm_paracount cm \<le> 1" if "cm \<in> set ?ms" for cm
    using that by (auto simp: normal_cmode_def)
  have ok: "param_ok (if cm_letter cm = CHR ''k'' then ''key'' else ''10'')" if "cm \<in> set ?ms" for cm
    by (simp add: param_ok_def)
  show ?thesis
    using mode_line_roundtrip [where getpar = "\<lambda>c. if c = CHR ''k'' then ''key'' else ''10''" and msize = 20 and psize = 40,
        OF wf ms [symmetric] one ok]
    by (simp add: normal_cmode_def mode_params_def)
qed

text \<open>
  C30: Checking a member's modes against what \<^const>\<open>channel_member_modes_generate_equal_or_greater\<close>
  generates answers whether the member has a mode at least as high as one of the required ones.
\<close>

theorem access_by_rank:
  assumes "table_wf channelmodes" "modes \<noteq> []" "list_all (valid_channel_access_mode_letter channelmodes) modes"
    and "length (members channelmodes) < buflen"
  shows "check_channel_access_string current_modes (channel_member_modes_generate_equal_or_greater channelmodes modes buflen)
    \<longleftrightarrow> (\<exists>c \<in> set current_modes. valid_channel_access_mode_letter channelmodes c
          \<and> (\<exists>m \<in> set modes. mode_to_rank channelmodes m \<le> mode_to_rank channelmodes c))"
proof -
  have "mode_table channelmodes"
    using assms(1) by unfold_locales
  then show ?thesis
    using mode_table.generated_modes [of channelmodes modes buflen] assms(2-4)
    by (simp add: check_channel_access_string_def list_ex_iff)
qed

theorem access_by_rank_witness:
  "check_channel_access_string ''qv'' (channel_member_modes_generate_equal_or_greater member_modes ''o'' 64)
   \<and> \<not> check_channel_access_string ''hv'' (channel_member_modes_generate_equal_or_greater member_modes ''o'' 64)"
proof -
  have ok: "list_all (valid_channel_access_mode_letter member_modes) ''o''" "length (members member_modes) < 64"
    by code_simp+
  have q: "valid_channel_access_mode_letter member_modes (CHR ''q'')" "mode_to_rank member_modes (CHR ''o'') \<le> mode_to_rank member_modes (CHR ''q'')"
    and h: "\<not> mode_to_rank member_modes (CHR ''o'') \<le> mode_to_rank member_modes (CHR ''h'')"
    and v: "\<not> mode_to_rank member_modes (CHR ''o'') \<le> mode_to_rank member_modes (CHR ''v'')"
    by code_simp+
  then show ?thesis
    using access_by_rank [OF member_modes_wf _ ok, of "''qv''"] access_by_rank [OF member_modes_wf _ ok, of "''hv''"] by simp
qed

text \<open>
  C31: The prefixes under which the modes of a member are sent to other servers are read back as the same modes in
  the same order.
\<close>

theorem sjoin_prefix_roundtrip:
  assumes "table_wf channelmodes" "list_all (valid_channel_access_mode_letter channelmodes) modes" "length modes < MEMBERMODESLEN"
  shows "map (sjoin_prefix_to_mode channelmodes) (modes_to_sjoin_prefix channelmodes modes) = modes"
proof -
  have "mode_table channelmodes"
    using assms(1) by unfold_locales
  then show ?thesis
    using mode_table.sjoin_roundtrip assms(2,3) by blast
qed

theorem sjoin_prefix_roundtrip_witness:
  "modes_to_sjoin_prefix member_modes ''qao'' = ''*~@''
   \<and> map (sjoin_prefix_to_mode member_modes) (modes_to_sjoin_prefix member_modes ''qao'') = ''qao''"
proof -
  have "list_all (valid_channel_access_mode_letter member_modes) ''qao''" "modes_to_sjoin_prefix member_modes ''qao'' = ''*~@''"
    by code_simp+
  then show ?thesis
    using sjoin_prefix_roundtrip [OF member_modes_wf, of "''qao''"] by (simp add: MEMBERMODESLEN_def)
qed

text \<open>
  A parameter of 512 characters or more with another one behind it is copied past the end of the buffer:
  the clamped length leaves no room for the terminating NUL.
\<close>

theorem long_parameter_overflows:
  assumes "CHR '' '' \<notin> set p" "512 \<le> length p"
  shows "eat_param (Some (p @ '' '' @ q)) = Inl Array_Overflow"
proof -
  have "takeWhile (\<lambda>c. c \<noteq> CHR '' '') (p @ '' '' @ q) = p" "dropWhile (\<lambda>c. c \<noteq> CHR '' '') (p @ '' '' @ q) = '' '' @ q"
    using assms(1) by (auto simp: takeWhile_append dropWhile_append)
  moreover have "dropWhile (\<lambda>c. c = CHR '' '') (p @ '' '' @ q) = p @ '' '' @ q" "p @ '' '' @ q \<noteq> []"
    using assms by (cases p; auto)+
  ultimately show ?thesis
    using assms(2) by (simp add: eat_param_def Let_def)
qed

end
