(* ===== verification/Cmode_Registry.thy ===== *)
theory Cmode_Registry
  imports Channel_Modes
begin

text \<open>
  The registration of channel modes (\<^verbatim>\<open>src/api-channelmode.c\<close>): modules register modes, a mode gets
  its place in the list \<^verbatim>\<open>channelmodes\<close>, a bit of the 64-bit mode word and, if it has a
  parameter, one of the parameter slots. A mode whose module goes away is unset everywhere
  before it leaves the list. Modes are identified by their letter; the handler functions of a mode and
  the messages that announce the changes are left out. The lemmas show that letters, bits and
  slots are never shared and that no channel or member has a mode that is not registered.
\<close>

unbundle bit_operations_syntax

section \<open>The model\<close>

definition MAXPARAMMODES :: nat where
  "MAXPARAMMODES = 16"

record handler =
  h_cm :: cmode
  h_param_slot :: nat
  h_unloaded :: bool

text \<open>
  The registry, the mode word of every channel, and the mode strings of the members of every channel.
\<close>

record mode_state =
  handlers :: "handler list"
  ParamTable :: "nat \<Rightarrow> char option"
  param_to_slot_mapping :: "char \<Rightarrow> nat"
  chan_mode :: "nat \<Rightarrow> 64 word"
  chan_members :: "nat \<Rightarrow> cstring list"

datatype cmode_error = MODERR_EXISTS | MODERR_NOSPACE | MODERR_INVALID

definition extcmode_init :: mode_state where
  "extcmode_init = \<lparr>handlers = [], ParamTable = (\<lambda>_. None), param_to_slot_mapping = (\<lambda>_. 0), chan_mode = (\<lambda>_. 0), chan_members = (\<lambda>_. [])\<rparr>"

definition h_letter :: "handler \<Rightarrow> char" where
  "h_letter h = cm_letter (h_cm h)"

definition channelmodes :: "mode_state \<Rightarrow> cmode list" where
  "channelmodes st = map h_cm (handlers st)"

definition sort_character_lowercase_before_uppercase :: "char \<Rightarrow> char \<Rightarrow> bool" where
  "sort_character_lowercase_before_uppercase x y =
     (if islower x \<and> isupper y then True
      else if isupper x \<and> islower y then False
      else (of_char x :: nat) < of_char y)"

fun channelmode_add_sorted :: "handler \<Rightarrow> handler list \<Rightarrow> fault + handler list" where
  "channelmode_add_sorted n [] = Inr [n]"
| "channelmode_add_sorted n (m # ms) =
     (if h_letter m = NUL then Inl Aborted
      else if sort_character_lowercase_before_uppercase (h_letter n) (h_letter m) then Inr (n # m # ms)
      else map_sum id ((#) m) (channelmode_add_sorted n ms))"

definition free_bit :: "handler list \<Rightarrow> 64 word option" where
  "free_bit hs = find (\<lambda>l. \<not> list_ex (\<lambda>h. cm_mode (h_cm h) = l) hs) (map (\<lambda>i. push_bit i 1) [0..<63])"

definition free_slot :: "mode_state \<Rightarrow> nat option" where
  "free_slot st = find (\<lambda>i. ParamTable st i = None) [0..<MAXPARAMMODES]"

definition extcmode_para_addslot :: "char \<Rightarrow> nat \<Rightarrow> mode_state \<Rightarrow> fault + mode_state" where
  "extcmode_para_addslot letter slot st =
     (if slot > MAXPARAMMODES then Inl Aborted
      else Inr (st\<lparr>ParamTable := (ParamTable st)(slot := Some letter),
                   param_to_slot_mapping := (param_to_slot_mapping st)(letter := slot)\<rparr>))"

definition extcmode_para_delslot :: "char \<Rightarrow> nat \<Rightarrow> mode_state \<Rightarrow> fault + mode_state" where
  "extcmode_para_delslot letter slot st =
     (if slot > MAXPARAMMODES then Inl Aborted
      else Inr (st\<lparr>ParamTable := (ParamTable st)(slot := None),
                   param_to_slot_mapping := (param_to_slot_mapping st)(letter := 0)\<rparr>))"

definition update_handler :: "char \<Rightarrow> (handler \<Rightarrow> handler) \<Rightarrow> mode_state \<Rightarrow> mode_state" where
  "update_handler letter f st = st\<lparr>handlers := map (\<lambda>h. if h_letter h = letter then f h else h) (handlers st)\<rparr>"

text \<open>
  The first part of \<^verbatim>\<open>CmodeAdd\<close>: the entry that the request will fill, a reused or a new one. A new
  entry is in the list from here on; only its letter and bit are set, everything else is zero.
\<close>

definition blank_cmode :: "char \<Rightarrow> 64 word \<Rightarrow> cmode" where
  "blank_cmode letter l =
     \<lparr>cm_letter = letter, cm_type = CMODE_NORMAL, cm_mode = l, cm_prefix = NUL, cm_sjoin_prefix = NUL, cm_rank = 0,
      cm_paracount = 0, cm_unset_with_param = False, cm_local = False\<rparr>"

definition new_entry :: "mode_state \<Rightarrow> char \<Rightarrow> 64 word \<Rightarrow> fault + mode_state" where
  "new_entry st letter l =
     map_sum id (\<lambda>hs. st\<lparr>handlers := hs\<rparr>)
       (channelmode_add_sorted \<lparr>h_cm = blank_cmode letter l, h_param_slot = 0, h_unloaded = False\<rparr> (handlers st))"

definition cmode_entry :: "mode_state \<Rightarrow> cmode \<Rightarrow> fault + mode_state \<times> (cmode_error + bool)" where
  "cmode_entry st req =
     (case find (\<lambda>h. h_letter h = cm_letter req) (handlers st) of
        Some h \<Rightarrow>
          if h_unloaded h then Inr (update_handler (cm_letter req) (\<lambda>h. h\<lparr>h_unloaded := False\<rparr>) st, Inr True)
          else Inr (st, Inl MODERR_EXISTS)
      | None \<Rightarrow>
          (case cm_type req of
             CMODE_NORMAL \<Rightarrow>
               (case free_bit (handlers st) of
                  None \<Rightarrow> Inr (st, Inl MODERR_NOSPACE)
                | Some l \<Rightarrow> map_sum id (\<lambda>st. (st, Inr False)) (new_entry st (cm_letter req) l))
           | CMODE_MEMBER \<Rightarrow>
               if cm_prefix req = NUL \<or> cm_sjoin_prefix req = NUL \<or> cm_paracount req = 0 \<or> \<not> cm_unset_with_param req \<or> cm_rank req = 0
               then Inr (st, Inl MODERR_INVALID)
               else map_sum id (\<lambda>st. (st, Inr False)) (new_entry st (cm_letter req) 0)))"

text \<open>The second part: the parameter slot and the fields.\<close>

definition fill_entry :: "cmode \<Rightarrow> mode_state \<Rightarrow> mode_state" where
  "fill_entry req =
     update_handler (cm_letter req) (\<lambda>h. h\<lparr>h_cm := req\<lparr>cm_mode := cm_mode (h_cm h)\<rparr>, h_unloaded := False\<rparr>)"

definition CmodeAdd :: "mode_state \<Rightarrow> cmode \<Rightarrow> fault + mode_state \<times> cmode_error option" where
  "CmodeAdd st req =
     (case cmode_entry st req of
        Inl e \<Rightarrow> Inl e
      | Inr (st, Inl err) \<Rightarrow> Inr (st, Some err)
      | Inr (st, Inr existing) \<Rightarrow>
          if cm_paracount req = 1 \<and> cm_type req = CMODE_NORMAL then
            (case (if existing then map_option h_param_slot (find (\<lambda>h. h_letter h = cm_letter req) (handlers st)) else free_slot st) of
               None \<Rightarrow> Inr (st, Some MODERR_NOSPACE)
             | Some paraslot \<Rightarrow>
                 (case extcmode_para_addslot (cm_letter req) paraslot (fill_entry req st) of
                    Inl e \<Rightarrow> Inl e
                  | Inr st \<Rightarrow> Inr (update_handler (cm_letter req) (\<lambda>h. h\<lparr>h_param_slot := paraslot\<rparr>) st, None)))
          else Inr (fill_entry req st, None))"

definition unload_extcmode_commit :: "handler \<Rightarrow> mode_state \<Rightarrow> fault + mode_state" where
  "unload_extcmode_commit h st =
     (let cm = h_cm h;
          drop = (\<lambda>st. st\<lparr>handlers := filter (\<lambda>x. h_letter x \<noteq> h_letter h) (handlers st)\<rparr>)
      in case cm_type cm of
           CMODE_NORMAL \<Rightarrow>
             let st = st\<lparr>chan_mode := (\<lambda>c. if chan_mode st c AND cm_mode cm \<noteq> 0 then chan_mode st c AND NOT (cm_mode cm) else chan_mode st c)\<rparr>
             in if cm_paracount cm = 0 then Inr (drop st)
                else map_sum id drop (extcmode_para_delslot (h_letter h) (h_param_slot h) st)
         | CMODE_MEMBER \<Rightarrow>
             Inr (drop (st\<lparr>chan_members := (\<lambda>c. map (\<lambda>s. if cm_letter cm \<in> set s then delletterfromstring s (cm_letter cm) else s)
                                                  (chan_members st c))\<rparr>)))"

definition CmodeDel :: "bool \<Rightarrow> handler \<Rightarrow> mode_state \<Rightarrow> fault + mode_state" where
  "CmodeDel rehashing h st =
     (if rehashing then Inr (update_handler (h_letter h) (\<lambda>h. h\<lparr>h_unloaded := True\<rparr>) st)
      else unload_extcmode_commit h st)"

fun commit_all :: "handler list \<Rightarrow> mode_state \<Rightarrow> fault + mode_state" where
  "commit_all [] st = Inr st"
| "commit_all (h # hs) st =
     (if h_letter h \<noteq> NUL \<and> h_unloaded h
      then (case unload_extcmode_commit h st of Inl e \<Rightarrow> Inl e | Inr st \<Rightarrow> commit_all hs st)
      else commit_all hs st)"

definition unload_all_unused_extcmodes :: "mode_state \<Rightarrow> fault + mode_state" where
  "unload_all_unused_extcmodes st = commit_all (handlers st) st"

text \<open>
  What happens to channels in between: modes are set and unset, members come with modes and go, and
  the \<^verbatim>\<open>MODE\<close> command (\<^verbatim>\<open>src/modules/mode.c\<close>) changes the modes of members.
\<close>

definition member_mode_change :: "cmode list \<Rightarrow> mode_what \<Rightarrow> char \<Rightarrow> cstring \<Rightarrow> cstring" where
  "member_mode_change cms what modechar modes =
     (case what of
        MODE_ADD \<Rightarrow> if modechar \<in> set modes then modes else addlettertomstring cms modes modechar
      | MODE_DEL \<Rightarrow> if modechar \<notin> set modes then modes else delletterfromstring modes modechar)"

inductive mode_step :: "mode_state \<Rightarrow> mode_state \<Rightarrow> bool" where
  add: "mode_step st st'" if "CmodeAdd st req = Inr (st', err)" "cm_letter req \<noteq> NUL" "cm_paracount req \<le> 1"
    "\<And>h. h \<in> set (handlers st) \<Longrightarrow> h_letter h = cm_letter req \<Longrightarrow> h_unloaded h
       \<Longrightarrow> cm_type (h_cm h) = cm_type req \<and> cm_paracount (h_cm h) = cm_paracount req"
| del: "mode_step st st'" if "h \<in> set (handlers st)" "CmodeDel rehashing h st = Inr st'"
| unload: "mode_step st st'" if "unload_all_unused_extcmodes st = Inr st'"
| set_mode: "mode_step st (st\<lparr>chan_mode := (chan_mode st)(c := chan_mode st c OR cm_mode cm)\<rparr>)" if "cm \<in> set (channelmodes st)"
| unset_mode: "mode_step st (st\<lparr>chan_mode := (chan_mode st)(c := chan_mode st c AND NOT (cm_mode cm))\<rparr>)" if "cm \<in> set (channelmodes st)"
| member_mode: "mode_step st (st\<lparr>chan_members := (chan_members st)(c := (chan_members st c)
      [i := member_mode_change (channelmodes st) what letter (chan_members st c ! i)])\<rparr>)" if "i < length (chan_members st c)"
| join: "mode_step st (st\<lparr>chan_members := (chan_members st)(c := [] # chan_members st c)\<rparr>)"
| part: "mode_step st (st\<lparr>chan_members := (chan_members st)(c := take i (chan_members st c) @ drop (Suc i) (chan_members st c))\<rparr>)"

inductive mode_reach :: "mode_state \<Rightarrow> bool" where
  init: "mode_reach extcmode_init"
| step: "mode_reach st \<Longrightarrow> mode_step st st' \<Longrightarrow> mode_reach st'"

section \<open>The invariant\<close>

text \<open>What the invariant says about a mode depends on these of its fields.\<close>

record place =
  p_letter :: char
  p_normal :: bool
  p_param :: nat
  p_bits :: "64 word"
  p_slot :: nat

definition place_of :: "handler \<Rightarrow> place" where
  "place_of h = \<lparr>p_letter = h_letter h, p_normal = (cm_type (h_cm h) = CMODE_NORMAL), p_param = cm_paracount (h_cm h),
     p_bits = cm_mode (h_cm h), p_slot = h_param_slot h\<rparr>"

definition places :: "mode_state \<Rightarrow> place set" where
  "places st = place_of ` set (handlers st)"

definition place_ok :: "place \<Rightarrow> bool" where
  "place_ok p \<longleftrightarrow> p_letter p \<noteq> NUL \<and> p_param p \<le> 1 \<and> (if p_normal p then \<exists>i < 63. p_bits p = push_bit i 1 else p_bits p = 0)"

definition has_slot :: "place \<Rightarrow> bool" where
  "has_slot p \<longleftrightarrow> p_normal p \<and> p_param p = 1"

definition bits_unique :: "place set \<Rightarrow> bool" where
  "bits_unique P \<longleftrightarrow> (\<forall>p \<in> P. \<forall>q \<in> P. p_normal p \<longrightarrow> p_normal q \<longrightarrow> p_bits p = p_bits q \<longrightarrow> p = q)"

definition slots_ok :: "place set \<Rightarrow> (nat \<Rightarrow> char option) \<Rightarrow> (char \<Rightarrow> nat) \<Rightarrow> bool" where
  "slots_ok P table mapping \<longleftrightarrow>
     (\<forall>p \<in> P. has_slot p \<longrightarrow> p_slot p < MAXPARAMMODES \<and> table (p_slot p) = Some (p_letter p) \<and> mapping (p_letter p) = p_slot p)
     \<and> (\<forall>i l. table i = Some l \<longrightarrow> (\<exists>p \<in> P. p_letter p = l \<and> p_slot p = i \<and> has_slot p))"

definition bits_known :: "place set \<Rightarrow> 64 word \<Rightarrow> bool" where
  "bits_known P m \<longleftrightarrow> (\<forall>i. bit m i \<longrightarrow> (\<exists>p \<in> P. p_normal p \<and> p_bits p = push_bit i 1))"

definition letters_known :: "place set \<Rightarrow> cstring \<Rightarrow> bool" where
  "letters_known P s \<longleftrightarrow> distinct s \<and> (\<forall>x \<in> set s. \<exists>p \<in> P. p_letter p = x \<and> \<not> p_normal p)"

definition mode_inv :: "mode_state \<Rightarrow> bool" where
  "mode_inv st \<longleftrightarrow>
     distinct (map h_letter (handlers st)) \<and> (\<forall>p \<in> places st. place_ok p) \<and> bits_unique (places st)
     \<and> slots_ok (places st) (ParamTable st) (param_to_slot_mapping st)
     \<and> (\<forall>c. bits_known (places st) (chan_mode st c)) \<and> (\<forall>c. \<forall>s \<in> set (chan_members st c). letters_known (places st) s)"

lemma places_letter: "p_letter ` places st = h_letter ` set (handlers st)"
  by (simp add: places_def place_of_def image_image)

lemma add_sorted_split: "channelmode_add_sorted n hs = Inr hs' \<Longrightarrow> \<exists>xs ys. hs = xs @ ys \<and> hs' = xs @ n # ys"
proof (induction hs arbitrary: hs')
  case (Cons m ms)
  show ?case
  proof (cases "sort_character_lowercase_before_uppercase (h_letter n) (h_letter m)")
    case True
    then show ?thesis
      using Cons.prems by (simp split: if_splits) blast
  next
    case False
    then obtain ms' where "channelmode_add_sorted n ms = Inr ms'" "hs' = m # ms'"
      using Cons.prems by (cases "channelmode_add_sorted n ms") (auto split: if_splits)
    then show ?thesis
      using Cons.IH [of ms'] by (metis append_Cons)
  qed
qed simp

lemma add_sorted_total: "\<forall>h \<in> set hs. h_letter h \<noteq> NUL \<Longrightarrow> \<exists>hs'. channelmode_add_sorted n hs = Inr hs'"
  by (induction hs) auto

lemma update_split:
  assumes "handlers st = xs @ n # ys" "h_letter n = l" "\<forall>h \<in> set xs \<union> set ys. h_letter h \<noteq> l"
  shows "update_handler l f st = st\<lparr>handlers := xs @ f n # ys\<rparr>"
  using assms by (auto simp: update_handler_def map_idI)

lemma free_bit_fresh:
  assumes "free_bit hs = Some l"
  shows "(\<exists>i < 63. l = push_bit i 1) \<and> (\<forall>h \<in> set hs. cm_mode (h_cm h) \<noteq> l)"
  using find_SomeD [OF assms [unfolded free_bit_def]] by (auto simp: list_ex_iff)

lemma free_slot_free:
  assumes "free_slot st = Some i"
  shows "i < MAXPARAMMODES \<and> ParamTable st i = None"
  using find_SomeD [OF assms [unfolded free_slot_def]] by simp

lemma push_bit_1_inj: "i < 64 \<Longrightarrow> j < 64 \<Longrightarrow> push_bit i (1 :: 64 word) = push_bit j 1 \<longleftrightarrow> i = j"
  by (auto simp: bit_eq_iff bit_simps)

lemma bit_push_1: "bit (push_bit i (1 :: 64 word)) j \<longleftrightarrow> j = i \<and> i < 64"
  by (auto simp: bit_simps)

text \<open>The three ways in which the list of modes changes: an entry is replaced, added or removed.\<close>

lemma replace_inv:
  assumes "mode_inv st" "handlers st = xs @ h # ys" "place_of e = place_of h"
  shows "mode_inv (st\<lparr>handlers := xs @ e # ys\<rparr>)"
proof -
  have "places (st\<lparr>handlers := xs @ e # ys\<rparr>) = places st" "h_letter e = h_letter h"
    using assms(2,3) by (auto simp: places_def place_of_def)
  then show ?thesis
    using assms(1,2) by (simp add: mode_inv_def)
qed

lemma bits_known_mono: "P \<subseteq> Q \<Longrightarrow> bits_known P m \<Longrightarrow> bits_known Q m"
  by (auto simp: bits_known_def) blast

lemma letters_known_mono: "P \<subseteq> Q \<Longrightarrow> letters_known P s \<Longrightarrow> letters_known Q s"
  by (auto simp: letters_known_def) blast

lemma insert_inv:
  assumes inv: "mode_inv st" and hs: "handlers st = xs @ ys" and ok: "place_ok (place_of e)"
    and letter: "h_letter e \<notin> h_letter ` set (handlers st)"
    and bits: "p_normal (place_of e) \<Longrightarrow> \<forall>p \<in> places st. p_bits p \<noteq> p_bits (place_of e)"
    and slot: "if has_slot (place_of e)
      then h_param_slot e < MAXPARAMMODES \<and> ParamTable st (h_param_slot e) = None
        \<and> table = (ParamTable st)(h_param_slot e := Some (h_letter e))
        \<and> mapping = (param_to_slot_mapping st)(h_letter e := h_param_slot e)
      else table = ParamTable st \<and> mapping = param_to_slot_mapping st"
  shows "mode_inv (st\<lparr>handlers := xs @ e # ys, ParamTable := table, param_to_slot_mapping := mapping\<rparr>)"
proof -
  let ?st = "st\<lparr>handlers := xs @ e # ys, ParamTable := table, param_to_slot_mapping := mapping\<rparr>"
  have P: "places ?st = insert (place_of e) (places st)"
    using hs by (auto simp: places_def)
  have fresh: "\<forall>p \<in> places st. p_letter p \<noteq> h_letter e"
    using letter places_letter [of st] by (metis image_eqI)
  have e: "p_letter (place_of e) = h_letter e" "p_slot (place_of e) = h_param_slot e"
    by (simp_all add: place_of_def)
  have "distinct (map h_letter (xs @ e # ys))"
    using inv letter hs by (auto simp: mode_inv_def)
  moreover have "bits_unique (insert (place_of e) (places st))"
    using inv bits by (auto simp: mode_inv_def bits_unique_def)
  moreover have "slots_ok (insert (place_of e) (places st)) table mapping"
  proof (cases "has_slot (place_of e)")
    case True
    then show ?thesis
      using slot inv fresh e by (auto simp: mode_inv_def slots_ok_def)
  next
    case False
    then show ?thesis
      using slot inv by (auto simp: mode_inv_def slots_ok_def)
  qed
  ultimately show ?thesis
    using inv ok unfolding mode_inv_def P
    by (auto intro: bits_known_mono [OF subset_insertI] letters_known_mono [OF subset_insertI])
qed

lemma reuse_inv:
  assumes inv: "mode_inv st" and h: "h \<in> set (handlers st)" "h_letter h = cm_letter req" "h_unloaded h"
    and kind: "cm_type (h_cm h) = cm_type req" "cm_paracount (h_cm h) = cm_paracount req"
    and find: "find (\<lambda>h. h_letter h = cm_letter req) (handlers st) = Some h"
    and add: "CmodeAdd st req = Inr (st', err)"
  shows "mode_inv st'"
proof -
  obtain xs ys where hs: "handlers st = xs @ h # ys"
    using h(1) by (meson split_list)
  have other: "\<forall>x \<in> set xs \<union> set ys. h_letter x \<noteq> cm_letter req"
    using inv h(2) unfolding mode_inv_def hs by (auto simp: image_iff)
  let ?h1 = "h\<lparr>h_unloaded := False\<rparr>"
  let ?e = "h\<lparr>h_cm := req\<lparr>cm_mode := cm_mode (h_cm h)\<rparr>, h_unloaded := False\<rparr>"
  have e: "place_of ?e = place_of h" "h_letter ?e = cm_letter req" "h_letter ?h1 = cm_letter req"
    using h(2) kind by (simp_all add: place_of_def h_letter_def)
  have step1: "update_handler (cm_letter req) (\<lambda>h. h\<lparr>h_unloaded := False\<rparr>) st = st\<lparr>handlers := xs @ ?h1 # ys\<rparr>"
    using update_split [OF hs h(2) other] .
  have fill: "fill_entry req (st\<lparr>handlers := xs @ ?h1 # ys\<rparr>) = st\<lparr>handlers := xs @ ?e # ys\<rparr>"
    unfolding fill_entry_def using e(3) other by (subst update_split [where n = ?h1 and xs = xs and ys = ys]) simp_all
  have entry: "cmode_entry st req = Inr (st\<lparr>handlers := xs @ ?h1 # ys\<rparr>, Inr True)"
    using find h(3) step1 by (simp add: cmode_entry_def)
  have find1: "find (\<lambda>h. h_letter h = cm_letter req) (xs @ ?h1 # ys) = Some ?h1"
    using other e(3) by (auto simp: find_append find_None_iff split: option.splits dest: find_SomeD)
  have "st' = st\<lparr>handlers := xs @ ?e # ys\<rparr>"
  proof (cases "cm_paracount req = 1 \<and> cm_type req = CMODE_NORMAL")
    case True
    have "place_of h \<in> places st"
      using h(1) by (simp add: places_def)
    moreover have "has_slot (place_of h)"
      using True kind by (simp add: has_slot_def place_of_def)
    ultimately have slot: "h_param_slot h < MAXPARAMMODES" "ParamTable st (h_param_slot h) = Some (cm_letter req)"
        "param_to_slot_mapping st (cm_letter req) = h_param_slot h"
      using inv h(2) unfolding mode_inv_def slots_ok_def by (auto simp: place_of_def)
    have "extcmode_para_addslot (cm_letter req) (h_param_slot h) (st\<lparr>handlers := xs @ ?e # ys\<rparr>) = Inr (st\<lparr>handlers := xs @ ?e # ys\<rparr>)"
      using slot by (simp add: extcmode_para_addslot_def fun_upd_idem)
    moreover have "update_handler (cm_letter req) (\<lambda>x. x\<lparr>h_param_slot := h_param_slot h\<rparr>) (st\<lparr>handlers := xs @ ?e # ys\<rparr>)
        = st\<lparr>handlers := xs @ ?e # ys\<rparr>"
      using e(2) other by (subst update_split [where n = ?e and xs = xs and ys = ys]) simp_all
    ultimately show ?thesis
      using add True by (simp add: CmodeAdd_def entry find1 fill)
  next
    case False
    then show ?thesis
      using add by (auto simp: CmodeAdd_def entry fill)
  qed
  then show ?thesis
    using replace_inv [OF inv hs e(1)] by simp
qed

lemma new_entry_split:
  assumes "new_entry st letter l = Inr st1"
  obtains xs ys where "handlers st = xs @ ys"
    "st1 = st\<lparr>handlers := xs @ \<lparr>h_cm = blank_cmode letter l, h_param_slot = 0, h_unloaded = False\<rparr> # ys\<rparr>"
proof -
  obtain hs where hs: "channelmode_add_sorted \<lparr>h_cm = blank_cmode letter l, h_param_slot = 0, h_unloaded = False\<rparr> (handlers st) = Inr hs"
    "st1 = st\<lparr>handlers := hs\<rparr>"
    using assms unfolding new_entry_def
    by (cases "channelmode_add_sorted \<lparr>h_cm = blank_cmode letter l, h_param_slot = 0, h_unloaded = False\<rparr> (handlers st)") auto
  then show ?thesis
    using add_sorted_split [OF hs(1)] that by blast
qed

text \<open>A new entry with the bits \<open>l\<close>, which are zero for member modes.\<close>

lemma fresh_inv:
  assumes inv: "mode_inv st" and letter: "cm_letter req \<notin> h_letter ` set (handlers st)" "cm_letter req \<noteq> NUL" "cm_paracount req \<le> 1"
    and bits: "if cm_type req = CMODE_NORMAL then (\<exists>i < 63. l = push_bit i 1) \<and> (\<forall>p \<in> places st. p_bits p \<noteq> l) else l = 0"
    and new: "new_entry st (cm_letter req) l = Inr st1"
    and entry: "cmode_entry st req = Inr (st1, Inr False)" and add: "CmodeAdd st req = Inr (st', err)"
  shows "mode_inv st'"
proof -
  let ?b = "\<lparr>h_cm = blank_cmode (cm_letter req) l, h_param_slot = 0, h_unloaded = False\<rparr>"
  obtain xs ys where hs: "handlers st = xs @ ys" "st1 = st\<lparr>handlers := xs @ ?b # ys\<rparr>"
    by (rule new_entry_split [OF new])
  have other: "\<forall>x \<in> set xs \<union> set ys. h_letter x \<noteq> cm_letter req"
    using letter(1) unfolding hs(1) set_append by (metis image_eqI)
  define e where "e = (\<lambda>s. \<lparr>h_cm = req\<lparr>cm_mode := l\<rparr>, h_param_slot = s, h_unloaded = False\<rparr>)"
  have e: "h_letter (e s) = cm_letter req" "h_letter ?b = cm_letter req" "place_ok (place_of (e s))"
    "p_bits (place_of (e s)) = l" "p_normal (place_of (e s)) \<longleftrightarrow> cm_type req = CMODE_NORMAL" for s
    using letter(2,3) bits by (auto simp: e_def h_letter_def blank_cmode_def place_ok_def place_of_def)
  have fill: "fill_entry req st1 = st\<lparr>handlers := xs @ e 0 # ys\<rparr>"
    unfolding fill_entry_def hs(2) using e(2) other
    by (subst update_split [where n = ?b and xs = xs and ys = ys]) (simp_all add: e_def blank_cmode_def)
  show ?thesis
  proof (cases "cm_paracount req = 1 \<and> cm_type req = CMODE_NORMAL")
    case slot: True
    show ?thesis
    proof (cases "free_slot st1")
      case None
      then have "st' = st1"
        using add slot by (simp add: CmodeAdd_def entry)
      moreover have "mode_inv (st\<lparr>handlers := xs @ ?b # ys, ParamTable := ParamTable st, param_to_slot_mapping := param_to_slot_mapping st\<rparr>)"
        using letter bits slot e(2)
        by (intro insert_inv [OF inv hs(1)]) (auto simp: place_ok_def place_of_def has_slot_def blank_cmode_def h_letter_def)
      ultimately show ?thesis
        using hs(2) by simp
    next
      case (Some i)
      then have i: "i < MAXPARAMMODES" "ParamTable st i = None"
        using free_slot_free [of st1 i] hs(2) by simp_all
      have "update_handler (cm_letter req) (\<lambda>h. h\<lparr>h_param_slot := i\<rparr>)
          (st\<lparr>handlers := xs @ e 0 # ys, ParamTable := t, param_to_slot_mapping := m\<rparr>)
        = st\<lparr>handlers := xs @ e i # ys, ParamTable := t, param_to_slot_mapping := m\<rparr>" for t m
        using e(1) other by (subst update_split [where n = "e 0" and xs = xs and ys = ys]) (simp_all add: e_def)
      then have "st' = st\<lparr>handlers := xs @ e i # ys, ParamTable := (ParamTable st)(i := Some (cm_letter req)),
          param_to_slot_mapping := (param_to_slot_mapping st)(cm_letter req := i)\<rparr>"
        using add slot Some i(1) by (simp add: CmodeAdd_def entry fill extcmode_para_addslot_def)
      moreover have "has_slot (place_of (e i))" "h_param_slot (e i) = i"
        using slot by (simp_all add: e_def has_slot_def place_of_def)
      ultimately show ?thesis
        using i letter bits e by (simp only:, intro insert_inv [OF inv hs(1)]) simp_all
    qed
  next
    case noslot: False
    then have "st' = st\<lparr>handlers := xs @ e 0 # ys, ParamTable := ParamTable st, param_to_slot_mapping := param_to_slot_mapping st\<rparr>"
      using add by (auto simp: CmodeAdd_def entry fill)
    moreover have "\<not> has_slot (place_of (e 0))"
      using noslot by (auto simp: e_def has_slot_def place_of_def)
    ultimately show ?thesis
      using letter bits e by (simp only:, intro insert_inv [OF inv hs(1)]) simp_all
  qed
qed

lemma CmodeAdd_inv:
  assumes "mode_inv st" "CmodeAdd st req = Inr (st', err)" "cm_letter req \<noteq> NUL" "cm_paracount req \<le> 1"
    and kind: "\<And>h. h \<in> set (handlers st) \<Longrightarrow> h_letter h = cm_letter req \<Longrightarrow> h_unloaded h
       \<Longrightarrow> cm_type (h_cm h) = cm_type req \<and> cm_paracount (h_cm h) = cm_paracount req"
  shows "mode_inv st'"
proof (cases "find (\<lambda>h. h_letter h = cm_letter req) (handlers st)")
  case (Some h)
  then have h: "h \<in> set (handlers st)" "h_letter h = cm_letter req"
    using find_SomeD by fast+
  show ?thesis
  proof (cases "h_unloaded h")
    case True
    then show ?thesis
      using reuse_inv [OF assms(1) h True _ _ Some assms(2)] kind [OF h True] by blast
  next
    case False
    then show ?thesis
      using assms(1,2) Some by (auto simp: CmodeAdd_def cmode_entry_def)
  qed
next
  case None
  then have letter: "cm_letter req \<notin> h_letter ` set (handlers st)"
    by (auto simp: find_None_iff)
  show ?thesis
  proof (cases "cm_type req")
    case CMODE_NORMAL
    show ?thesis
    proof (cases "free_bit (handlers st)")
      case None
      then show ?thesis
        using assms(1,2) \<open>find _ _ = None\<close> CMODE_NORMAL by (simp add: CmodeAdd_def cmode_entry_def)
    next
      case (Some l)
      then have l: "(\<exists>i < 63. l = push_bit i 1) \<and> (\<forall>p \<in> places st. p_bits p \<noteq> l)"
        using free_bit_fresh by (auto simp: places_def place_of_def)
      obtain st1 where "new_entry st (cm_letter req) l = Inr st1"
        using assms(2) \<open>find _ _ = None\<close> CMODE_NORMAL Some
        by (cases "new_entry st (cm_letter req) l") (auto simp: CmodeAdd_def cmode_entry_def)
      then show ?thesis
        using fresh_inv [OF assms(1) letter assms(3,4) _ _ _ assms(2), of l st1] l \<open>find _ _ = None\<close> CMODE_NORMAL Some
        by (simp add: cmode_entry_def)
    qed
  next
    case CMODE_MEMBER
    show ?thesis
    proof (cases "new_entry st (cm_letter req) 0")
      case (Inl f)
      then show ?thesis
        using assms(1,2) \<open>find _ _ = None\<close> CMODE_MEMBER by (auto simp: CmodeAdd_def cmode_entry_def split: if_splits)
    next
      case (Inr st1)
      then show ?thesis
        using fresh_inv [OF assms(1) letter assms(3,4) _ Inr _ assms(2)] assms(1,2) \<open>find _ _ = None\<close> CMODE_MEMBER
        by (cases "cm_prefix req = NUL \<or> cm_sjoin_prefix req = NUL \<or> cm_paracount req = 0 \<or> \<not> cm_unset_with_param req \<or> cm_rank req = 0")
          (simp_all add: cmode_entry_def CmodeAdd_def)
    qed
  qed
qed

section \<open>Every step keeps the invariant\<close>

lemma p_letter_place: "p_letter (place_of h) = h_letter h"
  by (simp add: place_of_def)

lemma place_unique:
  assumes "mode_inv st" "h \<in> set (handlers st)" "p \<in> places st" "p_letter p = h_letter h"
  shows "p = place_of h"
proof -
  obtain h' where h': "h' \<in> set (handlers st)" "p = place_of h'"
    using assms(3) by (auto simp: places_def)
  then have "h_letter h' = h_letter h"
    using assms(4) by (simp add: place_of_def)
  then have "h' = h"
    using assms(1,2) h'(1) unfolding mode_inv_def by (auto simp: distinct_map dest: inj_onD)
  then show ?thesis
    using h'(2) by simp
qed

lemma delletter_distinct: "distinct s \<Longrightarrow> distinct (delletterfromstring s l) \<and> set (delletterfromstring s l) = set s - {l}"
  by (induction s) auto

lemma bits_unique_subset: "P \<subseteq> Q \<Longrightarrow> bits_unique Q \<Longrightarrow> bits_unique P"
  unfolding bits_unique_def by blast

lemma remove_inv:
  assumes inv: "mode_inv st" and hs: "handlers st' = filter (\<lambda>x. h_letter x \<noteq> h_letter h) (handlers st)"
    and slots: "slots_ok {p \<in> places st. p_letter p \<noteq> h_letter h} (ParamTable st') (param_to_slot_mapping st')"
    and bits: "\<forall>c. bits_known {p \<in> places st. p_letter p \<noteq> h_letter h} (chan_mode st' c)"
    and letters: "\<forall>c. \<forall>s \<in> set (chan_members st' c). letters_known {p \<in> places st. p_letter p \<noteq> h_letter h} s"
  shows "mode_inv st'"
proof -
  have "places st' = {p \<in> places st. p_letter p \<noteq> h_letter h}"
    using hs by (auto simp: places_def p_letter_place)
  then show ?thesis
    using inv hs slots bits letters bits_unique_subset [of "{p \<in> places st. p_letter p \<noteq> h_letter h}" "places st"]
    by (simp add: mode_inv_def distinct_map_filter)
qed

lemma bits_known_other:
  assumes "mode_inv st" "h \<in> set (handlers st)" "is_bit_of = cm_mode (h_cm h)" "bits_known (places st) m"
    and "cm_type (h_cm h) = CMODE_NORMAL"
  shows "bits_known {p \<in> places st. p_letter p \<noteq> h_letter h} (m AND NOT is_bit_of)"
  unfolding bits_known_def
proof (intro allI impI)
  fix i
  assume i: "bit (m AND NOT is_bit_of) i"
  then obtain p where p: "p \<in> places st" "p_normal p" "p_bits p = push_bit i 1"
    using assms(4) by (auto simp: bits_known_def bit_simps)
  have "i < 64"
    using i by (auto simp: bit_simps)
  have "p_letter p \<noteq> h_letter h"
  proof
    assume "p_letter p = h_letter h"
    then have "p = place_of h"
      by (rule place_unique [OF assms(1,2) p(1)])
    then show False
      using i p(3) assms(3) \<open>i < 64\<close> by (simp add: place_of_def bit_and_iff bit_not_iff bit_exp_iff)
  qed
  then show "\<exists>p \<in> {p \<in> places st. p_letter p \<noteq> h_letter h}. p_normal p \<and> p_bits p = push_bit i 1"
    using p by blast
qed

lemma letters_known_diff:
  assumes "letters_known P s" "l \<notin> set s"
  shows "letters_known {p \<in> P. p_letter p \<noteq> l} s"
  unfolding letters_known_def
proof (intro conjI ballI)
  fix x
  assume "x \<in> set s"
  then obtain p where "p \<in> P" "p_letter p = x" "\<not> p_normal p" "x \<noteq> l"
    using assms by (auto simp: letters_known_def)
  then show "\<exists>p \<in> {p \<in> P. p_letter p \<noteq> l}. p_letter p = x \<and> \<not> p_normal p"
    by blast
qed (use assms(1) in \<open>simp add: letters_known_def\<close>)

lemma letters_known_subset: "letters_known P s \<Longrightarrow> set t \<subseteq> set s \<Longrightarrow> distinct t \<Longrightarrow> letters_known P t"
  unfolding letters_known_def by blast

lemma letters_known_other:
  assumes "mode_inv st" "h \<in> set (handlers st)" "letters_known (places st) s" "h_letter h \<in> set s \<longrightarrow> cm_type (h_cm h) = CMODE_NORMAL"
  shows "letters_known {p \<in> places st. p_letter p \<noteq> h_letter h} s"
proof -
  have "h_letter h \<notin> set s"
  proof
    assume "h_letter h \<in> set s"
    then obtain p where p: "p \<in> places st" "p_letter p = h_letter h" "\<not> p_normal p"
      using assms(3) by (auto simp: letters_known_def)
    have "p = place_of h"
      by (rule place_unique [OF assms(1,2) p(1,2)])
    then show False
      using p(3) assms(4) \<open>h_letter h \<in> set s\<close> by (simp add: place_of_def)
  qed
  then show ?thesis
    by (rule letters_known_diff [OF assms(3)])
qed

lemma and_not_bits: "(if m AND b \<noteq> 0 then m AND NOT b else m) = m AND NOT (b :: 64 word)"
proof (cases "m AND b = 0")
  case True
  then have "bit (m AND b) i = False" for i
    by simp
  then have "m AND NOT b = m"
    by (auto simp: bit_eq_iff bit_simps)
  then show ?thesis
    using True by simp
qed simp

lemma slots_remove_plain:
  assumes "mode_inv st" "h \<in> set (handlers st)" "\<not> has_slot (place_of h)"
  shows "slots_ok {p \<in> places st. p_letter p \<noteq> h_letter h} (ParamTable st) (param_to_slot_mapping st)"
proof -
  have "p_letter p \<noteq> h_letter h" if "p \<in> places st" "has_slot p" for p
    using place_unique [OF assms(1,2) that(1)] assms(3) that(2) by blast
  then show ?thesis
    using assms(1) unfolding mode_inv_def slots_ok_def by blast
qed

lemma slots_remove:
  assumes "mode_inv st" "h \<in> set (handlers st)" "has_slot (place_of h)"
  shows "slots_ok {p \<in> places st. p_letter p \<noteq> h_letter h} ((ParamTable st)(h_param_slot h := None))
    ((param_to_slot_mapping st)(h_letter h := 0))"
proof -
  have ok: "slots_ok (places st) (ParamTable st) (param_to_slot_mapping st)" "place_of h \<in> places st"
    using assms by (simp_all add: mode_inv_def places_def)
  then have h: "ParamTable st (h_param_slot h) = Some (h_letter h)"
    using assms(3) unfolding slots_ok_def by (auto simp: place_of_def)
  have other: "p_slot p \<noteq> h_param_slot h" if "p \<in> places st" "has_slot p" "p_letter p \<noteq> h_letter h" for p
    using ok(1) that h unfolding slots_ok_def by force
  have mine: "p_slot p = h_param_slot h" if "p \<in> places st" "p_letter p = h_letter h" for p
    using place_unique [OF assms(1,2) that] by (simp add: place_of_def)
  have "\<exists>p \<in> {p \<in> places st. p_letter p \<noteq> h_letter h}. p_letter p = l \<and> p_slot p = i \<and> has_slot p"
    if "((ParamTable st)(h_param_slot h := None)) i = Some l" for i l
  proof -
    have i: "i \<noteq> h_param_slot h" "ParamTable st i = Some l"
      using that by (auto split: if_splits)
    then obtain p where "p \<in> places st" "p_letter p = l" "p_slot p = i" "has_slot p"
      using ok(1) unfolding slots_ok_def by blast
    then show ?thesis
      using mine i(1) by blast
  qed
  then show ?thesis
    using ok(1) other unfolding slots_ok_def by simp
qed

lemma commit_inv:
  assumes inv: "mode_inv st" and h: "h \<in> set (handlers st)"
  shows "\<exists>st'. unload_extcmode_commit h st = Inr st' \<and> mode_inv st'
    \<and> handlers st' = filter (\<lambda>x. h_letter x \<noteq> h_letter h) (handlers st)"
proof -
  let ?P = "{p \<in> places st. p_letter p \<noteq> h_letter h}"
  have place: "place_of h \<in> places st" "place_ok (place_of h)"
    using inv h by (auto simp: mode_inv_def places_def)
  have bits: "\<forall>c. bits_known (places st) (chan_mode st c)" and letters: "\<forall>c. \<forall>s \<in> set (chan_members st c). letters_known (places st) s"
    using inv by (simp_all add: mode_inv_def)
  show ?thesis
  proof (cases "cm_type (h_cm h)")
    case CMODE_NORMAL
    have b: "\<forall>c. bits_known ?P (chan_mode st c AND NOT (cm_mode (h_cm h)))"
      using bits_known_other [OF inv h refl _ CMODE_NORMAL] bits by blast
    have l: "\<forall>c. \<forall>s \<in> set (chan_members st c). letters_known ?P s"
      using letters_known_other [OF inv h] letters CMODE_NORMAL by blast
    show ?thesis
    proof (cases "cm_paracount (h_cm h) = 0")
      case True
      then have "\<not> has_slot (place_of h)"
        by (simp add: has_slot_def place_of_def)
      then show ?thesis
        using slots_remove_plain [OF inv h] b l True CMODE_NORMAL
        by (auto simp: unload_extcmode_commit_def Let_def and_not_bits intro: remove_inv [OF inv, where h = h])
    next
      case False
      then have slot: "has_slot (place_of h)"
        using place(2) CMODE_NORMAL by (simp add: has_slot_def place_of_def place_ok_def)
      then have "h_param_slot h < MAXPARAMMODES"
        using inv place(1) unfolding mode_inv_def slots_ok_def by (auto simp: place_of_def)
      then show ?thesis
        using slots_remove [OF inv h slot] b l False CMODE_NORMAL
        by (auto simp: unload_extcmode_commit_def Let_def and_not_bits extcmode_para_delslot_def intro: remove_inv [OF inv, where h = h])
    qed
  next
    case CMODE_MEMBER
    then have noslot: "\<not> has_slot (place_of h)" and zero: "cm_mode (h_cm h) = 0"
      using place(2) by (simp_all add: has_slot_def place_of_def place_ok_def)
    have b: "\<forall>c. bits_known ?P (chan_mode st c)"
    proof (intro allI)
      fix c
      have "p_letter p \<noteq> h_letter h" if "p \<in> places st" "p_normal p" for p
        using place_unique [OF inv h that(1)] that(2) CMODE_MEMBER by (auto simp: place_of_def)
      then show "bits_known ?P (chan_mode st c)"
        using bits unfolding bits_known_def by blast
    qed
    have "letters_known ?P (if h_letter h \<in> set s then delletterfromstring s (h_letter h) else s)"
      if "letters_known (places st) s" for s
    proof (rule letters_known_diff)
      have "distinct s"
        using that by (simp add: letters_known_def)
      then show "h_letter h \<notin> set (if h_letter h \<in> set s then delletterfromstring s (h_letter h) else s)"
        using delletter_distinct by simp
      show "letters_known (places st) (if h_letter h \<in> set s then delletterfromstring s (h_letter h) else s)"
        using that letters_known_subset [OF that] delletter_distinct [OF \<open>distinct s\<close>] by auto
    qed
    then have l: "\<forall>c. \<forall>s \<in> set (map (\<lambda>s. if h_letter h \<in> set s then delletterfromstring s (h_letter h) else s) (chan_members st c)).
        letters_known ?P s"
      using letters by (simp only: set_map ball_simps) blast
    let ?st = "st\<lparr>chan_members := (\<lambda>c. map (\<lambda>s. if h_letter h \<in> set s then delletterfromstring s (h_letter h) else s) (chan_members st c)),
        handlers := filter (\<lambda>x. h_letter x \<noteq> h_letter h) (handlers st)\<rparr>"
    have "mode_inv ?st"
    proof (rule remove_inv [OF inv])
      show "\<forall>c. \<forall>s \<in> set (chan_members ?st c). letters_known ?P s"
        using l by simp
    qed (use slots_remove_plain [OF inv h noslot] b in simp_all)
    then show ?thesis
      using CMODE_MEMBER unfolding unload_extcmode_commit_def Let_def h_letter_def by simp
  qed
qed

text \<open>The modes whose module is gone leave the list, and only those.\<close>

lemma commit_all_inv:
  assumes "mode_inv st" "distinct (map h_letter hs)" "set hs \<subseteq> set (handlers st)"
  shows "\<exists>st'. commit_all hs st = Inr st' \<and> mode_inv st'
    \<and> handlers st' = filter (\<lambda>x. \<not> (h_unloaded x \<and> x \<in> set hs)) (handlers st)"
  using assms
proof (induction hs arbitrary: st)
  case (Cons h hs)
  have h: "h \<in> set (handlers st)" and letters: "distinct (map h_letter (handlers st))" and nul: "h_letter h \<noteq> NUL"
    using Cons.prems by (auto simp: mode_inv_def places_def place_ok_def place_of_def)
  show ?case
  proof (cases "h_unloaded h")
    case True
    obtain st1 where st1: "unload_extcmode_commit h st = Inr st1" "mode_inv st1"
        "handlers st1 = filter (\<lambda>x. h_letter x \<noteq> h_letter h) (handlers st)"
      using commit_inv [OF Cons.prems(1) h] by blast
    have "set hs \<subseteq> set (handlers st1)"
      using Cons.prems(2,3) st1(3) by (auto simp: image_iff)
    from Cons.IH [OF st1(2) _ this] Cons.prems(2) obtain st' where st': "commit_all hs st1 = Inr st'" "mode_inv st'"
        "handlers st' = filter (\<lambda>x. \<not> (h_unloaded x \<and> x \<in> set hs)) (handlers st1)"
      by auto
    have same: "h_letter x \<noteq> h_letter h \<longleftrightarrow> x \<noteq> h" if "x \<in> set (handlers st)" for x
      using letters h that by (auto simp: distinct_map dest: inj_onD)
    have "handlers st' = filter (\<lambda>x. \<not> (h_unloaded x \<and> x \<in> set (h # hs))) (handlers st)"
      using same True by (auto simp: st'(3) st1(3) intro: filter_cong)
    then show ?thesis
      using st1(1) st'(1,2) True nul by auto
  next
    case False
    then have "filter (\<lambda>x. \<not> (h_unloaded x \<and> x \<in> set (h # hs))) (handlers st) = filter (\<lambda>x. \<not> (h_unloaded x \<and> x \<in> set hs)) (handlers st)"
      by (auto intro: filter_cong)
    then show ?thesis
      using Cons.IH [OF Cons.prems(1)] Cons.prems(2,3) False by simp
  qed
qed simp

lemma unload_all_inv:
  assumes "mode_inv st"
  shows "\<exists>st'. unload_all_unused_extcmodes st = Inr st' \<and> mode_inv st' \<and> handlers st' = filter (\<lambda>x. \<not> h_unloaded x) (handlers st)"
proof -
  have "filter (\<lambda>x. \<not> (h_unloaded x \<and> x \<in> set (handlers st))) (handlers st) = filter (\<lambda>x. \<not> h_unloaded x) (handlers st)"
    by (auto intro: filter_cong)
  then show ?thesis
    using commit_all_inv [OF assms _ subset_refl] assms by (simp add: unload_all_unused_extcmodes_def mode_inv_def)
qed

lemma del_inv:
  assumes inv: "mode_inv st" and h: "h \<in> set (handlers st)"
  shows "\<exists>st'. CmodeDel rehashing h st = Inr st' \<and> mode_inv st'"
proof (cases rehashing)
  case True
  obtain xs ys where hs: "handlers st = xs @ h # ys"
    using h by (meson split_list)
  have "\<forall>x \<in> set xs \<union> set ys. h_letter x \<noteq> h_letter h"
    using inv unfolding mode_inv_def hs by (auto simp: image_iff)
  moreover have "place_of (h\<lparr>h_unloaded := True\<rparr>) = place_of h"
    by (simp add: place_of_def h_letter_def)
  ultimately show ?thesis
    using True replace_inv [OF inv hs] update_split [OF hs refl] by (simp add: CmodeDel_def)
next
  case False
  then show ?thesis
    using commit_inv [OF assms] by (auto simp: CmodeDel_def)
qed

text \<open>Changes of channels and members leave the list of modes alone.\<close>

lemma channel_inv:
  assumes "mode_inv st" "bits_known (places st) m"
  shows "mode_inv (st\<lparr>chan_mode := (chan_mode st)(c := m)\<rparr>)"
  using assms by (simp add: mode_inv_def places_def)

lemma member_inv:
  assumes "mode_inv st" "\<forall>s \<in> set ss. letters_known (places st) s"
  shows "mode_inv (st\<lparr>chan_members := (chan_members st)(c := ss)\<rparr>)"
  using assms by (simp add: mode_inv_def places_def)

lemma inv_known:
  assumes "mode_inv st"
  shows "bits_known (places st) (chan_mode st c)" "s \<in> set (chan_members st c) \<Longrightarrow> letters_known (places st) s"
  using assms by (auto simp: mode_inv_def)

lemma set_bits_known:
  assumes "mode_inv st" "cm \<in> set (channelmodes st)" "bits_known (places st) m"
  shows "bits_known (places st) (m OR cm_mode cm)"
proof -
  obtain h where h: "h \<in> set (handlers st)" "h_cm h = cm"
    using assms(2) by (auto simp: channelmodes_def)
  then have ok: "place_ok (place_of h)" "place_of h \<in> places st"
    using assms(1) by (auto simp: mode_inv_def places_def)
  have "\<exists>p \<in> places st. p_normal p \<and> p_bits p = push_bit j 1" if "bit (cm_mode cm) j" for j
  proof (cases "cm_type cm")
    case CMODE_NORMAL
    then obtain i where "i < 63" "cm_mode cm = push_bit i 1"
      using ok(1) h(2) by (auto simp: place_ok_def place_of_def)
    then have "j = i"
      using that bit_push_1 by metis
    then show ?thesis
      using CMODE_NORMAL ok(2) h(2) \<open>cm_mode cm = push_bit i 1\<close> by (intro bexI [of _ "place_of h"]) (simp_all add: place_of_def)
  next
    case CMODE_MEMBER
    then show ?thesis
      using ok(1) h(2) that by (simp add: place_ok_def place_of_def)
  qed
  then show ?thesis
    using assms(3) unfolding bits_known_def by (auto simp: bit_or_iff)
qed

lemma unset_bits_known: "bits_known P m \<Longrightarrow> bits_known P (m AND l)"
  by (auto simp: bits_known_def bit_and_iff)

lemma insert_letter_set: "set (insert_letter cms r l s) = insert l (set s)"
  by (induction s) (auto split: option.splits)

lemma insert_letter_distinct: "l \<notin> set s \<Longrightarrow> distinct (insert_letter cms r l s) \<longleftrightarrow> distinct s"
  by (induction s) (auto simp: insert_letter_set split: option.splits)

lemma change_letters_known:
  assumes "letters_known (places st) s"
  shows "letters_known (places st) (member_mode_change (channelmodes st) what letter s)"
proof (cases what)
  case MODE_ADD
  have "\<exists>p \<in> places st. p_letter p = letter \<and> \<not> p_normal p"
    if "find_channel_mode_handler (channelmodes st) letter = Some cm" "cm_type cm = CMODE_MEMBER" for cm
  proof -
    have "cm \<in> set (channelmodes st)" "cm_letter cm = letter"
      using find_SomeD [OF that(1) [unfolded find_channel_mode_handler_def]] by simp_all
    then obtain h where "h \<in> set (handlers st)" "h_cm h = cm"
      by (auto simp: channelmodes_def)
    then have "place_of h \<in> places st" "p_letter (place_of h) = letter" "\<not> p_normal (place_of h)"
      using that(2) \<open>cm_letter cm = letter\<close> by (simp_all add: places_def) (simp_all add: place_of_def h_letter_def)
    then show ?thesis
      by blast
  qed
  then show ?thesis
    using assms MODE_ADD unfolding letters_known_def
    by (auto simp: member_mode_change_def addlettertomstring_def insert_letter_distinct insert_letter_set split: option.splits)
next
  case MODE_DEL
  then show ?thesis
    using assms delletter_distinct [of s letter] unfolding letters_known_def by (simp add: member_mode_change_def)
qed

lemma step_inv:
  assumes "mode_step st st'" "mode_inv st"
  shows "mode_inv st'"
  using assms
proof cases
  case (add req err)
  then show ?thesis
    using CmodeAdd_inv assms(2) by blast
next
  case (del h rehashing)
  then show ?thesis
    using del_inv [OF assms(2) del(1), of rehashing] by auto
next
  case unload
  then show ?thesis
    using unload_all_inv [OF assms(2)] by auto
next
  case (set_mode cm c)
  then show ?thesis
    using channel_inv [OF assms(2) set_bits_known [OF assms(2) set_mode(2) inv_known(1) [OF assms(2)]]] by blast
next
  case (unset_mode cm c)
  then show ?thesis
    using channel_inv [OF assms(2) unset_bits_known [OF inv_known(1) [OF assms(2)]]] by blast
next
  case (member_mode i c what letter)
  have "letters_known (places st) s"
    if "s \<in> set ((chan_members st c)[i := member_mode_change (channelmodes st) what letter (chan_members st c ! i)])" for s
    using set_update_subset_insert [of "chan_members st c" i] that change_letters_known [of st "chan_members st c ! i"]
      inv_known(2) [OF assms(2)] nth_mem [OF member_mode(2)] by blast
  then show ?thesis
    unfolding member_mode(1) by (intro member_inv [OF assms(2)]) blast
next
  case (join c)
  have "letters_known (places st) []"
    by (simp add: letters_known_def)
  then have "\<forall>s \<in> set ([] # chan_members st c). letters_known (places st) s"
    using inv_known(2) [OF assms(2), of _ c] by simp
  then show ?thesis
    unfolding join by (rule member_inv [OF assms(2)])
next
  case (part c i)
  have "s \<in> set (chan_members st c)" if "s \<in> set (take i (chan_members st c) @ drop (Suc i) (chan_members st c))" for s
    using that by (auto dest: in_set_takeD in_set_dropD)
  then show ?thesis
    unfolding part using inv_known(2) [OF assms(2)] by (intro member_inv [OF assms(2)]) blast
qed

lemma mode_reach_inv: "mode_reach st \<Longrightarrow> mode_inv st"
proof (induction rule: mode_reach.induct)
  case init
  then show ?case
    by (simp add: mode_inv_def extcmode_init_def places_def bits_unique_def slots_ok_def bits_known_def)
next
  case (step st st')
  then show ?case
    using step_inv by blast
qed

section \<open>Properties\<close>

text \<open>The invariant in terms of the registry and the channels.\<close>

definition one_bit :: "64 word \<Rightarrow> bool" where
  "one_bit w \<longleftrightarrow> (\<exists>i < 63. w = push_bit i 1)"

lemma one_bit_nonzero:
  assumes "one_bit w"
  shows "w \<noteq> 0"
proof -
  obtain i where "i < 63" "w = push_bit i 1"
    using assms by (auto simp: one_bit_def)
  then have "bit w i"
    using bit_push_1 [of i i] by simp
  then show ?thesis
    by auto
qed

lemma place_proj:
  "p_letter (place_of h) = h_letter h" "p_normal (place_of h) \<longleftrightarrow> cm_type (h_cm h) = CMODE_NORMAL"
  "p_param (place_of h) = cm_paracount (h_cm h)" "p_bits (place_of h) = cm_mode (h_cm h)" "p_slot (place_of h) = h_param_slot h"
  by (simp_all add: place_of_def)

lemma place_in:
  assumes "mode_inv st" "h \<in> set (handlers st)"
  shows "place_of h \<in> places st" "place_ok (place_of h)"
  using assms by (auto simp: mode_inv_def places_def)

lemma inv_bits:
  assumes inv: "mode_inv st" and h: "h \<in> set (handlers st)" "cm_type (h_cm h) = CMODE_NORMAL"
  shows "one_bit (cm_mode (h_cm h))"
    and "g \<in> set (handlers st) \<Longrightarrow> cm_mode (h_cm g) = cm_mode (h_cm h) \<Longrightarrow> g = h"
proof -
  note ph = place_in [OF inv h(1)]
  show one: "one_bit (cm_mode (h_cm h))"
    using ph(2) h by (simp add: place_ok_def place_proj one_bit_def)
  assume g: "g \<in> set (handlers st)" "cm_mode (h_cm g) = cm_mode (h_cm h)"
  note pg = place_in [OF inv g(1)]
  have "cm_mode (h_cm h) \<noteq> 0"
    using one one_bit_nonzero by blast
  then have "p_normal (place_of g)"
    using pg(2) g(2) by (auto simp: place_ok_def place_proj split: if_splits)
  moreover have "bits_unique (places st)"
    using inv by (simp add: mode_inv_def)
  ultimately have "place_of g = place_of h"
    using ph(1) pg(1) h(2) g(2) place_proj(2,4) unfolding bits_unique_def by metis
  then have "h_letter g = h_letter h"
    using place_proj(1) by metis
  then show "g = h"
    using inv h(1) g(1) by (auto simp: mode_inv_def distinct_map dest: inj_onD)
qed

lemma inv_slot:
  assumes "mode_inv st" "h \<in> set (handlers st)" "cm_type (h_cm h) = CMODE_NORMAL" "cm_paracount (h_cm h) \<noteq> 0"
  shows "h_param_slot h < MAXPARAMMODES \<and> ParamTable st (h_param_slot h) = Some (h_letter h)
    \<and> param_to_slot_mapping st (h_letter h) = h_param_slot h"
proof -
  have "has_slot (place_of h)"
    using place_in(2) [OF assms(1,2)] assms(3,4) by (simp add: has_slot_def place_ok_def place_proj)
  then have "p_slot (place_of h) < MAXPARAMMODES \<and> ParamTable st (p_slot (place_of h)) = Some (p_letter (place_of h))
      \<and> param_to_slot_mapping st (p_letter (place_of h)) = p_slot (place_of h)"
    using assms(1) place_in(1) [OF assms(1,2)] unfolding mode_inv_def slots_ok_def by blast
  then show ?thesis
    by (simp add: place_proj)
qed

lemma inv_channel:
  assumes "mode_inv st" "bit (chan_mode st c) i"
  shows "\<exists>h \<in> set (handlers st). cm_type (h_cm h) = CMODE_NORMAL \<and> cm_mode (h_cm h) = push_bit i 1"
proof -
  obtain p where "p \<in> places st" "p_normal p" "p_bits p = push_bit i 1"
    using assms unfolding mode_inv_def bits_known_def by blast
  then show ?thesis
    by (auto simp: places_def place_proj)
qed

lemma inv_member:
  assumes "mode_inv st" "s \<in> set (chan_members st c)"
  shows "distinct s \<and> (\<forall>x \<in> set s. \<exists>h \<in> set (handlers st). cm_type (h_cm h) = CMODE_MEMBER \<and> h_letter h = x)"
proof -
  have known: "letters_known (places st) s"
    using inv_known(2) [OF assms] .
  have "\<exists>h \<in> set (handlers st). cm_type (h_cm h) = CMODE_MEMBER \<and> h_letter h = x" if x: "x \<in> set s" for x
  proof -
    obtain h where "h \<in> set (handlers st)" "h_letter h = x" "cm_type (h_cm h) \<noteq> CMODE_NORMAL"
      using known x unfolding letters_known_def places_def by (force simp: place_proj)
    then show ?thesis
      by (cases "cm_type (h_cm h)") auto
  qed
  then show ?thesis
    using known by (simp add: letters_known_def)
qed


definition limit_cmode :: cmode where
  "limit_cmode = \<lparr>cm_letter = CHR ''l'', cm_type = CMODE_NORMAL, cm_mode = 0, cm_prefix = NUL, cm_sjoin_prefix = NUL, cm_rank = 0,
     cm_paracount = 1, cm_unset_with_param = False, cm_local = False\<rparr>"

definition limit_handler :: handler where
  "limit_handler = \<lparr>h_cm = limit_cmode\<lparr>cm_mode := 1\<rparr>, h_param_slot = 0, h_unloaded = False\<rparr>"

definition limit_state :: mode_state where
  "limit_state = extcmode_init\<lparr>handlers := [limit_handler], ParamTable := (\<lambda>_. None)(0 := Some (CHR ''l'')),
     param_to_slot_mapping := (\<lambda>_. 0)\<rparr>"

lemma CmodeAdd_limit: "CmodeAdd extcmode_init limit_cmode = Inr (limit_state, None)"
  by (simp add: CmodeAdd_def cmode_entry_def new_entry_def free_bit_def free_slot_def extcmode_init_def limit_cmode_def MAXPARAMMODES_def
      fill_entry_def update_handler_def extcmode_para_addslot_def h_letter_def blank_cmode_def limit_state_def limit_handler_def
      upt_rec fun_eq_iff)

lemma reach_limit: "mode_reach limit_state"
  by (rule mode_reach.step [OF mode_reach.init], rule mode_step.add [OF CmodeAdd_limit]) (simp_all add: extcmode_init_def limit_cmode_def)


lemma unloaded_bit_gone:
  assumes inv: "mode_inv st" "mode_inv st'" and hs: "handlers st' = filter (\<lambda>x. \<not> h_unloaded x) (handlers st)"
    and h: "h \<in> set (handlers st)" "h_unloaded h" "cm_type (h_cm h) = CMODE_NORMAL"
  shows "chan_mode st' c AND cm_mode (h_cm h) = 0"
proof -
  obtain i where i: "i < 63" "cm_mode (h_cm h) = push_bit i 1"
    using inv_bits(1) [OF inv(1) h(1,3)] by (auto simp: one_bit_def)
  have "\<not> bit (chan_mode st' c) i"
  proof
    assume "bit (chan_mode st' c) i"
    then obtain g where "g \<in> set (handlers st')" "cm_mode (h_cm g) = push_bit i 1"
      using inv_channel [OF inv(2)] by blast
    then have "g \<in> set (handlers st)" "\<not> h_unloaded g" "cm_mode (h_cm g) = cm_mode (h_cm h)"
      using hs i(2) by auto
    then show False
      using inv_bits(2) [OF inv(1) h(1,3)] h(2) by blast
  qed
  then show ?thesis
    unfolding i(2) by (intro bit_eqI) (auto simp: bit_and_iff bit_exp_iff)
qed

lemma unloaded_letter_gone:
  assumes inv: "mode_inv st" "mode_inv st'" and hs: "handlers st' = filter (\<lambda>x. \<not> h_unloaded x) (handlers st)"
    and h: "h \<in> set (handlers st)" "h_unloaded h" and s: "s \<in> set (chan_members st' c)"
  shows "h_letter h \<notin> set s"
proof
  assume "h_letter h \<in> set s"
  then obtain g where "g \<in> set (handlers st')" "h_letter g = h_letter h"
    using inv_member [OF inv(2) s] by blast
  then have "g \<in> set (handlers st)" "\<not> h_unloaded g"
    using hs by auto
  then show False
    using inv(1) h \<open>h_letter g = h_letter h\<close> by (auto simp: mode_inv_def distinct_map dest: inj_onD)
qed


text \<open>The mode \<open>l\<close> is set on channel 7 and its module goes away in a rehash.\<close>

definition limit_gone :: mode_state where
  "limit_gone = limit_state\<lparr>chan_mode := (\<lambda>_. 0)(7 := 1), handlers := [limit_handler\<lparr>h_unloaded := True\<rparr>]\<rparr>"

lemma reach_limit_gone: "mode_reach limit_gone"
proof -
  let ?st = "limit_state\<lparr>chan_mode := (chan_mode limit_state)(7 := chan_mode limit_state 7 OR cm_mode (h_cm limit_handler))\<rparr>"
  have "mode_step limit_state ?st"
    by (rule mode_step.set_mode) (simp add: channelmodes_def limit_state_def)
  then have "mode_reach ?st"
    using reach_limit mode_reach.step by blast
  moreover have "mode_step ?st limit_gone"
  proof (rule mode_step.del)
    show "limit_handler \<in> set (handlers ?st)"
      by (simp add: limit_state_def)
    show "CmodeDel True limit_handler ?st = Inr limit_gone"
      by (simp add: CmodeDel_def update_handler_def limit_state_def limit_gone_def limit_handler_def h_letter_def extcmode_init_def)
  qed
  ultimately show ?thesis
    by (rule mode_reach.step)
qed


text \<open>
  Two facts about the code's error handling. A mode with a parameter that finds no free slot is refused, but its
  entry stays in the list. A mode that is registered again, first without and then with a
  parameter, takes slot 0, whoever has it.
\<close>

lemma refused_mode_stays:
  assumes "find (\<lambda>h. h_letter h = cm_letter req) (handlers st) = None" "cm_type req = CMODE_NORMAL" "cm_paracount req = 1"
    "free_bit (handlers st) = Some l" "free_slot st = None" "new_entry st (cm_letter req) l = Inr st'"
  shows "CmodeAdd st req = Inr (st', Some MODERR_NOSPACE) \<and> (\<exists>h \<in> set (handlers st'). h_letter h = cm_letter req \<and> cm_paracount (h_cm h) = 0)"
proof -
  obtain xs ys where hs: "handlers st = xs @ ys"
    "st' = st\<lparr>handlers := xs @ \<lparr>h_cm = blank_cmode (cm_letter req) l, h_param_slot = 0, h_unloaded = False\<rparr> # ys\<rparr>"
    using new_entry_split [OF assms(6)] by blast
  have "free_slot st' = None"
    using assms(5) by (simp add: hs(2) free_slot_def)
  then show ?thesis
    using assms(1-4,6) hs(2) by (auto simp: CmodeAdd_def cmode_entry_def h_letter_def blank_cmode_def)
qed

lemma find_map_same: "(\<And>x. P (f x) \<longleftrightarrow> P x) \<Longrightarrow> find P (map f xs) = map_option f (find P xs)"
  by (induction xs) auto

lemma readded_mode_takes_slot_0:
  assumes "find (\<lambda>h. h_letter h = cm_letter req) (handlers st) = Some h" "h_unloaded h" "h_param_slot h = 0"
    "cm_type req = CMODE_NORMAL" "cm_paracount req = 1"
  shows "\<exists>st'. CmodeAdd st req = Inr (st', None) \<and> ParamTable st' 0 = Some (cm_letter req)"
proof -
  let ?st = "update_handler (cm_letter req) (\<lambda>h. h\<lparr>h_unloaded := False\<rparr>) st"
  have "h_letter h = cm_letter req"
    using find_SomeD [OF assms(1)] by simp
  moreover have "find (\<lambda>h. h_letter h = cm_letter req) (handlers ?st)
      = map_option (\<lambda>h. if h_letter h = cm_letter req then h\<lparr>h_unloaded := False\<rparr> else h)
          (find (\<lambda>h. h_letter h = cm_letter req) (handlers st))"
    unfolding update_handler_def by (simp, rule find_map_same) (simp add: h_letter_def)
  ultimately have found: "find (\<lambda>h. h_letter h = cm_letter req) (handlers ?st) = Some (h\<lparr>h_unloaded := False\<rparr>)"
    using assms(1) by simp
  have "cmode_entry st req = Inr (?st, Inr True)"
    using assms(1,2) by (simp add: cmode_entry_def)
  then have "CmodeAdd st req = Inr (update_handler (cm_letter req) (\<lambda>h. h\<lparr>h_param_slot := 0\<rparr>)
      ((fill_entry req ?st)\<lparr>ParamTable := (ParamTable (fill_entry req ?st))(0 := Some (cm_letter req)),
         param_to_slot_mapping := (param_to_slot_mapping (fill_entry req ?st))(cm_letter req := 0)\<rparr>), None)"
    using assms(3-5) by (simp add: CmodeAdd_def found extcmode_para_addslot_def)
  then show ?thesis
    by (simp add: update_handler_def)
qed

end
