(* ===== verification/Cmode_Isupport.thy ===== *)
theory Cmode_Isupport
  imports Cmode_Registry "HOL-Library.Multiset"
begin

text \<open>
  What clients and servers are told about the channel modes (\<^verbatim>\<open>src/api-channelmode.c\<close>): the letters of numeric 004,
  the four groups of \<^verbatim>\<open>CHANMODES\<close> and the \<^verbatim>\<open>PREFIX\<close> and \<^verbatim>\<open>STATUSMSG\<close> strings, with the fixed sizes of their
  buffers. The lemmas show that the buffers are large enough for every registry that can arise, that the groups
  split the modes, and that the member modes come in the order of their rank.
\<close>

section \<open>The model\<close>

definition EXTCHMSTR_SIZE :: nat where
  "EXTCHMSTR_SIZE = 64"

definition CMODESTRING_SIZE :: nat where
  "CMODESTRING_SIZE = 512"

text \<open>Characters are written one after the other and a terminator behind them.\<close>

definition write_letters :: "nat \<Rightarrow> cstring \<Rightarrow> fault + cstring" where
  "write_letters sz letters = (if length letters < sz then Inr letters else Inl Array_Overflow)"

definition make_extcmodestr :: "cmode list \<Rightarrow> fault + cstring list" where
  "make_extcmodestr cms =
     (case write_letters EXTCHMSTR_SIZE
             (map cm_letter (filter (\<lambda>cm. cm_paracount cm \<noteq> 0 \<and> cm_letter cm \<noteq> NUL \<and> cm_unset_with_param cm \<and> cm_type cm \<noteq> CMODE_MEMBER) cms)) of
        Inl e \<Rightarrow> Inl e
      | Inr s1 \<Rightarrow>
          (case write_letters EXTCHMSTR_SIZE
                  (map cm_letter (filter (\<lambda>cm. cm_paracount cm \<noteq> 0 \<and> cm_letter cm \<noteq> NUL \<and> \<not> cm_unset_with_param cm) cms)) of
             Inl e \<Rightarrow> Inl e
           | Inr s2 \<Rightarrow>
               (case write_letters EXTCHMSTR_SIZE
                       (map cm_letter (filter (\<lambda>cm. cm_paracount cm = 0 \<and> cm_letter cm \<noteq> NUL) cms)) of
                  Inl e \<Rightarrow> Inl e
                | Inr s3 \<Rightarrow> Inr [[], s1, s2, s3])))"

definition make_cmodestr :: "cmode list \<Rightarrow> fault + cstring" where
  "make_cmodestr cms =
     write_letters CMODESTRING_SIZE (map core_flag corechannelmodetable @ map cm_letter (filter (\<lambda>cm. cm_letter cm \<noteq> NUL) cms))"

definition CHPAR1 :: cstring where
  "CHPAR1 = ''beI''"

definition chanmodes_value :: "cstring list \<Rightarrow> cstring" where
  "chanmodes_value extchmstr =
     take 255 (CHPAR1 @ extchmstr ! 0) @ '','' @ extchmstr ! 1 @ '','' @ extchmstr ! 2 @ '','' @ extchmstr ! 3"

text \<open>
  \<^verbatim>\<open>make_prefix\<close> collects the member modes in three arrays and sorts these together by rank.
\<close>

record prefix_arrays =
  prefix_prefix :: cstring
  prefix_modes :: cstring
  pa_rank :: "int list"

definition collect_member :: "cmode \<Rightarrow> prefix_arrays \<Rightarrow> prefix_arrays" where
  "collect_member cm a =
     (if length (pa_rank a) < 255 \<and> cm_type cm = CMODE_MEMBER \<and> cm_letter cm \<noteq> NUL
      then \<lparr>prefix_prefix = strlcat_letter (prefix_prefix a) (cm_prefix cm) 256,
            prefix_modes = strlcat_letter (prefix_modes a) (cm_letter cm) 256,
            pa_rank = pa_rank a @ [cm_rank cm]\<rparr>
      else a)"

definition swap :: "'a list \<Rightarrow> nat \<Rightarrow> nat \<Rightarrow> 'a list" where
  "swap xs i j = xs[i := xs ! j, j := xs ! i]"

definition sort_step :: "nat \<Rightarrow> nat \<Rightarrow> prefix_arrays \<Rightarrow> prefix_arrays" where
  "sort_step i j a =
     (if pa_rank a ! i < pa_rank a ! j
      then \<lparr>prefix_prefix = swap (prefix_prefix a) i j, prefix_modes = swap (prefix_modes a) i j, pa_rank = swap (pa_rank a) i j\<rparr>
      else a)"

definition sort_arrays :: "nat \<Rightarrow> prefix_arrays \<Rightarrow> prefix_arrays" where
  "sort_arrays n = fold (\<lambda>i. fold (sort_step i) [Suc i..<n]) [0..<n]"

definition make_prefix :: "cmode list \<Rightarrow> cstring \<times> cstring" where
  "make_prefix cms =
     (let a = fold collect_member cms \<lparr>prefix_prefix = [], prefix_modes = [], pa_rank = []\<rparr>
      in if prefix_prefix a = [] then ([], [])
         else let a = sort_arrays (length (pa_rank a)) a
              in (take 255 (''('' @ prefix_modes a @ '')'' @ prefix_prefix a), prefix_prefix a))"

section \<open>Sorting by rank\<close>

text \<open>The sort on lists of entries with any key, and its result.\<close>

definition exchange :: "('a \<Rightarrow> int) \<Rightarrow> nat \<Rightarrow> nat \<Rightarrow> 'a list \<Rightarrow> 'a list" where
  "exchange key i j xs = (if key (xs ! i) < key (xs ! j) then swap xs i j else xs)"

lemma exchange_yes: "key (xs ! i) < key (xs ! j) \<Longrightarrow> exchange key i j xs = swap xs i j"
  by (simp add: exchange_def)

lemma exchange_no: "\<not> key (xs ! i) < key (xs ! j) \<Longrightarrow> exchange key i j xs = xs"
  by (simp add: exchange_def)

lemma length_swap [simp]: "length (swap xs i j) = length xs"
  by (simp add: swap_def)

lemma mset_swap_eq: "i < length xs \<Longrightarrow> j < length xs \<Longrightarrow> mset (swap xs i j) = mset xs"
  by (simp add: swap_def mset_swap)

lemma nth_swap: "i < length xs \<Longrightarrow> j < length xs \<Longrightarrow> k < length xs \<Longrightarrow> swap xs i j ! k = (if k = j then xs ! i else if k = i then xs ! j else xs ! k)"
  by (simp add: swap_def nth_list_update)

lemma map_swap: "i < length xs \<Longrightarrow> j < length xs \<Longrightarrow> map f (swap xs i j) = swap (map f xs) i j"
  by (simp add: swap_def map_update)

text \<open>The inner loop brings the largest of the rest to position \<open>i\<close>.\<close>

lemma exchange_inner:
  fixes key :: "'a \<Rightarrow> int"
  assumes "i < length xs" "m \<le> length xs" "Suc i \<le> m"
  defines "ys \<equiv> fold (exchange key i) [Suc i..<m] xs"
  shows "mset ys = mset xs \<and> (\<forall>k < i. ys ! k = xs ! k) \<and> (\<forall>k. m \<le> k \<and> k < length xs \<longrightarrow> ys ! k = xs ! k)
    \<and> (\<forall>k. i < k \<and> k < m \<longrightarrow> key (ys ! k) \<le> key (ys ! i)) \<and> (\<forall>k. i \<le> k \<and> k < m \<longrightarrow> (\<exists>l. i \<le> l \<and> l < m \<and> ys ! k = xs ! l))"
  using assms(3,2) unfolding ys_def
proof (induction m rule: dec_induct)
  case base
  then show ?case
    by auto
next
  case (step m)
  let ?zs = "fold (exchange key i) [Suc i..<m] xs"
  have IH: "mset ?zs = mset xs" "\<forall>k < i. ?zs ! k = xs ! k" "\<forall>k. m \<le> k \<and> k < length xs \<longrightarrow> ?zs ! k = xs ! k"
      "\<forall>k. i < k \<and> k < m \<longrightarrow> key (?zs ! k) \<le> key (?zs ! i)" "\<forall>k. i \<le> k \<and> k < m \<longrightarrow> (\<exists>l. i \<le> l \<and> l < m \<and> ?zs ! k = xs ! l)"
    using step.IH step.prems by auto
  have len: "length ?zs = length xs"
    using IH(1) mset_eq_length by blast
  have fold: "fold (exchange key i) [Suc i..<Suc m] xs = exchange key i m ?zs"
    using step.hyps by simp
  have m: "?zs ! m = xs ! m" "m < length xs" "i < m"
    using IH(3) step by auto
  show ?case
  proof (cases "key (?zs ! i) < key (?zs ! m)")
    case True
    have ys: "fold (exchange key i) [Suc i..<Suc m] xs = swap ?zs i m"
      unfolding fold using True by (rule exchange_yes)
    have at: "swap ?zs i m ! k = (if k = m then ?zs ! i else if k = i then ?zs ! m else ?zs ! k)" if "k < length xs" for k
      using nth_swap [of i ?zs m k] that m assms(1) len by simp
    have "\<exists>l. i \<le> l \<and> l < Suc m \<and> swap ?zs i m ! k = xs ! l" if k: "i \<le> k" "k < Suc m" for k
    proof -
      consider "k = m" | "k = i" | "k \<noteq> m" "k \<noteq> i" "k < m"
        using k by linarith
      then show ?thesis
      proof cases
        case 1
        then show ?thesis
          using IH(5) at [of m] m by (metis le_refl less_SucI)
      next
        case 2
        then show ?thesis
          using at [of i] m assms(1) by (metis lessI less_imp_le_nat)
      next
        case 3
        then show ?thesis
          using IH(5) at [of k] k m by (metis less_SucI less_trans)
      qed
    qed
    moreover have "key (swap ?zs i m ! k) \<le> key (swap ?zs i m ! i)" if "i < k" "k < Suc m" for k
      using True IH(4) at [of k] at [of i] that m assms(1) by (cases "k = m") force+
    moreover have "mset (swap ?zs i m) = mset xs"
      using mset_swap_eq [of i ?zs m] m assms(1) len IH(1) by simp
    ultimately show ?thesis
      unfolding ys using at IH(2,3) m assms(1) by simp
  next
    case False
    have ys: "fold (exchange key i) [Suc i..<Suc m] xs = ?zs"
      unfolding fold using False by (rule exchange_no)
    have "key (?zs ! k) \<le> key (?zs ! i)" if "i < k" "k < Suc m" for k
      using False IH(4) that by (cases "k = m") auto
    moreover have "\<exists>l. i \<le> l \<and> l < Suc m \<and> ?zs ! k = xs ! l" if k: "i \<le> k" "k < Suc m" for k
    proof (cases "k = m")
      case True
      then show ?thesis
        using m by (intro exI [of _ m]) simp
    next
      case False
      then obtain l where "i \<le> l" "l < m" "?zs ! k = xs ! l"
        using IH(5) k by (metis less_antisym)
      then show ?thesis
        by (intro exI [of _ l]) simp
    qed
    ultimately show ?thesis
      unfolding ys using IH(1-3) by simp
  qed
qed

lemma exchange_sorts:
  fixes key :: "'a \<Rightarrow> int"
  assumes "n \<le> length xs" "length xs = N"
  defines "ys \<equiv> fold (\<lambda>i. fold (exchange key i) [Suc i..<N]) [0..<n] xs"
  shows "mset ys = mset xs \<and> (\<forall>k l. k < n \<and> k < l \<and> l < N \<longrightarrow> key (ys ! l) \<le> key (ys ! k))"
  using assms(1) unfolding ys_def
proof (induction n)
  case (Suc n)
  let ?zs = "fold (\<lambda>i. fold (exchange key i) [Suc i..<N]) [0..<n] xs"
  let ?ys = "fold (exchange key n) [Suc n..<N] ?zs"
  have IH: "mset ?zs = mset xs" "\<forall>k l. k < n \<and> k < l \<and> l < N \<longrightarrow> key (?zs ! l) \<le> key (?zs ! k)"
    using Suc by auto
  have len: "length ?zs = N"
    using IH(1) assms(2) mset_eq_length by metis
  have inner: "mset ?ys = mset ?zs" "\<forall>k < n. ?ys ! k = ?zs ! k" "\<forall>k. n < k \<and> k < N \<longrightarrow> key (?ys ! k) \<le> key (?ys ! n)"
      "\<forall>k. n \<le> k \<and> k < N \<longrightarrow> (\<exists>l. n \<le> l \<and> l < N \<and> ?ys ! k = ?zs ! l)"
    using exchange_inner [of n ?zs N key] Suc.prems assms(2) len by simp_all
  have "key (?ys ! l) \<le> key (?ys ! k)" if kl: "k < Suc n" "k < l" "l < N" for k l
  proof (cases "k = n")
    case True
    then show ?thesis
      using inner(3) kl by blast
  next
    case False
    then have k: "k < n" "?ys ! k = ?zs ! k"
      using inner(2) kl by auto
    have "\<exists>l'. k < l' \<and> l' < N \<and> ?ys ! l = ?zs ! l'"
    proof (cases "l < n")
      case True
      then show ?thesis
        using inner(2) kl by blast
    next
      case False
      then obtain l' where "n \<le> l'" "l' < N" "?ys ! l = ?zs ! l'"
        using inner(4) kl(3) by (meson not_less)
      then show ?thesis
        using k(1) by (intro exI [of _ l']) simp
    qed
    then obtain l' where "k < l'" "l' < N" "?ys ! l = ?zs ! l'"
      by blast
    then show ?thesis
      using IH(2) k by simp
  qed
  then show ?case
    using inner(1) IH(1) by simp
qed simp

definition arrays_of :: "cmode list \<Rightarrow> prefix_arrays" where
  "arrays_of ms = \<lparr>prefix_prefix = map cm_prefix ms, prefix_modes = map cm_letter ms, pa_rank = map cm_rank ms\<rparr>"

lemma collect_members:
  assumes "list_all (\<lambda>cm. cm_letter cm \<noteq> NUL \<and> cm_prefix cm \<noteq> NUL) (members cms)" "length ms + length (members cms) \<le> 255"
  shows "fold collect_member cms (arrays_of ms) = arrays_of (ms @ members cms)"
  using assms
proof (induction cms arbitrary: ms)
  case (Cons cm cms)
  show ?case
  proof (cases "cm_type cm = CMODE_MEMBER")
    case True
    then have "collect_member cm (arrays_of ms) = arrays_of (ms @ [cm])"
      using Cons.prems by (simp add: collect_member_def arrays_of_def members_def strlcat_letter_eq)
    then show ?thesis
      using Cons.IH [of "ms @ [cm]"] Cons.prems True by (simp add: members_def)
  next
    case False
    then show ?thesis
      using Cons by (simp add: collect_member_def members_def)
  qed
qed (simp add: members_def)

lemma sort_step_arrays:
  assumes "i < length ms" "j < length ms"
  shows "sort_step i j (arrays_of ms) = arrays_of (exchange cm_rank i j ms)"
  using assms by (simp add: sort_step_def arrays_of_def exchange_def map_swap)

lemma length_exchange [simp]: "length (exchange key i j xs) = length xs"
  by (simp add: exchange_def)

lemma fold_steps_arrays:
  assumes "i < length ms" "\<forall>j \<in> set js. j < length ms"
  shows "fold (sort_step i) js (arrays_of ms) = arrays_of (fold (exchange cm_rank i) js ms)"
  using assms by (induction js arbitrary: ms) (simp_all add: sort_step_arrays)

lemma length_fold_exchange [simp]: "length (fold (exchange key i) js xs) = length xs"
  by (induction js arbitrary: xs) simp_all

lemma fold_sort_arrays:
  assumes "\<forall>i \<in> set is. i < n" "length ms = n"
  shows "fold (\<lambda>i. fold (sort_step i) [Suc i..<n]) is (arrays_of ms)
    = arrays_of (fold (\<lambda>i. fold (exchange cm_rank i) [Suc i..<n]) is ms)"
  using assms by (induction "is" arbitrary: ms) (simp_all add: fold_steps_arrays)

lemma sort_arrays_sorted:
  shows "\<exists>ms'. sort_arrays (length ms) (arrays_of ms) = arrays_of ms' \<and> mset ms' = mset ms
    \<and> sorted_wrt (\<lambda>x y. cm_rank y \<le> cm_rank x) ms'"
proof -
  let ?ms = "fold (\<lambda>i. fold (exchange cm_rank i) [Suc i..<length ms]) [0..<length ms] ms"
  have s: "mset ?ms = mset ms" "\<forall>k l. k < length ms \<and> k < l \<and> l < length ms \<longrightarrow> cm_rank (?ms ! l) \<le> cm_rank (?ms ! k)"
    using exchange_sorts [of "length ms" ms "length ms" cm_rank] by simp_all
  have "length ?ms = length ms"
    using s(1) mset_eq_length by blast
  then have "sorted_wrt (\<lambda>x y. cm_rank y \<le> cm_rank x) ?ms"
    using s(2) by (simp add: sorted_wrt_iff_nth_less)
  moreover have "sort_arrays (length ms) (arrays_of ms) = arrays_of ?ms"
    unfolding sort_arrays_def by (rule fold_sort_arrays) simp_all
  ultimately show ?thesis
    using s(1) by blast
qed

lemma sorted_strict:
  assumes "sorted_wrt (\<lambda>x y. f y \<le> f x) xs" "distinct (map f xs)"
  shows "sorted_wrt (\<lambda>x y. (f y :: int) < f x) xs"
  using assms by (induction xs) (auto simp: image_iff order_less_le)

section \<open>Properties\<close>

text \<open>
  C29: The \<^verbatim>\<open>PREFIX\<close> token lists the letters of the member modes in the order of their rank, the highest first,
  and behind it their prefix characters in the same order.
\<close>

theorem prefix_by_rank:
  assumes wf: "table_wf cms" and some: "members cms \<noteq> []" and few: "length (members cms) \<le> 126"
  shows "\<exists>ms. mset ms = mset (members cms) \<and> sorted_wrt (\<lambda>x y. cm_rank y < cm_rank x) ms
    \<and> make_prefix cms = (''('' @ map cm_letter ms @ '')'' @ map cm_prefix ms, map cm_prefix ms)"
proof -
  have "list_all (\<lambda>cm. cm_letter cm \<noteq> NUL \<and> cm_prefix cm \<noteq> NUL) (members cms)"
    using wf by (auto simp: table_wf_def members_def list_all_iff)
  then have collect: "fold collect_member cms \<lparr>prefix_prefix = [], prefix_modes = [], pa_rank = []\<rparr> = arrays_of (members cms)"
    using collect_members [of cms "[]"] few by (simp add: arrays_of_def)
  obtain ms where ms: "sort_arrays (length (members cms)) (arrays_of (members cms)) = arrays_of ms" "mset ms = mset (members cms)"
      "sorted_wrt (\<lambda>x y. cm_rank y \<le> cm_rank x) ms"
    using sort_arrays_sorted by blast
  have "mset (map cm_rank ms) = mset (map cm_rank (members cms))"
    using ms(2) by simp
  from mset_eq_imp_distinct_iff [OF this] have "distinct (map cm_rank ms)"
    using wf by (simp add: table_wf_def)
  then have "sorted_wrt (\<lambda>x y. cm_rank y < cm_rank x) ms"
    using sorted_strict ms(3) by blast
  moreover have "length ms = length (members cms)"
    using ms(2) mset_eq_length by blast
  then have "make_prefix cms = (''('' @ map cm_letter ms @ '')'' @ map cm_prefix ms, map cm_prefix ms)"
    using some few ms(1) by (simp add: make_prefix_def collect Let_def) (simp add: arrays_of_def)
  ultimately show ?thesis
    using ms(2) by blast
qed

theorem prefix_by_rank_witness:
  "make_prefix member_modes = (''(qaohv)~&@%+'', ''~&@%+'')
   \<and> (\<exists>ms. mset ms = mset (members member_modes) \<and> sorted_wrt (\<lambda>x y. cm_rank y < cm_rank x) ms
        \<and> make_prefix member_modes = (''('' @ map cm_letter ms @ '')'' @ map cm_prefix ms, map cm_prefix ms))"
proof -
  have "make_prefix member_modes = (''(qaohv)~&@%+'', ''~&@%+'')" "members member_modes \<noteq> []" "length (members member_modes) \<le> 126"
    by code_simp+
  then show ?thesis
    using prefix_by_rank [OF member_modes_wf] by blast
qed

text \<open>The sizes of the buffers: at most 63 modes have a bit, and there are at most 256 letters.\<close>

lemma few_normal_modes:
  assumes inv: "mode_inv st"
  shows "length (filter (\<lambda>h. cm_type (h_cm h) = CMODE_NORMAL) (handlers st)) \<le> 63"
proof -
  let ?hs = "filter (\<lambda>h. cm_type (h_cm h) = CMODE_NORMAL) (handlers st)"
  have "distinct (handlers st)"
    using inv by (simp add: mode_inv_def distinct_map)
  moreover have "inj_on (\<lambda>h. cm_mode (h_cm h)) (set ?hs)"
    using inv_bits(2) [OF inv] by (auto intro!: inj_onI)
  ultimately have "length ?hs = card ((\<lambda>h. cm_mode (h_cm h)) ` set ?hs)"
    using distinct_card [of ?hs] by (simp add: card_image)
  also have "\<dots> \<le> card ((\<lambda>i. push_bit i (1 :: 64 word)) ` {..<63})"
  proof (rule card_mono)
    show "(\<lambda>h. cm_mode (h_cm h)) ` set ?hs \<subseteq> (\<lambda>i. push_bit i 1) ` {..<63}"
    proof
      fix w
      assume "w \<in> (\<lambda>h. cm_mode (h_cm h)) ` set ?hs"
      then have "one_bit w"
        using inv_bits(1) [OF inv] by auto
      then show "w \<in> (\<lambda>i. push_bit i 1) ` {..<63}"
        unfolding one_bit_def by blast
    qed
  qed simp
  also have "\<dots> \<le> 63"
    using card_image_le [of "{..<63}" "\<lambda>i. push_bit i (1 :: 64 word)"] by simp
  finally show ?thesis .
qed

lemma length_filter_mono: "\<forall>x \<in> set xs. P x \<longrightarrow> Q x \<Longrightarrow> length (filter P xs) \<le> length (filter Q xs)"
  by (induction xs) auto

lemma group_fits:
  assumes inv: "mode_inv st" and normal: "\<forall>cm \<in> set (channelmodes st). P cm \<longrightarrow> cm_type cm = CMODE_NORMAL"
  shows "write_letters EXTCHMSTR_SIZE (map cm_letter (filter P (channelmodes st))) = Inr (map cm_letter (filter P (channelmodes st)))"
proof -
  have "length (filter P (channelmodes st)) \<le> length (filter (\<lambda>cm. cm_type cm = CMODE_NORMAL) (channelmodes st))"
    using normal by (rule length_filter_mono)
  also have "\<dots> \<le> 63"
    using few_normal_modes [OF inv] by (simp add: channelmodes_def filter_map comp_def)
  finally show ?thesis
    by (simp add: write_letters_def EXTCHMSTR_SIZE_def)
qed

lemma distinct_chars_bound: "distinct (s :: char list) \<Longrightarrow> length s \<le> 256"
  using distinct_card [of s] card_mono [of "UNIV :: char set" "set s"] by (simp add: card_UNIV_char)

lemma letter_in_group:
  assumes "distinct (map cm_letter cms)" "cm \<in> set cms"
  shows "cm_letter cm \<in> set (map cm_letter (filter P cms)) \<longleftrightarrow> P cm"
  using assms by (auto simp: distinct_map dest: inj_onD)

text \<open>
  C16: The strings of numeric 004 and of \<^verbatim>\<open>CHANMODES\<close> fit their buffers, and the announced group of a mode is the
  one that the mode parser goes by: with a parameter in both directions, with a parameter to set
  it only, or without. Member modes, which have their own token, need a parameter in both directions, and the list
  modes of the core keep their letters.
\<close>

theorem chanmodes_announced:
  assumes reach: "mode_reach st" and other: "\<forall>cm \<in> set (channelmodes st). cm_letter cm \<notin> set CHPAR1"
    and member: "\<forall>cm \<in> set (channelmodes st). cm_type cm = CMODE_MEMBER \<longrightarrow> cm_paracount cm \<noteq> 0 \<and> cm_unset_with_param cm"
  shows "\<exists>s1 s2 s3 all. make_extcmodestr (channelmodes st) = Inr [[], s1, s2, s3] \<and> make_cmodestr (channelmodes st) = Inr all
    \<and> (\<forall>cm \<in> set (channelmodes st). cm_letter cm \<in> set all \<and>
        (cm_type cm = CMODE_NORMAL \<longrightarrow>
          (let param = (\<lambda>what. mode_of_letter (channelmodes st) what (cm_letter cm) = Some (Some cm, True))
           in (cm_letter cm \<in> set s1 \<longleftrightarrow> param MODE_ADD \<and> param MODE_DEL)
            \<and> (cm_letter cm \<in> set s2 \<longleftrightarrow> param MODE_ADD \<and> \<not> param MODE_DEL)
            \<and> (cm_letter cm \<in> set s3 \<longleftrightarrow> \<not> param MODE_ADD))))"
proof -
  note inv = mode_reach_inv [OF reach]
  let ?cms = "channelmodes st"
  let ?g1 = "\<lambda>cm. cm_paracount cm \<noteq> 0 \<and> cm_letter cm \<noteq> NUL \<and> cm_unset_with_param cm \<and> cm_type cm \<noteq> CMODE_MEMBER"
  let ?g2 = "\<lambda>cm. cm_paracount cm \<noteq> 0 \<and> cm_letter cm \<noteq> NUL \<and> \<not> cm_unset_with_param cm"
  let ?g3 = "\<lambda>cm. cm_paracount cm = 0 \<and> cm_letter cm \<noteq> NUL"
  have normal: "cm_type cm = CMODE_NORMAL \<longleftrightarrow> cm_type cm \<noteq> CMODE_MEMBER" for cm
    by (cases "cm_type cm") simp_all
  have distinct: "distinct (map cm_letter ?cms)"
    using inv by (simp add: mode_inv_def channelmodes_def h_letter_def [abs_def] comp_def)
  have ok: "cm_letter cm \<noteq> NUL \<and> cm_paracount cm \<le> 1" if cm: "cm \<in> set ?cms" for cm
  proof -
    obtain h where "h \<in> set (handlers st)" "h_cm h = cm"
      using cm by (auto simp: channelmodes_def)
    then show ?thesis
      using place_in(2) [OF inv] by (auto simp: place_ok_def place_proj h_letter_def)
  qed
  have g: "\<forall>cm \<in> set ?cms. ?g1 cm \<longrightarrow> cm_type cm = CMODE_NORMAL" "\<forall>cm \<in> set ?cms. ?g2 cm \<longrightarrow> cm_type cm = CMODE_NORMAL"
      "\<forall>cm \<in> set ?cms. ?g3 cm \<longrightarrow> cm_type cm = CMODE_NORMAL"
    using normal member by blast+
  have ext: "make_extcmodestr ?cms = Inr [[], map cm_letter (filter ?g1 ?cms), map cm_letter (filter ?g2 ?cms), map cm_letter (filter ?g3 ?cms)]"
    unfolding make_extcmodestr_def group_fits [OF inv g(1)] group_fits [OF inv g(2)] group_fits [OF inv g(3)] by simp
  have "length (map cm_letter (filter (\<lambda>cm. cm_letter cm \<noteq> NUL) ?cms)) \<le> 256"
    using distinct by (intro distinct_chars_bound) (simp add: distinct_map_filter)
  then have all: "make_cmodestr ?cms = Inr (map core_flag corechannelmodetable @ map cm_letter (filter (\<lambda>cm. cm_letter cm \<noteq> NUL) ?cms))"
    by (simp add: make_cmodestr_def write_letters_def CMODESTRING_SIZE_def corechannelmodetable_def)
  have letter: "mode_of_letter ?cms what (cm_letter cm) = Some (Some cm, cm_paracount cm = 1 \<and> (what = MODE_ADD \<or> cm_unset_with_param cm))"
    if "cm \<in> set ?cms" for cm what
    using find_distinct_all [OF distinct that] other that by (auto simp: mode_of_letter_def corechannelmodetable_def CHPAR1_def)
  have group: "cm_letter cm \<in> set (map cm_letter (filter P ?cms)) \<longleftrightarrow> P cm" if "cm \<in> set ?cms" for cm P
    using letter_in_group [OF distinct that] .
  show ?thesis
  proof (intro exI conjI ballI impI)
    show "make_extcmodestr ?cms = Inr [[], map cm_letter (filter ?g1 ?cms), map cm_letter (filter ?g2 ?cms), map cm_letter (filter ?g3 ?cms)]"
      by (rule ext)
    show "make_cmodestr ?cms = Inr (map core_flag corechannelmodetable @ map cm_letter (filter (\<lambda>cm. cm_letter cm \<noteq> NUL) ?cms))"
      by (rule all)
    fix cm
    assume cm: "cm \<in> set ?cms"
    show "cm_letter cm \<in> set (map core_flag corechannelmodetable @ map cm_letter (filter (\<lambda>cm. cm_letter cm \<noteq> NUL) ?cms))"
      using ok [OF cm] cm by auto
    assume "cm_type cm = CMODE_NORMAL"
    then show "let param = (\<lambda>what. mode_of_letter ?cms what (cm_letter cm) = Some (Some cm, True))
      in (cm_letter cm \<in> set (map cm_letter (filter ?g1 ?cms)) \<longleftrightarrow> param MODE_ADD \<and> param MODE_DEL)
       \<and> (cm_letter cm \<in> set (map cm_letter (filter ?g2 ?cms)) \<longleftrightarrow> param MODE_ADD \<and> \<not> param MODE_DEL)
       \<and> (cm_letter cm \<in> set (map cm_letter (filter ?g3 ?cms)) \<longleftrightarrow> \<not> param MODE_ADD)"
      unfolding group [OF cm] letter [OF cm] Let_def using ok [OF cm] by (auto simp: le_Suc_eq)
  qed
qed

theorem chanmodes_announced_witness:
  "mode_reach limit_state \<and> make_extcmodestr (channelmodes limit_state) = Inr [[], [], ''l'', []]
   \<and> (\<exists>s1 s2 s3. make_extcmodestr (channelmodes limit_state) = Inr [[], s1, s2, s3] \<and> CHR ''l'' \<in> set s2)"
proof -
  let ?cm = "limit_cmode\<lparr>cm_mode := 1\<rparr>"
  have cms: "channelmodes limit_state = [?cm]"
    by (simp add: channelmodes_def limit_state_def limit_handler_def)
  have cm: "cm_letter ?cm = CHR ''l''" "cm_type ?cm = CMODE_NORMAL"
      "mode_of_letter [?cm] MODE_ADD (CHR ''l'') = Some (Some ?cm, True)" "mode_of_letter [?cm] MODE_DEL (CHR ''l'') = Some (Some ?cm, False)"
    by (simp_all add: limit_cmode_def mode_of_letter_def corechannelmodetable_def)
  have "make_extcmodestr [?cm] = Inr [[], [], ''l'', []]"
    by (simp add: limit_cmode_def make_extcmodestr_def write_letters_def EXTCHMSTR_SIZE_def)
  then show ?thesis
    using chanmodes_announced [OF reach_limit] reach_limit cm by (simp add: cms CHPAR1_def)
qed

end
