(* ===== verification/Channel_Members.thy ===== *)
theory Channel_Members
  imports Channel_Modes Hash Utf8
begin

text \<open>
  Channels and who is in them (\<^verbatim>\<open>src/channel.c\<close>, \<^verbatim>\<open>src/api-channelmode.c\<close>). A channel holds \<^verbatim>\<open>Member\<close> structures
  of its users and a user holds \<^verbatim>\<open>Membership\<close> structures of its channels; the two are allocated in pairs that
  point to each other and both carry the modes of the user on the channel, which, as the headers
  say, must be kept synchronized at all times. Structures live in heaps, an address whose structure was freed is absent from its
  heap, and every access to such an address is a fault. A linked list is the list of the
  addresses of its nodes; the operations on the links themselves are the subject of the theory
  \<^verbatim>\<open>Lists\<close>. The lemmas show that the two sides stay synchronized, that the counters are right and that no
  operation touches freed memory.
\<close>

unbundle bit_operations_syntax

section \<open>The model\<close>

record member =
  mb_client :: addr
  mb_modes :: cstring
  mb_related :: addr
  mb_local_member :: "addr option"
  mb_flags :: "32 word"

record membership =
  ms_channel :: addr
  ms_modes :: cstring
  ms_related :: addr
  ms_flags :: "32 word"

record channel =
  c_name :: cstring
  c_users :: int
  c_members :: "addr list"
  c_local_members :: "addr list"

text \<open>A client with a \<^verbatim>\<open>user\<close> structure: is it local (\<^verbatim>\<open>MyConnect\<close>), is it a user, and its channels.\<close>

record user =
  u_local :: bool
  u_IsUser :: bool
  u_channel :: "addr list"
  u_joined :: int

text \<open>
  \<^verbatim>\<open>heap_local\<close> holds the \<^verbatim>\<open>LocalMember\<close> structures, which are a pointer to a member. Addresses from \<^verbatim>\<open>next_addr\<close> on
  are unused; a client whose \<^verbatim>\<open>user\<close> is NULL is absent from \<^verbatim>\<open>heap_user\<close>.
\<close>

record chan_state =
  heap_member :: "addr \<Rightarrow> member option"
  heap_mship :: "addr \<Rightarrow> membership option"
  heap_local :: "addr \<Rightarrow> addr option"
  heap_channel :: "addr \<Rightarrow> channel option"
  heap_user :: "addr \<Rightarrow> user option"
  channels :: "addr list"
  chan_hash :: hash_state
  irccounts_channels :: int
  next_addr :: addr

definition MEMB_FLAG_INVISIBLE :: "32 word" where
  "MEMB_FLAG_INVISIBLE = 1"

definition CHANNELLEN :: nat where
  "CHANNELLEN = 32"

definition deref :: "(addr \<Rightarrow> 'a option) \<Rightarrow> addr \<Rightarrow> fault + 'a" where
  "deref h a = (case h a of None \<Rightarrow> Inl Use_After_Free | Some x \<Rightarrow> Inr x)"

definition and_then :: "fault + 'a \<Rightarrow> ('a \<Rightarrow> fault + 'b) \<Rightarrow> fault + 'b" where
  "and_then r f = (case r of Inl e \<Rightarrow> Inl e | Inr x \<Rightarrow> f x)"

text \<open>\<^verbatim>\<open>client->user\<close> where the code does not test it.\<close>

definition client_user :: "chan_state \<Rightarrow> addr \<Rightarrow> fault + user" where
  "client_user st client = (case heap_user st client of None \<Rightarrow> Inl Null_Deref | Some usr \<Rightarrow> Inr usr)"

subsection \<open>Looking up\<close>

fun find_member_link :: "chan_state \<Rightarrow> addr list \<Rightarrow> addr \<Rightarrow> fault + addr option" where
  "find_member_link st [] ptr = Inr None"
| "find_member_link st (lp # rest) ptr =
     and_then (deref (heap_member st) lp) (\<lambda>m. if mb_client m = ptr then Inr (Some lp) else find_member_link st rest ptr)"

fun find_membership_link :: "chan_state \<Rightarrow> addr list \<Rightarrow> addr \<Rightarrow> fault + addr option" where
  "find_membership_link st [] ptr = Inr None"
| "find_membership_link st (lp # rest) ptr =
     and_then (deref (heap_mship st) lp) (\<lambda>m. if ms_channel m = ptr then Inr (Some lp) else find_membership_link st rest ptr)"

definition IsMember :: "chan_state \<Rightarrow> addr \<Rightarrow> addr \<Rightarrow> fault + bool" where
  "IsMember st blah chan =
     (case heap_user st blah of
        None \<Rightarrow> Inr False
      | Some usr \<Rightarrow> and_then (find_membership_link st (u_channel usr) chan) (\<lambda>r. Inr (r \<noteq> None)))"

definition get_channel_access :: "chan_state \<Rightarrow> addr \<Rightarrow> addr \<Rightarrow> fault + cstring" where
  "get_channel_access st client ch =
     and_then (client_user st client) (\<lambda>usr.
     and_then (find_membership_link st (u_channel usr) ch) (\<lambda>r.
       case r of
         None \<Rightarrow> Inr []
       | Some mb \<Rightarrow> and_then (deref (heap_mship st) mb) (\<lambda>m. Inr (ms_modes m))))"

definition check_channel_access :: "chan_state \<Rightarrow> addr \<Rightarrow> addr \<Rightarrow> cstring \<Rightarrow> fault + bool" where
  "check_channel_access st client ch modes =
     (case heap_user st client of
        None \<Rightarrow> Inr False
      | Some usr \<Rightarrow>
          if \<not> u_IsUser usr then Inr False
          else and_then (find_membership_link st (u_channel usr) ch) (\<lambda>r.
                 case r of
                   None \<Rightarrow> Inr False
                 | Some mb \<Rightarrow> and_then (deref (heap_mship st) mb) (\<lambda>m. Inr (check_channel_access_string (ms_modes m) modes))))"

definition find_mbs :: "chan_state \<Rightarrow> addr \<Rightarrow> addr \<Rightarrow> fault + (addr \<times> addr) option" where
  "find_mbs st client ch =
     and_then (client_user st client) (\<lambda>usr.
     and_then (find_membership_link st (u_channel usr) ch) (\<lambda>r.
       case r of
         None \<Rightarrow> Inr None
       | Some mbs \<Rightarrow> and_then (deref (heap_mship st) mbs) (\<lambda>m. Inr (Some (ms_related m, mbs)))))"

subsection \<open>Modes and flags of members\<close>

text \<open>A change of the modes on both sides of a pair, and the same for the flags.\<close>

definition change_modes :: "(cstring \<Rightarrow> cstring) \<Rightarrow> addr \<Rightarrow> addr \<Rightarrow> chan_state \<Rightarrow> fault + chan_state" where
  "change_modes f mb mbs st =
     and_then (deref (heap_member st) mb) (\<lambda>m.
     and_then (deref (heap_mship st) mbs) (\<lambda>s.
       Inr (st\<lparr>heap_member := (heap_member st)(mb \<mapsto> m\<lparr>mb_modes := f (mb_modes m)\<rparr>),
               heap_mship := (heap_mship st)(mbs \<mapsto> s\<lparr>ms_modes := f (ms_modes s)\<rparr>)\<rparr>)))"

definition add_member_mode_fast :: "cmode list \<Rightarrow> addr \<Rightarrow> addr \<Rightarrow> char \<Rightarrow> chan_state \<Rightarrow> fault + chan_state" where
  "add_member_mode_fast cms mb mbs letter = change_modes (\<lambda>s. addlettertomstring cms s letter) mb mbs"

definition del_member_mode_fast :: "addr \<Rightarrow> addr \<Rightarrow> char \<Rightarrow> chan_state \<Rightarrow> fault + chan_state" where
  "del_member_mode_fast mb mbs letter = change_modes (\<lambda>s. delletterfromstring s letter) mb mbs"

definition add_member_mode :: "cmode list \<Rightarrow> addr \<Rightarrow> addr \<Rightarrow> char \<Rightarrow> chan_state \<Rightarrow> fault + chan_state" where
  "add_member_mode cms client ch letter st =
     and_then (find_mbs st client ch) (\<lambda>r. case r of None \<Rightarrow> Inr st | Some (mb, mbs) \<Rightarrow> add_member_mode_fast cms mb mbs letter st)"

definition del_member_mode :: "addr \<Rightarrow> addr \<Rightarrow> char \<Rightarrow> chan_state \<Rightarrow> fault + chan_state" where
  "del_member_mode client ch letter st =
     and_then (find_mbs st client ch) (\<lambda>r. case r of None \<Rightarrow> Inr st | Some (mb, mbs) \<Rightarrow> del_member_mode_fast mb mbs letter st)"

definition set_user_invisible :: "addr \<Rightarrow> addr \<Rightarrow> bool \<Rightarrow> chan_state \<Rightarrow> fault + chan_state" where
  "set_user_invisible client ch invisible st =
     (case heap_user st client of
        None \<Rightarrow> Inr st
      | Some usr \<Rightarrow>
          if \<not> u_IsUser usr then Inr st
          else and_then (find_membership_link st (u_channel usr) ch) (\<lambda>r.
                 case r of
                   None \<Rightarrow> Inr st
                 | Some mbs \<Rightarrow>
                     and_then (deref (heap_mship st) mbs) (\<lambda>s.
                     and_then (deref (heap_member st) (ms_related s)) (\<lambda>m.
                       let f = (\<lambda>w. if invisible then w OR MEMB_FLAG_INVISIBLE else w AND NOT MEMB_FLAG_INVISIBLE)
                       in Inr (st\<lparr>heap_mship := (heap_mship st)(mbs \<mapsto> s\<lparr>ms_flags := f (ms_flags s)\<rparr>),
                                  heap_member := (heap_member st)(ms_related s \<mapsto> m\<lparr>mb_flags := f (mb_flags m)\<rparr>)\<rparr>)))))"

definition invisible_user_in_channel :: "chan_state \<Rightarrow> addr \<Rightarrow> addr \<Rightarrow> fault + bool" where
  "invisible_user_in_channel st target ch =
     and_then (client_user st target) (\<lambda>usr.
     and_then (find_membership_link st (u_channel usr) ch) (\<lambda>r.
       case r of
         None \<Rightarrow> Inr False
       | Some mb \<Rightarrow> and_then (deref (heap_mship st) mb) (\<lambda>m. Inr (ms_flags m AND MEMB_FLAG_INVISIBLE \<noteq> 0))))"

fun members_invisible :: "chan_state \<Rightarrow> addr list \<Rightarrow> fault + bool" where
  "members_invisible st [] = Inr False"
| "members_invisible st (mb # rest) =
     and_then (deref (heap_member st) mb) (\<lambda>m. if mb_flags m AND MEMB_FLAG_INVISIBLE \<noteq> 0 then Inr True else members_invisible st rest)"

definition channel_has_invisible_users :: "chan_state \<Rightarrow> addr \<Rightarrow> fault + bool" where
  "channel_has_invisible_users st ch = and_then (deref (heap_channel st) ch) (\<lambda>c. members_invisible st (c_members c))"

definition user_can_see_membership_fast :: "addr \<Rightarrow> addr \<Rightarrow> membership \<Rightarrow> cstring option \<Rightarrow> bool" where
  "user_can_see_membership_fast usr target target_member user_member_modes =
     (if usr = target then True
      else if ms_flags target_member AND MEMB_FLAG_INVISIBLE \<noteq> 0
              \<and> \<not> check_channel_access_string (ms_modes target_member) ''vhoaq''
              \<and> \<not> (case user_member_modes of None \<Rightarrow> False | Some modes \<Rightarrow> check_channel_access_string modes ''hoaq'')
      then False
      else True)"

definition user_can_see_member_fast :: "addr \<Rightarrow> addr \<Rightarrow> member \<Rightarrow> cstring option \<Rightarrow> bool" where
  "user_can_see_member_fast usr target target_member user_member_modes =
     (if usr = target then True
      else if mb_flags target_member AND MEMB_FLAG_INVISIBLE \<noteq> 0
              \<and> \<not> check_channel_access_string (mb_modes target_member) ''vhoaq''
              \<and> \<not> (case user_member_modes of None \<Rightarrow> False | Some modes \<Rightarrow> check_channel_access_string modes ''hoaq'')
      then False
      else True)"

definition membership_of :: "chan_state \<Rightarrow> addr \<Rightarrow> addr \<Rightarrow> fault + membership option" where
  "membership_of st client ch =
     (case heap_user st client of
        None \<Rightarrow> Inr None
      | Some usr \<Rightarrow>
          if \<not> u_IsUser usr then Inr None
          else and_then (find_membership_link st (u_channel usr) ch) (\<lambda>r.
                 case r of None \<Rightarrow> Inr None | Some mb \<Rightarrow> and_then (deref (heap_mship st) mb) (\<lambda>m. Inr (Some m))))"

definition user_can_see_member :: "chan_state \<Rightarrow> addr \<Rightarrow> addr \<Rightarrow> addr \<Rightarrow> fault + bool" where
  "user_can_see_member st usr target ch =
     (if usr = target then Inr True
      else and_then (membership_of st usr ch) (\<lambda>user_member.
           and_then (membership_of st target ch) (\<lambda>target_member.
             case target_member of
               None \<Rightarrow> Inr False
             | Some m \<Rightarrow> Inr (user_can_see_membership_fast usr target m (map_option ms_modes user_member)))))"

fun common_channel :: "chan_state \<Rightarrow> addr \<Rightarrow> addr \<Rightarrow> addr list \<Rightarrow> fault + bool" where
  "common_channel st c1 c2 [] = Inr False"
| "common_channel st c1 c2 (lp # rest) =
     and_then (deref (heap_mship st) lp) (\<lambda>m.
     and_then (IsMember st c2 (ms_channel m)) (\<lambda>is_member.
     and_then (if is_member then user_can_see_member st c1 c2 (ms_channel m) else Inr False) (\<lambda>sees.
       if sees then Inr True else common_channel st c1 c2 rest)))"

definition has_common_channels :: "chan_state \<Rightarrow> addr \<Rightarrow> addr \<Rightarrow> fault + bool" where
  "has_common_channels st c1 c2 = and_then (client_user st c1) (\<lambda>usr. common_channel st c1 c2 (u_channel usr))"

subsection \<open>Joining and leaving\<close>

fun add_modes :: "cmode list \<Rightarrow> addr \<Rightarrow> addr \<Rightarrow> cstring \<Rightarrow> chan_state \<Rightarrow> fault + chan_state" where
  "add_modes cms m mb [] st = Inr st"
| "add_modes cms m mb (p # modes) st = and_then (add_member_mode_fast cms m mb p st) (add_modes cms m mb modes)"

definition add_user_to_channel :: "cmode list \<Rightarrow> addr \<Rightarrow> addr \<Rightarrow> cstring \<Rightarrow> chan_state \<Rightarrow> fault + chan_state" where
  "add_user_to_channel cms ch client modes st =
     (case heap_user st client of
        None \<Rightarrow> Inr st
      | Some usr \<Rightarrow>
          and_then (deref (heap_channel st) ch) (\<lambda>c.
            let m = next_addr st; mb = Suc m; lm = Suc mb;
                st = st\<lparr>heap_member := (heap_member st)(m \<mapsto> \<lparr>mb_client = client, mb_modes = [], mb_related = mb,
                                          mb_local_member = (if u_local usr then Some lm else None), mb_flags = 0\<rparr>),
                        heap_mship := (heap_mship st)(mb \<mapsto> \<lparr>ms_channel = ch, ms_modes = [], ms_related = m, ms_flags = 0\<rparr>),
                        heap_local := (if u_local usr then (heap_local st)(lm \<mapsto> m) else heap_local st),
                        heap_channel := (heap_channel st)(ch \<mapsto>
                          c\<lparr>c_users := c_users c + 1, c_members := m # c_members c,
                            c_local_members := (if u_local usr then lm # c_local_members c else c_local_members c)\<rparr>),
                        heap_user := (heap_user st)(client \<mapsto> usr\<lparr>u_channel := mb # u_channel usr, u_joined := u_joined usr + 1\<rparr>),
                        next_addr := Suc lm\<rparr>
            in add_modes cms m mb modes st))"

definition chname :: "chan_state \<Rightarrow> addr \<Rightarrow> cstring" where
  "chname st ch = (case heap_channel st ch of None \<Rightarrow> [] | Some c \<Rightarrow> c_name c)"

text \<open>
  \<open>should_destroy\<close> is the answer of the hooks, by which a channel may stay although nobody is in it.
\<close>

definition sub1_from_channel :: "(addr \<Rightarrow> bool) \<Rightarrow> addr \<Rightarrow> chan_state \<Rightarrow> fault + chan_state \<times> bool" where
  "sub1_from_channel should_destroy ch st =
     and_then (deref (heap_channel st) ch) (\<lambda>c.
       if c_users c - 1 > 0 then Inr (st\<lparr>heap_channel := (heap_channel st)(ch \<mapsto> c\<lparr>c_users := c_users c - 1\<rparr>)\<rparr>, False)
       else if \<not> should_destroy ch then Inr (st\<lparr>heap_channel := (heap_channel st)(ch \<mapsto> c\<lparr>c_users := 0\<rparr>)\<rparr>, False)
       else Inr (st\<lparr>heap_channel := (heap_channel st)(ch := None), channels := remove1 ch (channels st),
                    chan_hash := del_from_channel_hash_table (c_name c) ch (chan_hash st),
                    irccounts_channels := irccounts_channels st - 1\<rparr>, True))"

definition drop_local_member :: "addr \<Rightarrow> addr \<Rightarrow> chan_state \<Rightarrow> fault + chan_state" where
  "drop_local_member lm ch st =
     and_then (deref (heap_local st) lm) (\<lambda>_.
     and_then (deref (heap_channel st) ch) (\<lambda>c.
       Inr (st\<lparr>heap_channel := (heap_channel st)(ch \<mapsto> c\<lparr>c_local_members := remove1 lm (c_local_members c)\<rparr>),
               heap_local := (heap_local st)(lm := None)\<rparr>)))"

definition drop_member :: "addr \<Rightarrow> addr \<Rightarrow> chan_state \<Rightarrow> fault + chan_state" where
  "drop_member m ch st =
     and_then (deref (heap_channel st) ch) (\<lambda>c.
       Inr (st\<lparr>heap_channel := (heap_channel st)(ch \<mapsto> c\<lparr>c_members := remove1 m (c_members c)\<rparr>),
               heap_member := (heap_member st)(m := None)\<rparr>))"

definition drop_membership :: "addr \<Rightarrow> addr \<Rightarrow> chan_state \<Rightarrow> fault + chan_state" where
  "drop_membership mb client st =
     and_then (client_user st client) (\<lambda>usr.
       Inr (st\<lparr>heap_user := (heap_user st)(client \<mapsto> usr\<lparr>u_channel := remove1 mb (u_channel usr), u_joined := u_joined usr - 1\<rparr>),
               heap_mship := (heap_mship st)(mb := None)\<rparr>))"

definition remove_user_from_channel_withmb :: "(addr \<Rightarrow> bool) \<Rightarrow> addr \<Rightarrow> addr \<Rightarrow> addr \<Rightarrow> chan_state \<Rightarrow> fault + chan_state \<times> bool" where
  "remove_user_from_channel_withmb should_destroy client ch mb st =
     and_then (deref (heap_mship st) mb) (\<lambda>s.
     and_then (deref (heap_member st) (ms_related s)) (\<lambda>m.
     and_then (case mb_local_member m of None \<Rightarrow> Inr st | Some lm \<Rightarrow> drop_local_member lm ch st) (\<lambda>st.
     and_then (drop_member (ms_related s) ch st) (\<lambda>st.
     and_then (drop_membership mb client st) (\<lambda>st.
       sub1_from_channel should_destroy ch st)))))"

definition remove_user_from_channel :: "(addr \<Rightarrow> bool) \<Rightarrow> addr \<Rightarrow> addr \<Rightarrow> chan_state \<Rightarrow> fault + chan_state \<times> bool" where
  "remove_user_from_channel should_destroy client ch st =
     and_then (client_user st client) (\<lambda>usr.
     and_then (find_membership_link st (u_channel usr) ch) (\<lambda>r.
       case r of
         None \<Rightarrow> Inr (st, False)
       | Some mb \<Rightarrow> remove_user_from_channel_withmb should_destroy client ch mb st))"

text \<open>The loop of \<^verbatim>\<open>exit_one_client\<close> (\<^verbatim>\<open>src/modules/quit.c\<close>).\<close>

partial_function (option) leave_channels :: "(addr \<Rightarrow> bool) \<Rightarrow> addr \<Rightarrow> chan_state \<Rightarrow> (fault + chan_state) option" where
  "leave_channels should_destroy client st =
     (case client_user st client of
        Inl e \<Rightarrow> Some (Inl e)
      | Inr usr \<Rightarrow>
          (case u_channel usr of
             [] \<Rightarrow> Some (Inr st)
           | mp # _ \<Rightarrow>
               (case and_then (deref (heap_mship st) mp) (\<lambda>s. remove_user_from_channel_withmb should_destroy client (ms_channel s) mp st) of
                  Inl e \<Rightarrow> Some (Inl e)
                | Inr (st, _) \<Rightarrow> leave_channels should_destroy client st)))"

subsection \<open>Creating channels\<close>

definition bad_channel_char :: "char \<Rightarrow> bool" where
  "bad_channel_char c \<longleftrightarrow> of_char c < (33 :: nat) \<or> c = CHR '','' \<or> c = CHR '':''"

definition ALLOWED_CHANNELCHARS_ANY :: nat where
  "ALLOWED_CHANNELCHARS_ANY = 1"

definition ALLOWED_CHANNELCHARS_ASCII :: nat where
  "ALLOWED_CHANNELCHARS_ASCII = 2"

definition ALLOWED_CHANNELCHARS_UTF8 :: nat where
  "ALLOWED_CHANNELCHARS_UTF8 = 3"

definition valid_channelname :: "nat \<Rightarrow> cstring \<Rightarrow> fault + bool" where
  "valid_channelname allowed cname =
     (if c_at cname 0 \<noteq> CHR ''#'' then Inr False
      else if length cname > CHANNELLEN then Inr False
      else if allowed = ALLOWED_CHANNELCHARS_ANY \<or> allowed = 0 then Inr (\<not> list_ex bad_channel_char cname)
      else if allowed = ALLOWED_CHANNELCHARS_ASCII then Inr (\<not> list_ex (\<lambda>c. bad_channel_char c \<or> of_char c > (127 :: nat)) cname)
      else if allowed = ALLOWED_CHANNELCHARS_UTF8 then
        Inr (if list_ex bad_channel_char cname then False else fst (unrl_utf8_validate cname))
      else Inl Aborted)"

definition make_channel :: "cstring \<Rightarrow> chan_state \<Rightarrow> chan_state \<times> addr option" where
  "make_channel name st =
     (if name = [] then (st, None)
      else let namebuf = takeWhile (\<lambda>c. \<not> bad_channel_char c) (fst (strlcpy [] name (CHANNELLEN + 1)))
           in case find_channel (chname st) (chan_hash st) namebuf of
                Some ch \<Rightarrow> (st, Some ch)
              | None \<Rightarrow>
                  let ch = next_addr st
                  in (st\<lparr>heap_channel := (heap_channel st)(ch \<mapsto> \<lparr>c_name = namebuf, c_users = 0, c_members = [], c_local_members = []\<rparr>),
                         channels := ch # channels st,
                         chan_hash := add_to_channel_hash_table namebuf ch (chan_hash st),
                         irccounts_channels := irccounts_channels st + 1,
                         next_addr := Suc ch\<rparr>, Some ch))"

section \<open>The invariant\<close>

text \<open>A member of a channel, a membership of a user, and an entry of the list of local members.\<close>

definition member_ok :: "chan_state \<Rightarrow> addr \<Rightarrow> addr \<Rightarrow> bool" where
  "member_ok st ch m \<longleftrightarrow>
     (\<exists>mb ms usr. heap_member st m = Some mb \<and> heap_mship st (mb_related mb) = Some ms \<and> heap_user st (mb_client mb) = Some usr
        \<and> ms_channel ms = ch \<and> ms_related ms = m \<and> ms_modes ms = mb_modes mb \<and> ms_flags ms = mb_flags mb
        \<and> mb_related mb \<in> set (u_channel usr)
        \<and> (case mb_local_member mb of None \<Rightarrow> \<not> u_local usr | Some lm \<Rightarrow> u_local usr \<and> heap_local st lm = Some m))"

definition membership_ok :: "chan_state \<Rightarrow> addr \<Rightarrow> addr \<Rightarrow> bool" where
  "membership_ok st u s \<longleftrightarrow>
     (\<exists>ms mb c. heap_mship st s = Some ms \<and> heap_member st (ms_related ms) = Some mb \<and> heap_channel st (ms_channel ms) = Some c
        \<and> mb_client mb = u \<and> mb_related mb = s \<and> ms_related ms \<in> set (c_members c))"

definition local_ok :: "chan_state \<Rightarrow> channel \<Rightarrow> addr \<Rightarrow> bool" where
  "local_ok st c lm \<longleftrightarrow>
     (\<exists>m mb. heap_local st lm = Some m \<and> heap_member st m = Some mb \<and> m \<in> set (c_members c) \<and> mb_local_member mb = Some lm)"

definition channel_ok :: "chan_state \<Rightarrow> addr \<Rightarrow> channel \<Rightarrow> bool" where
  "channel_ok st ch c \<longleftrightarrow>
     distinct (c_members c) \<and> (\<forall>m \<in> set (c_members c). member_ok st ch m)
     \<and> distinct (c_local_members c) \<and> (\<forall>lm \<in> set (c_local_members c). local_ok st c lm)
     \<and> (\<forall>m \<in> set (c_members c). \<forall>mb lm. heap_member st m = Some mb \<longrightarrow> mb_local_member mb = Some lm \<longrightarrow> lm \<in> set (c_local_members c))"

definition user_ok :: "chan_state \<Rightarrow> addr \<Rightarrow> user \<Rightarrow> bool" where
  "user_ok st u usr \<longleftrightarrow>
     distinct (u_channel usr) \<and> u_joined usr = int (length (u_channel usr)) \<and> (\<forall>s \<in> set (u_channel usr). membership_ok st u s)
     \<and> inj_on (\<lambda>s. map_option ms_channel (heap_mship st s)) (set (u_channel usr))"

definition linked :: "chan_state \<Rightarrow> bool" where
  "linked st \<longleftrightarrow>
     (\<forall>ch c. heap_channel st ch = Some c \<longrightarrow> channel_ok st ch c) \<and> (\<forall>u usr. heap_user st u = Some usr \<longrightarrow> user_ok st u usr)"

definition counted :: "chan_state \<Rightarrow> bool" where
  "counted st \<longleftrightarrow> (\<forall>ch c. heap_channel st ch = Some c \<longrightarrow> c_users c = int (length (c_members c)))"

definition unused :: "chan_state \<Rightarrow> bool" where
  "unused st \<longleftrightarrow>
     (\<forall>a \<ge> next_addr st. heap_member st a = None \<and> heap_mship st a = None \<and> heap_local st a = None \<and> heap_channel st a = None)"

definition chans_registered :: "chan_state \<Rightarrow> bool" where
  "chans_registered st \<longleftrightarrow>
     distinct (channels st) \<and> set (channels st) = dom (heap_channel st) \<and> irccounts_channels st = int (length (channels st))
     \<and> table_ok (hash_channel_name (siphashkey_chan (chan_hash st))) (chname st) (channelTable (chan_hash st))
     \<and> entries (channelTable (chan_hash st)) = dom (heap_channel st)
     \<and> (\<forall>ch \<in> dom (heap_channel st). cstr (chname st ch))
     \<and> (\<forall>ch \<in> dom (heap_channel st). \<forall>ch' \<in> dom (heap_channel st). smycmp (chname st ch) (chname st ch') = 0 \<longrightarrow> ch = ch')"

definition chan_inv :: "chan_state \<Rightarrow> bool" where
  "chan_inv st \<longleftrightarrow> linked st \<and> counted st \<and> unused st \<and> chans_registered st"

lemma and_then_Inr [simp]: "and_then (Inr x) f = f x" and and_then_Inl [simp]: "and_then (Inl e) f = Inl e"
  by (simp_all add: and_then_def)

lemma deref_Some [simp]: "h a = Some x \<Longrightarrow> deref h a = Inr x"
  by (simp add: deref_def)

lemma client_user_Some [simp]: "heap_user st u = Some usr \<Longrightarrow> client_user st u = Inr usr"
  by (simp add: client_user_def)

text \<open>What a change elsewhere leaves alone.\<close>

lemma member_ok_transfer:
  assumes ok: "member_ok st ch m" and member: "heap_member st' m = heap_member st m"
    and mship: "\<And>mb. heap_member st m = Some mb \<Longrightarrow> heap_mship st' (mb_related mb) = heap_mship st (mb_related mb)"
    and user: "\<And>mb usr. heap_member st m = Some mb \<Longrightarrow> heap_user st (mb_client mb) = Some usr \<Longrightarrow> mb_related mb \<in> set (u_channel usr)
      \<Longrightarrow> \<exists>usr'. heap_user st' (mb_client mb) = Some usr' \<and> u_local usr' = u_local usr \<and> mb_related mb \<in> set (u_channel usr')"
    and loc: "\<And>mb lm. heap_member st m = Some mb \<Longrightarrow> mb_local_member mb = Some lm \<Longrightarrow> heap_local st' lm = heap_local st lm"
  shows "member_ok st' ch m"
proof -
  obtain mb ms usr where mb: "heap_member st m = Some mb" "heap_mship st (mb_related mb) = Some ms" "heap_user st (mb_client mb) = Some usr"
    "ms_channel ms = ch \<and> ms_related ms = m \<and> ms_modes ms = mb_modes mb \<and> ms_flags ms = mb_flags mb" "mb_related mb \<in> set (u_channel usr)"
    "case mb_local_member mb of None \<Rightarrow> \<not> u_local usr | Some lm \<Rightarrow> u_local usr \<and> heap_local st lm = Some m"
    using ok unfolding member_ok_def by blast
  obtain usr' where usr': "heap_user st' (mb_client mb) = Some usr'" "u_local usr' = u_local usr" "mb_related mb \<in> set (u_channel usr')"
    using user [OF mb(1,3,5)] by blast
  have "case mb_local_member mb of None \<Rightarrow> \<not> u_local usr' | Some lm \<Rightarrow> u_local usr' \<and> heap_local st' lm = Some m"
    using mb(6) usr'(2) loc [OF mb(1)] by (auto split: option.splits)
  then show ?thesis
    unfolding member_ok_def using mb(1,2,4) member mship [OF mb(1)] usr'(1,3)
    by (intro exI [of _ mb] exI [of _ ms] exI [of _ usr']) simp
qed

lemma membership_ok_transfer:
  assumes ok: "membership_ok st u s" and mship: "heap_mship st' s = heap_mship st s"
    and member: "\<And>ms. heap_mship st s = Some ms \<Longrightarrow> heap_member st' (ms_related ms) = heap_member st (ms_related ms)"
    and channel: "\<And>ms c. heap_mship st s = Some ms \<Longrightarrow> heap_channel st (ms_channel ms) = Some c \<Longrightarrow> ms_related ms \<in> set (c_members c)
      \<Longrightarrow> \<exists>c'. heap_channel st' (ms_channel ms) = Some c' \<and> ms_related ms \<in> set (c_members c')"
  shows "membership_ok st' u s"
proof -
  obtain ms mb c where ms: "heap_mship st s = Some ms" "heap_member st (ms_related ms) = Some mb" "heap_channel st (ms_channel ms) = Some c"
    "mb_client mb = u" "mb_related mb = s" "ms_related ms \<in> set (c_members c)"
    using ok unfolding membership_ok_def by blast
  obtain c' where "heap_channel st' (ms_channel ms) = Some c'" "ms_related ms \<in> set (c_members c')"
    using channel [OF ms(1,3,6)] by blast
  then show ?thesis
    unfolding membership_ok_def using ms mship member [OF ms(1)] by (intro exI [of _ ms] exI [of _ mb] exI [of _ c']) simp
qed

lemma linkedD:
  assumes "linked st"
  shows "heap_channel st ch = Some c \<Longrightarrow> channel_ok st ch c" "heap_user st u = Some usr \<Longrightarrow> user_ok st u usr"
  using assms by (simp_all add: linked_def)

lemma member_okE:
  assumes "linked st" "heap_channel st ch = Some c" "m \<in> set (c_members c)"
  obtains mb ms usr where "heap_member st m = Some mb" "heap_mship st (mb_related mb) = Some ms" "heap_user st (mb_client mb) = Some usr"
    "ms_channel ms = ch" "ms_related ms = m" "ms_modes ms = mb_modes mb" "ms_flags ms = mb_flags mb" "mb_related mb \<in> set (u_channel usr)"
    "case mb_local_member mb of None \<Rightarrow> \<not> u_local usr | Some lm \<Rightarrow> u_local usr \<and> heap_local st lm = Some m"
  using assms that unfolding linked_def channel_ok_def member_ok_def by blast

lemma membership_okE:
  assumes "linked st" "heap_user st u = Some usr" "s \<in> set (u_channel usr)"
  obtains ms mb c where "heap_mship st s = Some ms" "heap_member st (ms_related ms) = Some mb" "heap_channel st (ms_channel ms) = Some c"
    "mb_client mb = u" "mb_related mb = s" "ms_related ms \<in> set (c_members c)"
  using assms that unfolding linked_def user_ok_def membership_ok_def by blast

subsection \<open>Joining\<close>

text \<open>The state after the pair for \<open>client\<close> and \<open>ch\<close> was linked in.\<close>

definition joined_state :: "addr \<Rightarrow> channel \<Rightarrow> addr \<Rightarrow> user \<Rightarrow> chan_state \<Rightarrow> chan_state" where
  "joined_state ch c client usr st =
     (let m = next_addr st; mb = Suc m; lm = Suc mb
      in st\<lparr>heap_member := (heap_member st)(m \<mapsto> \<lparr>mb_client = client, mb_modes = [], mb_related = mb,
                             mb_local_member = (if u_local usr then Some lm else None), mb_flags = 0\<rparr>),
            heap_mship := (heap_mship st)(mb \<mapsto> \<lparr>ms_channel = ch, ms_modes = [], ms_related = m, ms_flags = 0\<rparr>),
            heap_local := (if u_local usr then (heap_local st)(lm \<mapsto> m) else heap_local st),
            heap_channel := (heap_channel st)(ch \<mapsto>
              c\<lparr>c_users := c_users c + 1, c_members := m # c_members c,
                c_local_members := (if u_local usr then lm # c_local_members c else c_local_members c)\<rparr>),
            heap_user := (heap_user st)(client \<mapsto> usr\<lparr>u_channel := mb # u_channel usr, u_joined := u_joined usr + 1\<rparr>),
            next_addr := Suc lm\<rparr>)"

lemma add_user_joined:
  assumes "heap_user st client = Some usr" "heap_channel st ch = Some c"
  shows "add_user_to_channel cms ch client modes st
    = add_modes cms (next_addr st) (Suc (next_addr st)) modes (joined_state ch c client usr st)"
  using assms by (simp add: add_user_to_channel_def joined_state_def Let_def)

lemma unused_None:
  assumes "unused st" "next_addr st \<le> a"
  shows "heap_member st a = None" "heap_mship st a = None" "heap_local st a = None" "heap_channel st a = None"
  using assms by (simp_all add: unused_def)

definition joining :: "chan_state \<Rightarrow> addr \<Rightarrow> channel \<Rightarrow> addr \<Rightarrow> user \<Rightarrow> bool" where
  "joining st ch c client usr \<longleftrightarrow>
     linked st \<and> unused st \<and> heap_user st client = Some usr \<and> heap_channel st ch = Some c
     \<and> (\<forall>s \<in> set (u_channel usr). map_option ms_channel (heap_mship st s) \<noteq> Some ch)"

lemma joined_old_member:
  assumes j: "joining st ch c client usr" and "heap_channel st ch' = Some c'" "m \<in> set (c_members c')"
  shows "member_ok (joined_state ch c client usr st) ch' m" "m \<noteq> next_addr st"
proof -
  have linked: "linked st" and unused: "unused st" and user: "heap_user st client = Some usr"
    using j by (simp_all add: joining_def)
  obtain mb ms where mb: "heap_member st m = Some mb" "heap_mship st (mb_related mb) = Some ms"
    "case mb_local_member mb of None \<Rightarrow> True | Some lm \<Rightarrow> heap_local st lm = Some m"
    using member_okE [OF linked assms(2,3)] by (metis (no_types, lifting) option.case_eq_if)
  show m: "m \<noteq> next_addr st"
    using mb(1) unused_None(1) [OF unused, of m] by auto
  have "mb_related mb \<noteq> Suc (next_addr st)"
    using mb(2) unused_None(2) [OF unused, of "mb_related mb"] by auto
  moreover have "lm \<noteq> Suc (Suc (next_addr st))" if "mb_local_member mb = Some lm" for lm
    using mb(3) that unused_None(3) [OF unused, of lm] by auto
  moreover have "member_ok st ch' m"
    using linkedD(1) [OF linked assms(2)] assms(3) by (simp add: channel_ok_def)
  ultimately show "member_ok (joined_state ch c client usr st) ch' m"
    using m mb(1) user by (elim member_ok_transfer) (auto simp: joined_state_def Let_def)
qed

lemma joined_new_member: "member_ok (joined_state ch c client usr st) ch (next_addr st)"
  by (simp add: member_ok_def joined_state_def Let_def)

lemma joined_old_local:
  assumes j: "joining st ch c client usr" and "heap_channel st ch' = Some c'" "lm \<in> set (c_local_members c')"
    and "set (c_members c') \<subseteq> set (c_members c'')"
  shows "local_ok (joined_state ch c client usr st) c'' lm" "lm \<noteq> Suc (Suc (next_addr st))"
proof -
  have linked: "linked st" and unused: "unused st"
    using j by (simp_all add: joining_def)
  obtain m mb where m: "heap_local st lm = Some m" "heap_member st m = Some mb" "m \<in> set (c_members c')" "mb_local_member mb = Some lm"
    using linkedD(1) [OF linked assms(2)] assms(3) unfolding channel_ok_def local_ok_def by blast
  show lm: "lm \<noteq> Suc (Suc (next_addr st))"
    using m(1) unused_None(3) [OF unused, of lm] by auto
  show "local_ok (joined_state ch c client usr st) c'' lm"
    using m assms(4) lm joined_old_member(2) [OF j assms(2) m(3)]
    by (auto simp: local_ok_def joined_state_def Let_def)
qed

lemma joined_channel_ok:
  assumes j: "joining st ch c client usr" and "heap_channel (joined_state ch c client usr st) ch' = Some c'"
  shows "channel_ok (joined_state ch c client usr st) ch' c'"
proof -
  let ?st = "joined_state ch c client usr st" and ?m = "next_addr st" and ?lm = "Suc (Suc (next_addr st))"
  have linked: "linked st" and channel: "heap_channel st ch = Some c"
    using j by (simp_all add: joining_def)
  have same: "heap_member ?st m = heap_member st m" if "heap_channel st ch' = Some c'" "m \<in> set (c_members c')" for ch' c' m
    using joined_old_member(2) [OF j that] by (simp add: joined_state_def Let_def)
  show ?thesis
  proof (cases "ch' = ch")
    case False
    then have old: "heap_channel st ch' = Some c'"
      using assms(2) by (simp add: joined_state_def Let_def)
    then have "channel_ok st ch' c'"
      using linkedD(1) [OF linked] by simp
    then show ?thesis
      using joined_old_member(1) [OF j old] joined_old_local(1) [OF j old _ subset_refl] same [OF old]
      unfolding channel_ok_def by simp
  next
    case True
    have ok: "channel_ok st ch c"
      using linkedD(1) [OF linked channel] .
    have c': "c_members c' = ?m # c_members c" "c_local_members c' = (if u_local usr then ?lm # c_local_members c else c_local_members c)"
      using assms(2) True by (auto simp: joined_state_def Let_def)
    have new: "heap_member ?st ?m = Some \<lparr>mb_client = client, mb_modes = [], mb_related = Suc ?m,
        mb_local_member = (if u_local usr then Some ?lm else None), mb_flags = 0\<rparr>"
      "u_local usr \<Longrightarrow> heap_local ?st ?lm = Some ?m"
      by (simp_all add: joined_state_def Let_def)
    have "distinct (c_members c')" "distinct (c_local_members c')"
      using ok joined_old_member(2) [OF j channel] joined_old_local(2) [OF j channel _ subset_refl]
      by (auto simp: c' channel_ok_def)
    moreover have "\<forall>m \<in> set (c_members c'). member_ok ?st ch m"
      using joined_old_member(1) [OF j channel] joined_new_member by (simp add: c')
    moreover have "local_ok ?st c' ?lm" if "u_local usr"
      using new that by (simp add: local_ok_def c')
    then have "\<forall>lm \<in> set (c_local_members c'). local_ok ?st c' lm"
      using joined_old_local(1) [OF j channel, where c'' = c'] by (auto simp: c')
    moreover have "lm \<in> set (c_local_members c')"
      if "m \<in> set (c_members c')" "heap_member ?st m = Some mb" "mb_local_member mb = Some lm" for m mb lm
    proof (cases "m = ?m")
      case True
      then show ?thesis
        using that new(1) by (auto simp: c' split: if_splits)
    next
      case False
      then have m: "m \<in> set (c_members c)"
        using that(1) by (simp add: c')
      then have "heap_member st m = Some mb"
        using same [OF channel m] that(2) by simp
      then show ?thesis
        using ok that(3) m by (auto simp: channel_ok_def c')
    qed
    ultimately show ?thesis
      unfolding channel_ok_def True by blast
  qed
qed

lemma joined_user_ok:
  assumes j: "joining st ch c client usr" and "heap_user (joined_state ch c client usr st) u = Some usr'"
  shows "user_ok (joined_state ch c client usr st) u usr'"
proof -
  let ?st = "joined_state ch c client usr st" and ?s = "Suc (next_addr st)"
  have linked: "linked st" and unused: "unused st" and user: "heap_user st client = Some usr" and channel: "heap_channel st ch = Some c"
      and outside: "\<forall>s \<in> set (u_channel usr). map_option ms_channel (heap_mship st s) \<noteq> Some ch"
    using j by (simp_all add: joining_def)
  have old: "membership_ok ?st u s \<and> s \<noteq> ?s" if u: "heap_user st u = Some usr0" "s \<in> set (u_channel usr0)" for u usr0 s
  proof -
    obtain ms mb c0 where ms: "heap_mship st s = Some ms" "heap_member st (ms_related ms) = Some mb"
      using membership_okE [OF linked u] by blast
    have "s \<noteq> ?s" "ms_related ms \<noteq> next_addr st"
      using ms unused_None [OF unused] by fastforce+
    moreover have "membership_ok st u s"
      using linkedD(2) [OF linked u(1)] u(2) by (simp add: user_ok_def)
    ultimately show ?thesis
      using ms(1) channel by (auto elim!: membership_ok_transfer simp: joined_state_def Let_def)
  qed
  have same: "map_option ms_channel (heap_mship ?st s) = map_option ms_channel (heap_mship st s)"
    if "heap_user st u = Some usr0" "s \<in> set (u_channel usr0)" for u usr0 s
    using old [OF that] by (simp add: joined_state_def Let_def)
  show ?thesis
  proof (cases "u = client")
    case False
    then have u: "heap_user st u = Some usr'"
      using assms(2) by (simp add: joined_state_def Let_def)
    then have "user_ok st u usr'"
      using linkedD(2) [OF linked] by simp
    then show ?thesis
      using old [OF u] same [OF u] unfolding user_ok_def by (simp cong: inj_on_cong)
  next
    case True
    have ok: "user_ok st client usr"
      using linkedD(2) [OF linked user] .
    have usr': "u_channel usr' = ?s # u_channel usr" "u_joined usr' = u_joined usr + 1"
      using assms(2) True by (auto simp: joined_state_def Let_def)
    have new: "heap_mship ?st ?s = Some \<lparr>ms_channel = ch, ms_modes = [], ms_related = next_addr st, ms_flags = 0\<rparr>"
      by (simp add: joined_state_def Let_def)
    have "inj_on (\<lambda>s. map_option ms_channel (heap_mship ?st s)) (set (u_channel usr))"
      using ok same [OF user] unfolding user_ok_def by (simp cong: inj_on_cong)
    moreover have "Some ch \<notin> (\<lambda>s. map_option ms_channel (heap_mship ?st s)) ` set (u_channel usr)"
      using outside same [OF user] by (metis (no_types, lifting) imageE)
    ultimately have "inj_on (\<lambda>s. map_option ms_channel (heap_mship ?st s)) (set (u_channel usr'))"
      by (auto simp: usr' new inj_on_insert)
    moreover have "membership_ok ?st client ?s"
      by (simp add: membership_ok_def joined_state_def Let_def)
    ultimately show ?thesis
      using ok old [OF user] unfolding user_ok_def True by (auto simp: usr')
  qed
qed

lemma registered_same:
  assumes "chans_registered st" "dom (heap_channel st') = dom (heap_channel st)" "chname st' = chname st" "channels st' = channels st"
    "chan_hash st' = chan_hash st" "irccounts_channels st' = irccounts_channels st"
  shows "chans_registered st'"
  using assms by (simp add: chans_registered_def)

lemma joined_linked:
  assumes "joining st ch c client usr"
  shows "linked (joined_state ch c client usr st)"
  unfolding linked_def using joined_channel_ok [OF assms] joined_user_ok [OF assms] by blast

lemma joined_inv:
  assumes j: "joining st ch c client usr" and inv: "chan_inv st"
  shows "chan_inv (joined_state ch c client usr st)"
proof -
  have channel: "heap_channel st ch = Some c"
    using j by (simp add: joining_def)
  have "counted (joined_state ch c client usr st)" "unused (joined_state ch c client usr st)"
    using inv channel by (auto simp: chan_inv_def counted_def unused_def joined_state_def Let_def)
  moreover have "chans_registered (joined_state ch c client usr st)"
  proof (rule registered_same)
    show "chans_registered st"
      using inv by (simp add: chan_inv_def)
  qed (use channel in \<open>auto simp: chname_def joined_state_def Let_def\<close>)
  ultimately show ?thesis
    using joined_linked [OF j] by (simp add: chan_inv_def)
qed

subsection \<open>Changing a pair\<close>

text \<open>New contents for both structures of a pair, with the same pointers and equal modes and flags.\<close>

definition pair_state :: "addr \<Rightarrow> member \<Rightarrow> addr \<Rightarrow> membership \<Rightarrow> chan_state \<Rightarrow> chan_state" where
  "pair_state m mb s ms st = st\<lparr>heap_member := (heap_member st)(m \<mapsto> mb), heap_mship := (heap_mship st)(s \<mapsto> ms)\<rparr>"

definition pair_change :: "chan_state \<Rightarrow> addr \<Rightarrow> member \<Rightarrow> addr \<Rightarrow> membership \<Rightarrow> bool" where
  "pair_change st m mb' s ms' \<longleftrightarrow>
     (\<exists>mb ms. heap_member st m = Some mb \<and> heap_mship st s = Some ms \<and> mb_related mb = s \<and> ms_related ms = m
        \<and> mb_client mb' = mb_client mb \<and> mb_related mb' = s \<and> mb_local_member mb' = mb_local_member mb
        \<and> ms_channel ms' = ms_channel ms \<and> ms_related ms' = m \<and> ms_modes ms' = mb_modes mb' \<and> ms_flags ms' = mb_flags mb')"

lemma pair_heaps:
  "heap_member (pair_state m mb s ms st) = (heap_member st)(m \<mapsto> mb)" "heap_mship (pair_state m mb s ms st) = (heap_mship st)(s \<mapsto> ms)"
  "heap_local (pair_state m mb s ms st) = heap_local st" "heap_channel (pair_state m mb s ms st) = heap_channel st"
  "heap_user (pair_state m mb s ms st) = heap_user st"
  by (simp_all add: pair_state_def)

lemma pair_member_ok:
  assumes p: "pair_change st m mb' s ms'" and ok: "member_ok st ch a"
  shows "member_ok (pair_state m mb' s ms' st) ch a"
proof -
  obtain mb ms where mb: "heap_member st m = Some mb" "heap_mship st s = Some ms" "mb_related mb = s" "ms_related ms = m"
      "mb_client mb' = mb_client mb" "mb_related mb' = s" "mb_local_member mb' = mb_local_member mb"
      "ms_channel ms' = ms_channel ms" "ms_related ms' = m" "ms_modes ms' = mb_modes mb'" "ms_flags ms' = mb_flags mb'"
    using p unfolding pair_change_def by blast
  show ?thesis
  proof (cases "a = m")
    case True
    then obtain usr where "heap_user st (mb_client mb) = Some usr" "ms_channel ms = ch" "s \<in> set (u_channel usr)"
      "case mb_local_member mb of None \<Rightarrow> \<not> u_local usr | Some lm \<Rightarrow> u_local usr \<and> heap_local st lm = Some m"
      using ok mb(1-3) unfolding member_ok_def by auto
    then show ?thesis
      using mb True unfolding member_ok_def by (intro exI [of _ mb'] exI [of _ ms'] exI [of _ usr]) (simp add: pair_heaps cong: option.case_cong)
  next
    case False
    have "mb_related mb2 \<noteq> s" if "heap_member st a = Some mb2" for mb2
      using ok that mb(2,4) False unfolding member_ok_def by auto
    then show ?thesis
      using ok False by (elim member_ok_transfer) (auto simp: pair_heaps)
  qed
qed

lemma pair_membership_ok:
  assumes p: "pair_change st m mb' s ms'" and ok: "membership_ok st u a"
  shows "membership_ok (pair_state m mb' s ms' st) u a"
proof -
  obtain mb ms where mb: "heap_member st m = Some mb" "heap_mship st s = Some ms" "mb_related mb = s" "ms_related ms = m"
      "mb_client mb' = mb_client mb" "mb_related mb' = s" "ms_channel ms' = ms_channel ms" "ms_related ms' = m"
    using p unfolding pair_change_def by blast
  show ?thesis
  proof (cases "a = s")
    case True
    then obtain c where "heap_channel st (ms_channel ms) = Some c" "mb_client mb = u" "m \<in> set (c_members c)"
      using ok mb(1-4) unfolding membership_ok_def by auto
    then show ?thesis
      using mb True unfolding membership_ok_def by (intro exI [of _ ms'] exI [of _ mb'] exI [of _ c]) (simp add: pair_heaps)
  next
    case False
    have "ms_related ms2 \<noteq> m" if "heap_mship st a = Some ms2" for ms2
      using ok that mb(1,3) False unfolding membership_ok_def by auto
    then show ?thesis
      using ok False by (elim membership_ok_transfer) (auto simp: pair_heaps)
  qed
qed

lemma pair_channel_ok:
  assumes p: "pair_change st m mb' s ms'" and ok: "channel_ok st ch c"
  shows "channel_ok (pair_state m mb' s ms' st) ch c"
proof -
  obtain mb where mb: "heap_member st m = Some mb" "mb_local_member mb' = mb_local_member mb"
    using p unfolding pair_change_def by blast
  have "local_ok (pair_state m mb' s ms' st) c lm" if "local_ok st c lm" for lm
    using that mb unfolding local_ok_def by (auto simp: pair_heaps)
  moreover have "lm \<in> set (c_local_members c)"
    if "a \<in> set (c_members c)" "heap_member (pair_state m mb' s ms' st) a = Some mb2" "mb_local_member mb2 = Some lm" for a mb2 lm
    using ok that mb unfolding channel_ok_def by (cases "a = m") (auto simp: pair_heaps)
  ultimately show ?thesis
    using ok pair_member_ok [OF p] unfolding channel_ok_def by blast
qed

lemma pair_inv:
  assumes p: "pair_change st m mb' s ms'" and inv: "chan_inv st"
  shows "chan_inv (pair_state m mb' s ms' st)"
proof -
  let ?st = "pair_state m mb' s ms' st"
  obtain mb ms where mb: "heap_member st m = Some mb" "heap_mship st s = Some ms" "ms_channel ms' = ms_channel ms"
    using p unfolding pair_change_def by blast
  have "(\<lambda>s. map_option ms_channel (heap_mship ?st s)) = (\<lambda>s. map_option ms_channel (heap_mship st s))"
    using mb by (auto simp: pair_heaps)
  then have "user_ok ?st u usr" if "user_ok st u usr" for u usr
    using that pair_membership_ok [OF p] unfolding user_ok_def by simp
  then have "linked ?st"
    using inv pair_channel_ok [OF p] by (simp add: chan_inv_def linked_def pair_heaps)
  moreover have "unused ?st"
    using inv mb unfolding chan_inv_def unused_def by (auto simp: pair_state_def)
  moreover have "counted ?st"
    using inv by (simp add: chan_inv_def counted_def pair_heaps)
  moreover have "chans_registered ?st"
  proof (rule registered_same)
    show "chans_registered st"
      using inv by (simp add: chan_inv_def)
    show "chname ?st = chname st"
      by (simp add: fun_eq_iff chname_def pair_heaps)
  qed (simp_all add: pair_state_def)
  ultimately show ?thesis
    by (simp add: chan_inv_def)
qed

lemma change_modes_inv:
  assumes inv: "chan_inv st" and mb: "heap_member st m = Some mb" "heap_mship st (mb_related mb) = Some ms"
    "ms_related ms = m" "ms_modes ms = mb_modes mb" "ms_flags ms = mb_flags mb"
  shows "\<exists>st'. change_modes f m (mb_related mb) st = Inr st' \<and> chan_inv st'
    \<and> st' = pair_state m (mb\<lparr>mb_modes := f (mb_modes mb)\<rparr>) (mb_related mb) (ms\<lparr>ms_modes := f (mb_modes mb)\<rparr>) st"
proof -
  have "pair_change st m (mb\<lparr>mb_modes := f (mb_modes mb)\<rparr>) (mb_related mb) (ms\<lparr>ms_modes := f (mb_modes mb)\<rparr>)"
    using mb unfolding pair_change_def by simp
  then show ?thesis
    using pair_inv [OF _ inv] mb by (simp add: change_modes_def pair_state_def)
qed

subsection \<open>Leaving\<close>

text \<open>The state after the pair of \<open>client\<close> and \<open>ch\<close> was taken out, before the number of users changes.\<close>

definition left_state :: "addr \<Rightarrow> channel \<Rightarrow> addr \<Rightarrow> user \<Rightarrow> addr \<Rightarrow> member \<Rightarrow> addr \<Rightarrow> chan_state \<Rightarrow> chan_state" where
  "left_state ch c client usr m mb s st =
     st\<lparr>heap_member := (heap_member st)(m := None),
        heap_mship := (heap_mship st)(s := None),
        heap_local := (case mb_local_member mb of None \<Rightarrow> heap_local st | Some lm \<Rightarrow> (heap_local st)(lm := None)),
        heap_channel := (heap_channel st)(ch \<mapsto>
          c\<lparr>c_members := remove1 m (c_members c),
            c_local_members := (case mb_local_member mb of None \<Rightarrow> c_local_members c | Some lm \<Rightarrow> remove1 lm (c_local_members c))\<rparr>),
        heap_user := (heap_user st)(client \<mapsto> usr\<lparr>u_channel := remove1 s (u_channel usr), u_joined := u_joined usr - 1\<rparr>)\<rparr>"

definition leaving :: "chan_state \<Rightarrow> addr \<Rightarrow> channel \<Rightarrow> addr \<Rightarrow> user \<Rightarrow> addr \<Rightarrow> member \<Rightarrow> addr \<Rightarrow> bool" where
  "leaving st ch c client usr m mb s \<longleftrightarrow>
     linked st \<and> heap_channel st ch = Some c \<and> heap_user st client = Some usr \<and> s \<in> set (u_channel usr)
     \<and> heap_member st m = Some mb \<and> (\<exists>ms. heap_mship st s = Some ms \<and> ms_channel ms = ch \<and> ms_related ms = m)"

lemma leavingE:
  assumes "leaving st ch c client usr m mb s"
  obtains ms where "linked st" "heap_channel st ch = Some c" "heap_user st client = Some usr" "s \<in> set (u_channel usr)"
    "heap_member st m = Some mb" "heap_mship st s = Some ms" "ms_channel ms = ch" "ms_related ms = m"
    "mb_client mb = client" "mb_related mb = s" "m \<in> set (c_members c)"
    "case mb_local_member mb of None \<Rightarrow> \<not> u_local usr | Some lm \<Rightarrow> u_local usr \<and> heap_local st lm = Some m \<and> lm \<in> set (c_local_members c)"
proof -
  obtain ms where ms: "linked st" "heap_channel st ch = Some c" "heap_user st client = Some usr" "s \<in> set (u_channel usr)"
      "heap_member st m = Some mb" "heap_mship st s = Some ms" "ms_channel ms = ch" "ms_related ms = m"
    using assms unfolding leaving_def by blast
  have pair: "mb_client mb = client" "mb_related mb = s" "m \<in> set (c_members c)"
    using membership_okE [OF ms(1,3,4)] ms(2,5-8) by (metis option.inject)+
  have "case mb_local_member mb of None \<Rightarrow> \<not> u_local usr | Some lm \<Rightarrow> u_local usr \<and> heap_local st lm = Some m"
    using member_okE [OF ms(1,2) pair(3)] ms(3,5) pair(1) by (metis option.inject)
  moreover have "lm \<in> set (c_local_members c)" if "mb_local_member mb = Some lm" for lm
    using linkedD(1) [OF ms(1,2)] pair(3) ms(5) that unfolding channel_ok_def by blast
  ultimately show ?thesis
    using that [OF ms pair] by (auto split: option.splits)
qed

lemma leaving_local: "leaving st ch c client usr m mb s \<Longrightarrow> mb_local_member mb = Some lm \<Longrightarrow> heap_local st lm = Some m"
  by (erule leavingE) simp

lemma remove_withmb_left:
  assumes "leaving st ch c client usr m mb s"
  shows "remove_user_from_channel_withmb sd client ch s st = sub1_from_channel sd ch (left_state ch c client usr m mb s st)"
proof -
  obtain ms where ms: "heap_channel st ch = Some c" "heap_user st client = Some usr" "heap_member st m = Some mb" "heap_mship st s = Some ms"
      "ms_related ms = m" "case mb_local_member mb of None \<Rightarrow> \<not> u_local usr | Some lm \<Rightarrow> u_local usr \<and> heap_local st lm = Some m \<and> lm \<in> set (c_local_members c)"
    using leavingE [OF assms] by metis
  show ?thesis
  proof (cases "mb_local_member mb")
    case None
    then have "drop_membership s client (st\<lparr>heap_channel := (heap_channel st)(ch \<mapsto> c\<lparr>c_members := remove1 m (c_members c)\<rparr>),
        heap_member := (heap_member st)(m := None)\<rparr>) = Inr (left_state ch c client usr m mb s st)"
      using ms(2) by (cases st) (simp add: drop_membership_def client_user_def left_state_def)
    then show ?thesis
      using ms None by (simp add: remove_user_from_channel_withmb_def drop_member_def)
  next
    case (Some lm)
    then have "drop_membership s client (st\<lparr>heap_local := (heap_local st)(lm := None), heap_channel := (heap_channel st)(ch \<mapsto>
          c\<lparr>c_local_members := remove1 lm (c_local_members c), c_members := remove1 m (c_members c)\<rparr>),
        heap_member := (heap_member st)(m := None)\<rparr>) = Inr (left_state ch c client usr m mb s st)"
      using ms(2) by (cases st, cases c) (simp add: drop_membership_def client_user_def left_state_def)
    then show ?thesis
      using ms Some by (simp add: remove_user_from_channel_withmb_def drop_member_def drop_local_member_def)
  qed
qed

lemma left_heaps:
  "heap_member (left_state ch c client usr m mb s st) = (heap_member st)(m := None)"
  "heap_mship (left_state ch c client usr m mb s st) = (heap_mship st)(s := None)"
  "mb_local_member mb \<noteq> Some lm \<Longrightarrow> heap_local (left_state ch c client usr m mb s st) lm = heap_local st lm"
  "ch' \<noteq> ch \<Longrightarrow> heap_channel (left_state ch c client usr m mb s st) ch' = heap_channel st ch'"
  "u \<noteq> client \<Longrightarrow> heap_user (left_state ch c client usr m mb s st) u = heap_user st u"
  by (auto simp: left_state_def split: option.splits)

lemma left_member_ok:
  assumes l: "leaving st ch c client usr m mb s" and a: "a \<noteq> m" and ok: "member_ok st ch' a"
  shows "member_ok (left_state ch c client usr m mb s st) ch' a"
proof -
  obtain ms where ms: "heap_user st client = Some usr" "heap_member st m = Some mb" "heap_mship st s = Some ms" "ms_related ms = m"
      "case mb_local_member mb of None \<Rightarrow> \<not> u_local usr | Some lm \<Rightarrow> u_local usr \<and> heap_local st lm = Some m \<and> lm \<in> set (c_local_members c)"
    using leavingE [OF l] by metis
  have s: "mb_related mb2 \<noteq> s" if "heap_member st a = Some mb2" for mb2
    using ok that ms(3,4) a unfolding member_ok_def by auto
  have loc: "mb_local_member mb \<noteq> Some lm" if "heap_member st a = Some mb2" "mb_local_member mb2 = Some lm" for mb2 lm
    using ok that ms(5) a unfolding member_ok_def by (auto split: option.splits)
  show ?thesis
    using ok
  proof (rule member_ok_transfer)
    fix mb2 usr2
    assume *: "heap_member st a = Some mb2" "heap_user st (mb_client mb2) = Some usr2" "mb_related mb2 \<in> set (u_channel usr2)"
    show "\<exists>usr'. heap_user (left_state ch c client usr m mb s st) (mb_client mb2) = Some usr' \<and> u_local usr' = u_local usr2
        \<and> mb_related mb2 \<in> set (u_channel usr')"
      using * s [OF *(1)] ms(1) by (cases "mb_client mb2 = client") (auto simp: left_state_def)
  qed (use a s loc in \<open>auto simp: left_heaps\<close>)
qed

lemma left_membership_ok:
  assumes l: "leaving st ch c client usr m mb s" and b: "b \<noteq> s" and ok: "membership_ok st u b"
  shows "membership_ok (left_state ch c client usr m mb s st) u b"
proof -
  have m: "heap_member st m = Some mb" "mb_related mb = s" "heap_channel st ch = Some c"
    using leavingE [OF l] by metis+
  have r: "ms_related ms \<noteq> m" if "heap_mship st b = Some ms" for ms
    using ok that m b unfolding membership_ok_def by auto
  show ?thesis
    using ok
  proof (rule membership_ok_transfer)
    fix ms c0
    assume *: "heap_mship st b = Some ms" "heap_channel st (ms_channel ms) = Some c0" "ms_related ms \<in> set (c_members c0)"
    show "\<exists>c'. heap_channel (left_state ch c client usr m mb s st) (ms_channel ms) = Some c' \<and> ms_related ms \<in> set (c_members c')"
      using * r [OF *(1)] m(3) by (cases "ms_channel ms = ch") (auto simp: left_state_def)
  qed (use b r in \<open>auto simp: left_heaps\<close>)
qed

lemma left_channel_ok:
  assumes l: "leaving st ch c client usr m mb s" and "heap_channel (left_state ch c client usr m mb s st) ch' = Some c'"
  shows "channel_ok (left_state ch c client usr m mb s st) ch' c'"
proof -
  let ?st = "left_state ch c client usr m mb s st"
  obtain ms where ms: "linked st" "heap_channel st ch = Some c" "heap_member st m = Some mb" "heap_mship st s = Some ms"
      "ms_channel ms = ch" "ms_related ms = m" "mb_related mb = s" "m \<in> set (c_members c)"
    using leavingE [OF l] by metis
  have local: "local_ok ?st c2 lm" if "local_ok st c1 lm" "mb_local_member mb \<noteq> Some lm" "set (c_members c1) - {m} \<subseteq> set (c_members c2)" for c1 c2 lm
    using that ms(3) unfolding local_ok_def by (force simp: left_heaps)
  show ?thesis
  proof (cases "ch' = ch")
    case False
    then have old: "heap_channel st ch' = Some c'"
      using assms(2) by (simp add: left_heaps)
    then have ok: "channel_ok st ch' c'"
      using linkedD(1) [OF ms(1)] by simp
    have m: "m \<notin> set (c_members c')"
    proof
      assume "m \<in> set (c_members c')"
      then have "ms_channel ms = ch'"
        using member_okE [OF ms(1) old] ms(3,4,7) by (metis option.inject)
      then show False
        using ms(5) False by simp
    qed
    have "local_ok ?st c' lm" if "lm \<in> set (c_local_members c')" for lm
    proof (rule local)
      show lm: "local_ok st c' lm"
        using ok that by (simp add: channel_ok_def)
      show "mb_local_member mb \<noteq> Some lm"
      proof
        assume "mb_local_member mb = Some lm"
        then have "heap_local st lm = Some m"
          by (rule leaving_local [OF l])
        then show False
          using lm m unfolding local_ok_def by auto
      qed
    qed auto
    moreover have "\<forall>a \<in> set (c_members c'). member_ok ?st ch' a"
      using ok m left_member_ok [OF l] unfolding channel_ok_def by metis
    moreover have "\<forall>a \<in> set (c_members c'). heap_member ?st a = heap_member st a"
      using m by (auto simp: left_heaps)
    ultimately show ?thesis
      using ok unfolding channel_ok_def by simp
  next
    case True
    have ok: "channel_ok st ch c"
      using linkedD(1) [OF ms(1,2)] .
    have c': "c_members c' = remove1 m (c_members c)"
        "c_local_members c' = (case mb_local_member mb of None \<Rightarrow> c_local_members c | Some lm \<Rightarrow> remove1 lm (c_local_members c))"
      using assms(2) True by (auto simp: left_state_def)
    have set: "set (c_members c') = set (c_members c) - {m}"
      using ok by (simp add: c' channel_ok_def)
    have lset: "set (c_local_members c') = {lm \<in> set (c_local_members c). mb_local_member mb \<noteq> Some lm}" "distinct (c_local_members c')"
      using ok by (auto simp: c' channel_ok_def split: option.splits)
    have "\<forall>lm \<in> set (c_local_members c'). local_ok ?st c' lm"
      using ok local [of c _ c'] lset(1) set unfolding channel_ok_def by auto
    moreover have "lm \<in> set (c_local_members c')"
      if a: "a \<in> set (c_members c')" "heap_member ?st a = Some mb2" "mb_local_member mb2 = Some lm" for a mb2 lm
    proof -
      have old: "heap_member st a = Some mb2" "a \<in> set (c_members c)" "a \<noteq> m"
        using a set by (auto simp: left_heaps split: if_splits)
      then have "lm \<in> set (c_local_members c)"
        using ok a(3) unfolding channel_ok_def by blast
      moreover have "heap_local st lm = Some a"
        using member_okE [OF ms(1,2) old(2)] old(1) a(3) by force
      moreover have "heap_local st lm = Some m" if "mb_local_member mb = Some lm"
        using leaving_local [OF l that] .
      ultimately show ?thesis
        using lset(1) old(3) by auto
    qed
    moreover have "\<forall>a \<in> set (c_members c'). member_ok ?st ch a"
      using ok set left_member_ok [OF l] unfolding channel_ok_def by (metis Diff_iff singletonI)
    moreover have "distinct (c_members c')"
      using ok by (simp add: c'(1) channel_ok_def)
    ultimately show ?thesis
      using lset(2) unfolding channel_ok_def True by blast
  qed
qed

lemma int_length_remove1: "x \<in> set xs \<Longrightarrow> int (length (remove1 x xs)) = int (length xs) - 1"
  by (induction xs) auto

lemma left_user_ok:
  assumes l: "leaving st ch c client usr m mb s" and "heap_user (left_state ch c client usr m mb s st) u = Some usr'"
  shows "user_ok (left_state ch c client usr m mb s st) u usr'"
proof -
  let ?st = "left_state ch c client usr m mb s st"
  obtain ms where ms: "linked st" "heap_user st client = Some usr" "s \<in> set (u_channel usr)" "heap_member st m = Some mb"
      "heap_mship st s = Some ms" "ms_related ms = m" "mb_client mb = client"
    using leavingE [OF l] by metis
  obtain usr0 where old: "heap_user st u = Some usr0" "set (u_channel usr') = set (u_channel usr0) - {s}"
      "distinct (u_channel usr')" "u_joined usr' = int (length (u_channel usr'))"
  proof (cases "u = client")
    case True
    have "user_ok st client usr"
      using linkedD(2) [OF ms(1,2)] .
    then show ?thesis
      using that [of usr] assms(2) True ms(2) int_length_remove1 [OF ms(3)] by (auto simp: left_state_def user_ok_def)
  next
    case False
    have u: "heap_user st u = Some usr'"
      using assms(2) False by (simp add: left_heaps)
    have "s \<notin> set (u_channel usr')"
    proof
      assume "s \<in> set (u_channel usr')"
      then have "mb_client mb = u"
        using membership_okE [OF ms(1) u] ms(4-6) by (metis option.inject)
      then show False
        using ms(7) False by simp
    qed
    then show ?thesis
      using that [OF u] linkedD(2) [OF ms(1) u] by (simp add: user_ok_def)
  qed
  have ok: "user_ok st u usr0"
    using linkedD(2) [OF ms(1) old(1)] .
  have "\<forall>b \<in> set (u_channel usr'). membership_ok ?st u b"
    using ok old(2) left_membership_ok [OF l] unfolding user_ok_def by (metis Diff_iff singletonI)
  moreover have "inj_on (\<lambda>s. map_option ms_channel (heap_mship st s)) (set (u_channel usr'))"
    using ok old(2) unfolding user_ok_def by (metis Diff_subset inj_on_subset)
  then have "inj_on (\<lambda>s. map_option ms_channel (heap_mship ?st s)) (set (u_channel usr'))"
    using old(2) by (auto simp: left_heaps inj_on_def)
  ultimately show ?thesis
    using old(3,4) by (simp add: user_ok_def)
qed

lemma left_linked:
  assumes "leaving st ch c client usr m mb s"
  shows "linked (left_state ch c client usr m mb s st)"
  unfolding linked_def using left_channel_ok [OF assms] left_user_ok [OF assms] by blast

text \<open>The number of users changes, and a channel without members may go.\<close>

lemma users_linked:
  assumes "linked st" "heap_channel st ch = Some c"
  shows "linked (st\<lparr>heap_channel := (heap_channel st)(ch \<mapsto> c\<lparr>c_users := n\<rparr>)\<rparr>)"
proof -
  let ?st = "st\<lparr>heap_channel := (heap_channel st)(ch \<mapsto> c\<lparr>c_users := n\<rparr>)\<rparr>"
  have member: "member_ok ?st ch' a \<longleftrightarrow> member_ok st ch' a" and loc: "local_ok ?st c' lm \<longleftrightarrow> local_ok st c' lm" for ch' a c' lm
    by (simp_all add: member_ok_def local_ok_def cong: option.case_cong)
  have "membership_ok ?st u b" if "membership_ok st u b" for u b
    using that assms(2) by (elim membership_ok_transfer) auto
  then have "user_ok ?st u usr" if "heap_user st u = Some usr" for u usr
    using linkedD(2) [OF assms(1) that] by (simp add: user_ok_def)
  moreover have "channel_ok ?st ch' c'" if "channel_ok st ch' c'" for ch' c'
    using that by (simp add: channel_ok_def member loc)
  moreover have "channel_ok st ch (c\<lparr>c_users := n\<rparr>)"
    using linkedD(1) [OF assms] by (simp add: channel_ok_def local_ok_def)
  ultimately show ?thesis
    using assms(1) by (auto simp: linked_def)
qed

lemma destroyed_linked:
  assumes "linked st" "heap_channel st ch = Some c" "c_members c = []"
  shows "linked (st\<lparr>heap_channel := (heap_channel st)(ch := None), channels := chs, chan_hash := hash, irccounts_channels := n\<rparr>)"
proof -
  let ?st = "st\<lparr>heap_channel := (heap_channel st)(ch := None), channels := chs, chan_hash := hash, irccounts_channels := n\<rparr>"
  have member: "member_ok ?st ch' a \<longleftrightarrow> member_ok st ch' a" and loc: "local_ok ?st c' lm \<longleftrightarrow> local_ok st c' lm" for ch' a c' lm
    by (simp_all add: member_ok_def local_ok_def cong: option.case_cong)
  have "membership_ok ?st u b" if "membership_ok st u b" for u b
    using that assms(2,3) by (elim membership_ok_transfer) auto
  then have "user_ok ?st u usr" if "heap_user st u = Some usr" for u usr
    using linkedD(2) [OF assms(1) that] by (simp add: user_ok_def)
  moreover have "channel_ok ?st ch' c'" if "channel_ok st ch' c'" for ch' c'
    using that by (simp add: channel_ok_def member loc)
  ultimately show ?thesis
    using assms(1) by (auto simp: linked_def)
qed

lemma table_ok_cong: "table_ok h nm t \<Longrightarrow> (\<And>a. a \<in> entries t \<Longrightarrow> nm' a = nm a) \<Longrightarrow> table_ok h nm' t"
  unfolding table_ok_def entries_def by (metis UNIV_I UN_I)

lemma destroyed_registered:
  assumes "chans_registered st" "heap_channel st ch = Some c"
  shows "chans_registered (st\<lparr>heap_channel := (heap_channel st)(ch := None), channels := remove1 ch (channels st),
    chan_hash := del_from_channel_hash_table (c_name c) ch (chan_hash st), irccounts_channels := irccounts_channels st - 1\<rparr>)"
proof -
  let ?st = "st\<lparr>heap_channel := (heap_channel st)(ch := None), channels := remove1 ch (channels st),
    chan_hash := del_from_channel_hash_table (c_name c) ch (chan_hash st), irccounts_channels := irccounts_channels st - 1\<rparr>"
  have table: "table_ok (hash_channel_name (siphashkey_chan (chan_hash st))) (chname st) (channelTable (chan_hash st))"
    using assms(1) by (simp add: chans_registered_def)
  have name: "c_name c = chname st ch"
    using assms(2) by (simp add: chname_def)
  have hash: "chan_hash ?st = (chan_hash st)\<lparr>channelTable := list_del ch (channelTable (chan_hash st))\<rparr>"
    using del_channel_list_del [OF table, of ch] by (simp add: name)
  have entries: "entries (list_del ch (channelTable (chan_hash st))) = entries (channelTable (chan_hash st)) - {ch}"
    using chn.entries_del [OF table] .
  have same: "chname ?st a = chname st a" if "a \<noteq> ch" for a
    using that by (simp add: chname_def)
  have "table_ok (hash_channel_name (siphashkey_chan (chan_hash st))) (chname ?st) (list_del ch (channelTable (chan_hash st)))"
    by (rule table_ok_cong [OF chn.table_ok_del [OF table]]) (use same entries in blast)
  moreover have "irccounts_channels ?st = int (length (channels ?st))"
  proof -
    have "ch \<in> set (channels st)" "irccounts_channels st = int (length (channels st))"
      using assms by (auto simp: chans_registered_def)
    then show ?thesis
      using int_length_remove1 [of ch "channels st"] by simp
  qed
  moreover have "dom (heap_channel ?st) = dom (heap_channel st) - {ch}"
    by auto
  moreover have "set (channels ?st) = set (channels st) - {ch}" "distinct (channels ?st)"
    using assms(1) by (simp_all add: chans_registered_def)
  ultimately show ?thesis
    using assms(1) same entries unfolding chans_registered_def hash by simp
qed

text \<open>
  The state after \<open>client\<close> left: without the channel if nobody is left in it and the hooks agree.
\<close>

definition gone_state :: "(addr \<Rightarrow> bool) \<Rightarrow> addr \<Rightarrow> channel \<Rightarrow> chan_state \<Rightarrow> chan_state" where
  "gone_state sd ch c st =
     (if c_members c = [] \<and> sd ch
      then st\<lparr>heap_channel := (heap_channel st)(ch := None), channels := remove1 ch (channels st),
              chan_hash := del_from_channel_hash_table (c_name c) ch (chan_hash st), irccounts_channels := irccounts_channels st - 1\<rparr>
      else st\<lparr>heap_channel := (heap_channel st)(ch \<mapsto> c\<lparr>c_users := int (length (c_members c))\<rparr>)\<rparr>)"

lemma sub1_gone:
  assumes "heap_channel st ch = Some c" "c_users c = int (length (c_members c)) + 1 \<or> c_users c = 0 \<and> c_members c = []"
  shows "sub1_from_channel sd ch st = Inr (gone_state sd ch c st, c_members c = [] \<and> sd ch)"
  using assms by (cases "c_members c") (auto simp: sub1_from_channel_def gone_state_def)

lemma gone_inv:
  assumes linked: "linked st" and reg: "chans_registered st" and un: "unused st" and c: "heap_channel st ch = Some c"
    and other: "\<And>ch' c'. ch' \<noteq> ch \<Longrightarrow> heap_channel st ch' = Some c' \<Longrightarrow> c_users c' = int (length (c_members c'))"
  shows "chan_inv (gone_state sd ch c st)"
proof -
  have ch: "ch < next_addr st"
    using un c unfolding unused_def by (metis not_le option.distinct(1))
  then have "unused (gone_state sd ch c st)"
    using un by (auto simp: unused_def gone_state_def)
  moreover have "counted (gone_state sd ch c st)"
    using other by (auto simp: counted_def gone_state_def)
  moreover have "linked (gone_state sd ch c st)"
    using users_linked [OF linked c] destroyed_linked [OF linked c] by (simp add: gone_state_def)
  moreover have "chans_registered (st\<lparr>heap_channel := (heap_channel st)(ch \<mapsto> c\<lparr>c_users := n\<rparr>)\<rparr>)" for n
    using c by (intro registered_same [OF reg]) (auto simp: chname_def fun_eq_iff)
  then have "chans_registered (gone_state sd ch c st)"
    using destroyed_registered [OF reg c] by (simp add: gone_state_def)
  ultimately show ?thesis
    by (simp add: chan_inv_def)
qed

lemma remove_withmb_inv:
  assumes l: "leaving st ch c client usr m mb s" and inv: "chan_inv st"
  shows "\<exists>c'. heap_channel (left_state ch c client usr m mb s st) ch = Some c' \<and> c_members c' = remove1 m (c_members c) \<and> c_name c' = c_name c
    \<and> remove_user_from_channel_withmb sd client ch s st = Inr (gone_state sd ch c' (left_state ch c client usr m mb s st), c_members c' = [] \<and> sd ch)
    \<and> chan_inv (gone_state sd ch c' (left_state ch c client usr m mb s st))"
proof -
  let ?st = "left_state ch c client usr m mb s st"
  obtain c' where c': "heap_channel ?st ch = Some c'" "c_members c' = remove1 m (c_members c)" "c_users c' = c_users c" "c_name c' = c_name c"
    by (simp add: left_state_def)
  have m: "m \<in> set (c_members c)" "heap_channel st ch = Some c" "linked st"
    using leavingE [OF l] by metis+
  have users: "c_users c' = int (length (c_members c')) + 1"
    using inv m(1,2) int_length_remove1 [OF m(1)] c'(2,3) by (simp add: chan_inv_def counted_def)
  have "chans_registered ?st"
  proof (rule registered_same)
    show "chans_registered st"
      using inv by (simp add: chan_inv_def)
    show "chname ?st = chname st"
      using m(2) by (auto simp: chname_def fun_eq_iff left_state_def)
  qed (use m(2) in \<open>auto simp: left_state_def\<close>)
  moreover have "unused ?st"
  proof -
    have "ch < next_addr st"
      using inv m(2) unfolding chan_inv_def unused_def by (metis not_le option.distinct(1))
    then show ?thesis
      using inv by (auto simp: chan_inv_def unused_def left_state_def split: option.splits)
  qed
  moreover have "c_users c0 = int (length (c_members c0))" if "ch' \<noteq> ch" "heap_channel ?st ch' = Some c0" for ch' c0
    using inv that by (simp add: chan_inv_def counted_def left_heaps)
  ultimately have "chan_inv (gone_state sd ch c' ?st)"
    using gone_inv [OF left_linked [OF l]] c'(1) by blast
  then show ?thesis
    using remove_withmb_left [OF l] sub1_gone [OF c'(1)] users c' by simp
qed

subsection \<open>Creating a channel\<close>

lemma find_channel_iff:
  assumes "chans_registered st" "cstr n"
  shows "find_channel (chname st) (chan_hash st) n = None \<longleftrightarrow> (\<forall>ch \<in> dom (heap_channel st). smycmp n (chname st ch) \<noteq> 0)"
    and "find_channel (chname st) (chan_hash st) n = Some ch \<Longrightarrow> ch \<in> dom (heap_channel st) \<and> smycmp n (chname st ch) = 0"
proof -
  let ?h = "chan_hash st"
  have table: "table_ok (hash_channel_name (siphashkey_chan ?h)) (chname st) (channelTable ?h)" "entries (channelTable ?h) = dom (heap_channel st)"
      "\<forall>ch \<in> dom (heap_channel st). cstr (chname st ch)"
    using assms(1) by (simp_all add: chans_registered_def)
  have sound: "ch \<in> dom (heap_channel st) \<and> smycmp n (chname st ch) = 0" if "find_channel (chname st) ?h n = Some ch" for ch
    using chn.bucket_sound [of "\<lambda>_. True" n "chname st" "channelTable ?h" "siphashkey_chan ?h" ch] that table(2)
    by (simp add: find_channel_def)
  then show "find_channel (chname st) ?h n = Some ch \<Longrightarrow> ch \<in> dom (heap_channel st) \<and> smycmp n (chname st ch) = 0"
    by blast
  have "find_channel (chname st) ?h n \<noteq> None" if "ch \<in> dom (heap_channel st)" "smycmp n (chname st ch) = 0" for ch
    using chn.bucket_complete [OF table(1), of ch n "\<lambda>_. True"] that table(2,3) assms(2) by (auto simp: find_channel_def)
  then show "find_channel (chname st) ?h n = None \<longleftrightarrow> (\<forall>ch \<in> dom (heap_channel st). smycmp n (chname st ch) \<noteq> 0)"
    using sound by (metis option.exhaust)
qed

text \<open>The name under which a channel is created.\<close>

definition chan_namebuf :: "cstring \<Rightarrow> cstring" where
  "chan_namebuf name = takeWhile (\<lambda>c. \<not> bad_channel_char c) (take CHANNELLEN name)"

lemma fst_strlcpy_take: "0 < n \<Longrightarrow> fst (strlcpy dst src n) = take (n - 1) src"
  by (auto simp: strlcpy_def Let_def)

lemma cstr_namebuf: "cstr (chan_namebuf name)"
proof -
  have "NUL \<notin> set (chan_namebuf name)"
    using set_takeWhileD unfolding chan_namebuf_def by (fastforce simp: bad_channel_char_def)
  then show ?thesis
    by (simp add: cstr_def)
qed

definition made_state :: "cstring \<Rightarrow> chan_state \<Rightarrow> chan_state" where
  "made_state namebuf st =
     st\<lparr>heap_channel := (heap_channel st)(next_addr st \<mapsto> \<lparr>c_name = namebuf, c_users = 0, c_members = [], c_local_members = []\<rparr>),
        channels := next_addr st # channels st,
        chan_hash := add_to_channel_hash_table namebuf (next_addr st) (chan_hash st),
        irccounts_channels := irccounts_channels st + 1, next_addr := Suc (next_addr st)\<rparr>"

lemma make_channel_cases:
  assumes "name \<noteq> []"
  shows "make_channel name st =
    (case find_channel (chname st) (chan_hash st) (chan_namebuf name) of
       Some ch \<Rightarrow> (st, Some ch)
     | None \<Rightarrow> (made_state (chan_namebuf name) st, Some (next_addr st)))"
  using assms by (simp add: make_channel_def chan_namebuf_def made_state_def fst_strlcpy_take Let_def CHANNELLEN_def split: option.splits)

lemma made_linked:
  assumes "linked st" "heap_channel st (next_addr st) = None"
  shows "linked (made_state namebuf st)"
proof -
  let ?st = "made_state namebuf st"
  have member: "member_ok ?st ch' a \<longleftrightarrow> member_ok st ch' a" and loc: "local_ok ?st c' lm \<longleftrightarrow> local_ok st c' lm" for ch' a c' lm
    by (simp_all add: made_state_def member_ok_def local_ok_def cong: option.case_cong)
  have "membership_ok ?st u b" if "membership_ok st u b" for u b
    using that assms(2) by (elim membership_ok_transfer) (auto simp: made_state_def)
  then have "user_ok ?st u usr" if "heap_user st u = Some usr" for u usr
    using linkedD(2) [OF assms(1) that] by (simp add: user_ok_def made_state_def)
  moreover have "channel_ok ?st ch' c'" if "channel_ok st ch' c'" for ch' c'
    using that unfolding channel_ok_def member loc by (simp add: made_state_def)
  moreover have "channel_ok st ch \<lparr>c_name = namebuf, c_users = 0, c_members = [], c_local_members = []\<rparr>" for ch
    by (simp add: channel_ok_def)
  ultimately show ?thesis
    using assms(1) unfolding linked_def by (simp add: made_state_def)
qed

lemma made_registered:
  assumes reg: "chans_registered st" and fresh: "heap_channel st (next_addr st) = None" and cstr: "cstr namebuf"
    and none: "find_channel (chname st) (chan_hash st) namebuf = None"
  shows "chans_registered (made_state namebuf st)"
proof -
  let ?st = "made_state namebuf st" and ?ch = "next_addr st" and ?h = "chan_hash st"
  have table: "table_ok (hash_channel_name (siphashkey_chan ?h)) (chname st) (channelTable ?h)" "entries (channelTable ?h) = dom (heap_channel st)"
    using reg by (simp_all add: chans_registered_def)
  have name: "chname ?st ?ch = namebuf" "a \<noteq> ?ch \<Longrightarrow> chname ?st a = chname st a" for a
    by (simp_all add: chname_def made_state_def)
  have new: "?ch \<notin> entries (channelTable ?h)" "?ch \<notin> set (channels st)"
    using fresh table(2) reg by (auto simp: chans_registered_def)
  have "table_ok (hash_channel_name (siphashkey_chan ?h)) (chname ?st) (channelTable ?h)"
    by (rule table_ok_cong [OF table(1)]) (use name(2) new(1) in metis)
  from chn.table_ok_add [OF this new(1)]
  have "table_ok (hash_channel_name (siphashkey_chan ?h)) (chname ?st) (list_add (hash_channel_name (siphashkey_chan ?h) namebuf) ?ch (channelTable ?h))"
    by (simp add: name(1))
  moreover have "chan_hash ?st = ?h\<lparr>channelTable := list_add (hash_channel_name (siphashkey_chan ?h) namebuf) ?ch (channelTable ?h)\<rparr>"
    by (simp add: made_state_def add_to_channel_hash_table_def)
  moreover have "entries (list_add (hash_channel_name (siphashkey_chan ?h) namebuf) ?ch (channelTable ?h)) = insert ?ch (dom (heap_channel st))"
    using chn.entries_add table(2) by simp
  moreover have dom: "dom (heap_channel ?st) = insert ?ch (dom (heap_channel st))" "channels ?st = ?ch # channels st"
      "irccounts_channels ?st = irccounts_channels st + 1"
    by (simp_all add: made_state_def)
  moreover have "\<forall>ch \<in> dom (heap_channel ?st). cstr (chname ?st ch)"
    using reg name cstr unfolding dom chans_registered_def by (metis insert_iff)
  moreover have "ch = ch'" if "ch \<in> dom (heap_channel ?st)" "ch' \<in> dom (heap_channel ?st)" "smycmp (chname ?st ch) (chname ?st ch') = 0" for ch ch'
  proof -
    have other: "smycmp namebuf (chname st a) \<noteq> 0 \<and> smycmp (chname st a) namebuf \<noteq> 0" if "a \<in> dom (heap_channel st)" for a
      using find_channel_iff(1) [OF reg cstr] none that smycmp_antisym [of namebuf "chname st a"] by (auto simp: sgn_if split: if_splits)
    show ?thesis
    proof (cases "ch = ?ch \<or> ch' = ?ch")
      case True
      then show ?thesis
        using that name other fresh unfolding dom(1) by (metis insert_iff)
    next
      case False
      then show ?thesis
        using that name(2) reg unfolding dom(1) chans_registered_def by (metis insert_iff)
    qed
  qed
  ultimately show ?thesis
    using reg new(2) unfolding chans_registered_def by simp
qed

lemma make_channel_inv:
  assumes inv: "chan_inv st" and "name \<noteq> []"
  shows "\<exists>st' ch. make_channel name st = (st', Some ch) \<and> chan_inv st' \<and> ch \<in> dom (heap_channel st') \<and> smycmp (chan_namebuf name) (chname st' ch) = 0"
proof -
  have reg: "chans_registered st" and un: "unused st" and linked: "linked st" and counted: "counted st"
    using inv by (simp_all add: chan_inv_def)
  have fresh: "heap_channel st (next_addr st) = None"
    using un by (simp add: unused_def)
  show ?thesis
  proof (cases "find_channel (chname st) (chan_hash st) (chan_namebuf name)")
    case (Some ch)
    then show ?thesis
      using find_channel_iff(2) [OF reg cstr_namebuf Some] inv by (simp add: make_channel_cases [OF assms(2)])
  next
    case None
    have "chans_registered (made_state (chan_namebuf name) st)"
      using made_registered [OF reg fresh cstr_namebuf None] .
    moreover have "linked (made_state (chan_namebuf name) st)"
      using made_linked [OF linked fresh] .
    moreover have "unused (made_state (chan_namebuf name) st)" "counted (made_state (chan_namebuf name) st)"
      using un counted by (auto simp: unused_def counted_def made_state_def)
    moreover have "smycmp (chan_namebuf name) (chan_namebuf name) = 0"
      using cstr_namebuf by (simp add: smycmp_fold)
    ultimately show ?thesis
      using None by (simp add: make_channel_cases [OF assms(2)] chan_inv_def) (simp add: made_state_def chname_def)
  qed
qed

end
