(* ===== verification/Channel_Access.thy ===== *)
theory Channel_Access
  imports Channel_Members
begin

text \<open>
  What the structures of the theory \<^verbatim>\<open>Channel_Members\<close> stand for: a partial function from users and channels to modes.
  Every operation of \<^verbatim>\<open>src/channel.c\<close> on members is shown to return without a fault in every state that the
  server can reach and to change this function at one point, or, for a user that quits, at all of its channels.
\<close>

unbundle bit_operations_syntax

section \<open>Who has which access\<close>

text \<open>The relation of users and channels that the structures stand for, and as a partial function to the modes.\<close>

definition on_channel :: "chan_state \<Rightarrow> addr \<Rightarrow> addr \<Rightarrow> membership \<Rightarrow> bool" where
  "on_channel st u ch ms \<longleftrightarrow>
     (\<exists>usr s. heap_user st u = Some usr \<and> s \<in> set (u_channel usr) \<and> heap_mship st s = Some ms \<and> ms_channel ms = ch)"

definition access :: "chan_state \<Rightarrow> addr \<Rightarrow> addr \<Rightarrow> cstring option" where
  "access st u ch =
     (case heap_user st u of
        None \<Rightarrow> None
      | Some usr \<Rightarrow>
          (case find (\<lambda>s. map_option ms_channel (heap_mship st s) = Some ch) (u_channel usr) of
             None \<Rightarrow> None
           | Some s \<Rightarrow> map_option ms_modes (heap_mship st s)))"

lemma find_link_list:
  "\<forall>s \<in> set ss. heap_mship st s \<noteq> None \<Longrightarrow>
   find_membership_link st ss ch = Inr (find (\<lambda>s. map_option ms_channel (heap_mship st s) = Some ch) ss)"
  by (induction ss) (auto simp: deref_def)

lemma find_link:
  assumes "linked st" "heap_user st u = Some usr"
  shows "find_membership_link st (u_channel usr) ch = Inr (find (\<lambda>s. map_option ms_channel (heap_mship st s) = Some ch) (u_channel usr))"
proof -
  have "\<forall>s \<in> set (u_channel usr). heap_mship st s \<noteq> None"
    using membership_okE [OF assms] by (metis option.distinct(1))
  then show ?thesis
    by (rule find_link_list)
qed

lemma on_channel_unique:
  assumes "linked st" "on_channel st u ch ms" "on_channel st u ch ms'"
  shows "ms = ms'"
proof -
  obtain usr s s' where s: "heap_user st u = Some usr" "s \<in> set (u_channel usr)" "heap_mship st s = Some ms" "ms_channel ms = ch"
      "s' \<in> set (u_channel usr)" "heap_mship st s' = Some ms'" "ms_channel ms' = ch"
    using assms(2,3) unfolding on_channel_def by auto
  have "inj_on (\<lambda>s. map_option ms_channel (heap_mship st s)) (set (u_channel usr))"
    using linkedD(2) [OF assms(1) s(1)] by (simp add: user_ok_def)
  from inj_onD [OF this, of s s'] have "s = s'"
    using s by simp
  then show ?thesis
    using s by simp
qed

lemma access_Some:
  assumes "linked st"
  shows "access st u ch = Some modes \<longleftrightarrow> (\<exists>ms. on_channel st u ch ms \<and> ms_modes ms = modes)"
proof
  assume "access st u ch = Some modes"
  then obtain usr s ms where s: "heap_user st u = Some usr" "find (\<lambda>s. map_option ms_channel (heap_mship st s) = Some ch) (u_channel usr) = Some s"
      "heap_mship st s = Some ms" "ms_modes ms = modes"
    by (auto simp: access_def split: option.splits)
  then have "on_channel st u ch ms"
    using find_SomeD [OF s(2)] unfolding on_channel_def by auto
  then show "\<exists>ms. on_channel st u ch ms \<and> ms_modes ms = modes"
    using s(4) by blast
next
  assume "\<exists>ms. on_channel st u ch ms \<and> ms_modes ms = modes"
  then obtain ms usr s where s: "on_channel st u ch ms" "ms_modes ms = modes" "heap_user st u = Some usr" "s \<in> set (u_channel usr)"
      "heap_mship st s = Some ms" "ms_channel ms = ch"
    unfolding on_channel_def by blast
  then obtain s' where s': "find (\<lambda>s. map_option ms_channel (heap_mship st s) = Some ch) (u_channel usr) = Some s'"
    by (cases "find (\<lambda>s. map_option ms_channel (heap_mship st s) = Some ch) (u_channel usr)") (auto simp: find_None_iff)
  then obtain ms' where ms': "heap_mship st s' = Some ms'" "ms_channel ms' = ch" "s' \<in> set (u_channel usr)"
    using find_SomeD [OF s'] by auto
  then have "on_channel st u ch ms'"
    using s(3) unfolding on_channel_def by blast
  then have "ms' = ms"
    using on_channel_unique [OF assms] s(1) by blast
  then show "access st u ch = Some modes"
    using s s' ms' by (simp add: access_def)
qed

lemma access_None:
  assumes "linked st"
  shows "access st u ch = None \<longleftrightarrow> (\<forall>ms. \<not> on_channel st u ch ms)"
  using access_Some [OF assms] by (metis not_None_eq)

lemma access_eqI:
  assumes "linked st" "linked st'" "\<And>ms. on_channel st' u ch ms \<longleftrightarrow> on_channel st u ch ms"
  shows "access st' u ch = access st u ch"
  using assms access_Some [OF assms(1), of u ch] access_Some [OF assms(2), of u ch] by (metis option.exhaust)

lemma find_mbs_access:
  assumes "linked st" "heap_user st u = Some usr"
  shows "find_mbs st u ch = (case find (\<lambda>s. map_option ms_channel (heap_mship st s) = Some ch) (u_channel usr) of
      None \<Rightarrow> Inr None | Some s \<Rightarrow> Inr (Some (ms_related (the (heap_mship st s)), s)))"
proof (cases "find (\<lambda>s. map_option ms_channel (heap_mship st s) = Some ch) (u_channel usr)")
  case None
  then show ?thesis
    using assms by (simp add: find_mbs_def find_link)
next
  case (Some s)
  then obtain ms where "heap_mship st s = Some ms"
    using find_SomeD [OF Some] by auto
  then show ?thesis
    using assms Some by (simp add: find_mbs_def find_link)
qed

text \<open>The changes of the state as changes of this relation.\<close>

lemma on_channel_user:
  "heap_user st u = Some usr \<Longrightarrow> on_channel st u ch ms \<longleftrightarrow> (\<exists>s \<in> set (u_channel usr). heap_mship st s = Some ms \<and> ms_channel ms = ch)"
  "heap_user st u = None \<Longrightarrow> \<not> on_channel st u ch ms"
  by (auto simp: on_channel_def)

lemma on_channel_same:
  assumes "heap_user st' u = heap_user st u" "\<And>usr s. heap_user st u = Some usr \<Longrightarrow> s \<in> set (u_channel usr) \<Longrightarrow> heap_mship st' s = heap_mship st s"
  shows "on_channel st' u ch ms \<longleftrightarrow> on_channel st u ch ms"
  using assms by (cases "heap_user st u") (simp_all add: on_channel_user)

lemma joined_on_channel:
  assumes "joining st ch c client usr"
  shows "on_channel (joined_state ch c client usr st) u ch' ms
    \<longleftrightarrow> on_channel st u ch' ms \<or> u = client \<and> ch' = ch \<and> ms = \<lparr>ms_channel = ch, ms_modes = [], ms_related = next_addr st, ms_flags = 0\<rparr>"
proof -
  let ?st = "joined_state ch c client usr st" and ?s = "Suc (next_addr st)"
  have fresh: "heap_mship st ?s = None" and user: "heap_user st client = Some usr" and linked: "linked st"
    using assms by (simp_all add: joining_def unused_def)
  have keep: "heap_mship ?st s = heap_mship st s" if "heap_user st u2 = Some usr2" "s \<in> set (u_channel usr2)" for u2 usr2 s
  proof -
    have "s \<noteq> ?s"
      using fresh membership_okE [OF linked that] by (metis option.distinct(1))
    then show ?thesis
      by (simp add: joined_state_def Let_def)
  qed
  show ?thesis
  proof (cases "u = client")
    case True
    have "heap_user ?st client = Some (usr\<lparr>u_channel := ?s # u_channel usr, u_joined := u_joined usr + 1\<rparr>)"
        "heap_mship ?st ?s = Some \<lparr>ms_channel = ch, ms_modes = [], ms_related = next_addr st, ms_flags = 0\<rparr>"
      by (simp_all add: joined_state_def Let_def)
    then show ?thesis
      using True keep [OF user] by (auto simp: on_channel_user(1) [OF user] on_channel_user(1))
  next
    case False
    then have "heap_user ?st u = heap_user st u"
      by (simp add: joined_state_def Let_def)
    then show ?thesis
      using on_channel_same [of ?st u st] keep False by blast
  qed
qed

lemma mship_owner:
  assumes "linked st" "heap_user st u = Some usr" "s \<in> set (u_channel usr)" "heap_user st v = Some usr'" "s \<in> set (u_channel usr')"
  shows "u = v"
proof -
  obtain ms mb where "heap_mship st s = Some ms" "heap_member st (ms_related ms) = Some mb" "mb_client mb = u"
    using membership_okE [OF assms(1-3)] by blast
  moreover obtain ms' mb' where "heap_mship st s = Some ms'" "heap_member st (ms_related ms') = Some mb'" "mb_client mb' = v"
    using membership_okE [OF assms(1,4,5)] by blast
  ultimately show ?thesis
    by simp
qed

lemma mship_unique:
  assumes "linked st" "heap_user st u = Some usr" "s \<in> set (u_channel usr)" "s' \<in> set (u_channel usr)"
    "heap_mship st s = Some ms" "heap_mship st s' = Some ms'" "ms_channel ms = ms_channel ms'"
  shows "s = s'"
proof -
  have "inj_on (\<lambda>s. map_option ms_channel (heap_mship st s)) (set (u_channel usr))"
    using linkedD(2) [OF assms(1,2)] by (simp add: user_ok_def)
  from inj_onD [OF this, of s s'] show ?thesis
    using assms by simp
qed

lemma pair_on_channel:
  assumes p: "pair_change st m mb' s ms'" and linked: "linked st" and user: "heap_user st u = Some usr" "s \<in> set (u_channel usr)"
  shows "on_channel (pair_state m mb' s ms' st) v ch ms \<longleftrightarrow> (if v = u \<and> ch = ms_channel ms' then ms = ms' else on_channel st v ch ms)"
proof -
  let ?st = "pair_state m mb' s ms' st"
  obtain ms0 where ms0: "heap_mship st s = Some ms0" "ms_channel ms' = ms_channel ms0"
    using p unfolding pair_change_def by blast
  show ?thesis
  proof (cases "v = u")
    case True
    have "heap_user ?st u = Some usr"
      using user(1) by (simp add: pair_heaps)
    then have on: "on_channel ?st u ch ms \<longleftrightarrow> (\<exists>s2 \<in> set (u_channel usr). (if s2 = s then Some ms' else heap_mship st s2) = Some ms \<and> ms_channel ms = ch)"
      by (simp add: on_channel_user(1) pair_heaps fun_upd_def)
    show ?thesis
    proof (cases "ch = ms_channel ms'")
      case same: True
      have "s2 = s" if "s2 \<in> set (u_channel usr)" "heap_mship st s2 = Some ms" "ms_channel ms = ch" for s2
        using mship_unique [OF linked user(1) that(1) user(2) that(2) ms0(1)] that(3) same ms0(2) by simp
      then have "on_channel ?st u ch ms \<longleftrightarrow> ms = ms'"
        unfolding on using user(2) same by (auto split: if_splits)
      then show ?thesis
        using True same by simp
    next
      case other: False
      have "on_channel ?st u ch ms \<longleftrightarrow> on_channel st u ch ms"
        unfolding on on_channel_user(1) [OF user(1)] using other ms0 by (metis option.inject)
      then show ?thesis
        using True other by simp
    qed
  next
    case False
    have "heap_mship ?st s2 = heap_mship st s2" if "heap_user st v = Some usr2" "s2 \<in> set (u_channel usr2)" for usr2 s2
    proof -
      have "s2 \<noteq> s"
        using mship_owner [OF linked that] user False by blast
      then show ?thesis
        by (simp add: pair_heaps)
    qed
    then show ?thesis
      using False on_channel_same [of ?st v st] by (simp add: pair_heaps)
  qed
qed

lemma left_on_channel:
  assumes l: "leaving st ch c client usr m mb s"
  shows "on_channel (left_state ch c client usr m mb s st) v ch' ms \<longleftrightarrow> \<not> (v = client \<and> ch' = ch) \<and> on_channel st v ch' ms"
proof -
  let ?st = "left_state ch c client usr m mb s st"
  obtain ms0 where ms0: "linked st" "heap_user st client = Some usr" "s \<in> set (u_channel usr)" "heap_mship st s = Some ms0" "ms_channel ms0 = ch"
    using leavingE [OF l] by metis
  show ?thesis
  proof (cases "v = client")
    case True
    have "distinct (u_channel usr)"
      using linkedD(2) [OF ms0(1,2)] by (simp add: user_ok_def)
    then obtain usr' where usr': "heap_user ?st client = Some usr'" "set (u_channel usr') = set (u_channel usr) - {s}"
      by (simp add: left_state_def)
    have on: "on_channel ?st client ch' ms \<longleftrightarrow> (\<exists>s2 \<in> set (u_channel usr) - {s}. heap_mship st s2 = Some ms \<and> ms_channel ms = ch')"
      unfolding on_channel_user(1) [OF usr'(1)] usr'(2) by (auto simp: left_heaps)
    have "s2 = s" if "s2 \<in> set (u_channel usr)" "heap_mship st s2 = Some ms" "ms_channel ms = ch" for s2
      using mship_unique [OF ms0(1,2) that(1) ms0(3) that(2) ms0(4)] that(3) ms0(5) by simp
    then have "on_channel ?st client ch' ms \<longleftrightarrow> ch' \<noteq> ch \<and> on_channel st client ch' ms"
      unfolding on on_channel_user(1) [OF ms0(2)] using ms0(4,5) by auto
    then show ?thesis
      using True by simp
  next
    case False
    have "heap_mship ?st s2 = heap_mship st s2" if "heap_user st v = Some usr2" "s2 \<in> set (u_channel usr2)" for usr2 s2
    proof -
      have "s2 \<noteq> s"
        using mship_owner [OF ms0(1) that] ms0(2,3) False by blast
      then show ?thesis
        by (simp add: left_heaps)
    qed
    then show ?thesis
      using False on_channel_same [of ?st v st] by (simp add: left_heaps)
  qed
qed

lemma gone_on_channel: "on_channel (gone_state sd ch c st) v ch' ms \<longleftrightarrow> on_channel st v ch' ms"
  by (rule on_channel_same) (simp_all add: gone_state_def)

section \<open>The operations\<close>

text \<open>The membership of a user that has access to a channel, and the pair it belongs to.\<close>

lemma access_pair:
  assumes inv: "linked st" and acc: "access st u ch = Some modes"
  obtains usr s ms m mb c where "heap_user st u = Some usr" "s \<in> set (u_channel usr)" "heap_mship st s = Some ms" "ms_channel ms = ch"
    "ms_related ms = m" "ms_modes ms = modes" "heap_member st m = Some mb" "mb_client mb = u" "mb_related mb = s" "mb_modes mb = modes"
    "ms_flags ms = mb_flags mb" "heap_channel st ch = Some c" "m \<in> set (c_members c)"
    "find (\<lambda>s. map_option ms_channel (heap_mship st s) = Some ch) (u_channel usr) = Some s"
proof -
  obtain usr s ms where s: "heap_user st u = Some usr" "find (\<lambda>s. map_option ms_channel (heap_mship st s) = Some ch) (u_channel usr) = Some s"
      "heap_mship st s = Some ms" "ms_modes ms = modes"
    using acc by (auto simp: access_def split: option.splits)
  have in_s: "s \<in> set (u_channel usr)" "ms_channel ms = ch"
    using find_SomeD [OF s(2)] s(3) by auto
  obtain mb c where mb: "heap_member st (ms_related ms) = Some mb" "heap_channel st ch = Some c" "mb_client mb = u" "mb_related mb = s"
      "ms_related ms \<in> set (c_members c)"
    using membership_okE [OF inv s(1) in_s(1)] s(3) in_s(2) by (metis option.inject)
  have "ms_modes ms = mb_modes mb \<and> ms_flags ms = mb_flags mb"
    using member_okE [OF inv mb(2,5)] mb(1,4) s(3) by (metis option.inject)
  then show ?thesis
    using that s in_s mb by metis
qed

lemma pair_pair: "pair_state m mb' s ms' (pair_state m mb s ms st) = pair_state m mb' s ms' st"
  by (cases st) (simp add: pair_state_def)

lemma add_modes_pair:
  assumes "chan_inv st" "heap_member st m = Some mb" "mb_related mb = s" "heap_mship st s = Some ms" "ms_related ms = m"
    "ms_modes ms = mb_modes mb" "ms_flags ms = mb_flags mb"
  shows "\<exists>st'. add_modes cms m s modes st = Inr st' \<and> chan_inv st'
    \<and> st' = pair_state m (mb\<lparr>mb_modes := fold (\<lambda>l s. addlettertomstring cms s l) modes (mb_modes mb)\<rparr>)
        s (ms\<lparr>ms_modes := fold (\<lambda>l s. addlettertomstring cms s l) modes (mb_modes mb)\<rparr>) st"
  using assms
proof (induction modes arbitrary: st mb ms)
  case Nil
  have "mb\<lparr>mb_modes := mb_modes mb\<rparr> = mb" "ms\<lparr>ms_modes := mb_modes mb\<rparr> = ms"
    using Nil.prems(6) by (simp, metis membership.surjective membership.update_convs(2))
  moreover have "pair_state m mb s ms st = st"
    using Nil.prems(2,4) by (cases st) (simp add: pair_state_def fun_upd_idem)
  ultimately show ?case
    using Nil.prems(1) by simp
next
  case (Cons l modes)
  let ?mb = "mb\<lparr>mb_modes := addlettertomstring cms (mb_modes mb) l\<rparr>" and ?ms = "ms\<lparr>ms_modes := addlettertomstring cms (mb_modes mb) l\<rparr>"
  obtain st1 where st1: "add_member_mode_fast cms m s l st = Inr st1" "chan_inv st1" "st1 = pair_state m ?mb s ?ms st"
    using change_modes_inv [OF Cons.prems(1,2), of ms "\<lambda>s. addlettertomstring cms s l"] Cons.prems(3-7) by (auto simp: add_member_mode_fast_def)
  have "heap_member st1 m = Some ?mb" "heap_mship st1 s = Some ?ms"
    by (simp_all add: st1(3) pair_heaps)
  then obtain st' where "add_modes cms m s modes st1 = Inr st'" "chan_inv st'"
      "st' = pair_state m (?mb\<lparr>mb_modes := fold (\<lambda>l s. addlettertomstring cms s l) modes (mb_modes ?mb)\<rparr>)
        s (?ms\<lparr>ms_modes := fold (\<lambda>l s. addlettertomstring cms s l) modes (mb_modes ?mb)\<rparr>) st1"
    using Cons.IH [OF st1(2), of ?mb ?ms] Cons.prems(3,5,7) by auto
  then show ?case
    using st1(1) by (simp add: st1(3) pair_pair)
qed

lemma add_user_access:
  assumes inv: "chan_inv st" and user: "heap_user st u = Some usr" and channel: "heap_channel st ch = Some c" and out: "access st u ch = None"
  shows "\<exists>st'. add_user_to_channel cms ch u modes st = Inr st' \<and> chan_inv st'
    \<and> (\<forall>v ch'. access st' v ch' = (if v = u \<and> ch' = ch then Some (fold (\<lambda>l s. addlettertomstring cms s l) modes []) else access st v ch'))
    \<and> dom (heap_user st') = dom (heap_user st) \<and> dom (heap_channel st') = dom (heap_channel st)"
proof -
  have linked: "linked st" and unused: "unused st"
    using inv by (simp_all add: chan_inv_def)
  have "\<forall>s \<in> set (u_channel usr). map_option ms_channel (heap_mship st s) \<noteq> Some ch"
    using out access_None [OF linked] user unfolding on_channel_def by blast
  then have j: "joining st ch c u usr"
    using linked unused user channel by (simp add: joining_def)
  let ?st = "joined_state ch c u usr st" and ?m = "next_addr st" and ?md = "fold (\<lambda>l s. addlettertomstring cms s l) modes []"
  have inv1: "chan_inv ?st"
    using joined_inv [OF j inv] .
  let ?mb = "\<lparr>mb_client = u, mb_modes = [], mb_related = Suc ?m, mb_local_member = (if u_local usr then Some (Suc (Suc ?m)) else None), mb_flags = 0\<rparr>"
  let ?ms = "\<lparr>ms_channel = ch, ms_modes = [], ms_related = ?m, ms_flags = 0\<rparr>"
  have heap: "heap_member ?st ?m = Some ?mb" "heap_mship ?st (Suc ?m) = Some ?ms"
    by (simp_all add: joined_state_def Let_def)
  let ?mb' = "?mb\<lparr>mb_modes := ?md\<rparr>" and ?ms' = "?ms\<lparr>ms_modes := ?md\<rparr>"
  obtain st' where st': "add_modes cms ?m (Suc ?m) modes ?st = Inr st'" "chan_inv st'" "st' = pair_state ?m ?mb' (Suc ?m) ?ms' ?st"
    using add_modes_pair [OF inv1 heap(1) _ heap(2), of cms modes] by auto
  have p: "pair_change ?st ?m ?mb' (Suc ?m) ?ms'"
    using heap unfolding pair_change_def by simp
  obtain usr' where usr': "heap_user ?st u = Some usr'" "Suc ?m \<in> set (u_channel usr')"
    by (simp add: joined_state_def Let_def)
  have linked1: "linked ?st" "linked st'"
    using inv1 st'(2) by (simp_all add: chan_inv_def)
  have on: "on_channel st' v ch' ms \<longleftrightarrow> (if v = u \<and> ch' = ch then ms = ?ms' else on_channel st v ch' ms)" for v ch' ms
    unfolding st'(3) pair_on_channel [OF p linked1(1) usr'] joined_on_channel [OF j] by auto
  have "access st' u ch = Some ?md"
    using access_Some [OF linked1(2)] on [of u ch] by auto
  moreover have "access st' v ch' = access st v ch'" if "\<not> (v = u \<and> ch' = ch)" for v ch'
    by (rule access_eqI [OF linked linked1(2)]) (unfold on, use that in auto)
  moreover have "dom (heap_user st') = dom (heap_user st)" "dom (heap_channel st') = dom (heap_channel st)"
    using user channel by (auto simp: st'(3) pair_heaps joined_state_def Let_def)
  ultimately show ?thesis
    using st'(1,2) add_user_joined [OF user channel] by auto
qed

lemma change_access:
  assumes inv: "chan_inv st" and acc: "access st u ch = Some modes"
  shows "\<exists>m s st'. find_mbs st u ch = Inr (Some (m, s)) \<and> change_modes f m s st = Inr st' \<and> chan_inv st'
    \<and> (\<forall>v ch'. access st' v ch' = (if v = u \<and> ch' = ch then Some (f modes) else access st v ch'))"
proof -
  have linked: "linked st"
    using inv by (simp add: chan_inv_def)
  obtain usr s ms m mb c where s: "heap_user st u = Some usr" "s \<in> set (u_channel usr)" "heap_mship st s = Some ms" "ms_channel ms = ch"
    "ms_related ms = m" "ms_modes ms = modes" "heap_member st m = Some mb" "mb_client mb = u" "mb_related mb = s" "mb_modes mb = modes"
    "ms_flags ms = mb_flags mb" "heap_channel st ch = Some c" "m \<in> set (c_members c)"
    "find (\<lambda>s. map_option ms_channel (heap_mship st s) = Some ch) (u_channel usr) = Some s"
    using access_pair [OF linked acc] by blast
  let ?mb = "mb\<lparr>mb_modes := f (mb_modes mb)\<rparr>" and ?ms = "ms\<lparr>ms_modes := f (mb_modes mb)\<rparr>"
  obtain st' where st': "change_modes f m s st = Inr st'" "chan_inv st'" "st' = pair_state m ?mb s ?ms st"
    using change_modes_inv [OF inv s(7), of ms f] s by auto
  have p: "pair_change st m ?mb s ?ms"
    using s unfolding pair_change_def by simp
  have linked': "linked st'"
    using st'(2) by (simp add: chan_inv_def)
  have on: "on_channel st' v ch' ms2 \<longleftrightarrow> (if v = u \<and> ch' = ch then ms2 = ?ms else on_channel st v ch' ms2)" for v ch' ms2
    unfolding st'(3) pair_on_channel [OF p linked s(1,2)] using s(4) by simp
  have "access st' u ch = Some (f modes)"
    using access_Some [OF linked'] on [of u ch] s(10) by auto
  moreover have "access st' v ch' = access st v ch'" if "\<not> (v = u \<and> ch' = ch)" for v ch'
    by (rule access_eqI [OF linked linked']) (unfold on, use that in auto)
  moreover have "find_mbs st u ch = Inr (Some (m, s))"
    using find_mbs_access [OF linked s(1), of ch] s by simp
  ultimately show ?thesis
    using st'(1,2) by auto
qed

lemma member_client:
  assumes linked: "linked st" and c: "heap_channel st ch = Some c" and m: "m \<in> set (c_members c)"
  obtains mb where "heap_member st m = Some mb" "access st (mb_client mb) ch = Some (mb_modes mb)"
    "\<And>m' mb'. m' \<in> set (c_members c) \<Longrightarrow> heap_member st m' = Some mb' \<Longrightarrow> mb_client mb' = mb_client mb \<Longrightarrow> m' = m"
proof -
  obtain mb ms usr where mb: "heap_member st m = Some mb" "heap_mship st (mb_related mb) = Some ms" "heap_user st (mb_client mb) = Some usr"
      "ms_channel ms = ch" "ms_related ms = m" "ms_modes ms = mb_modes mb" "mb_related mb \<in> set (u_channel usr)"
    using member_okE [OF linked c m] by blast
  have "on_channel st (mb_client mb) ch ms"
    using mb unfolding on_channel_def by blast
  then have "access st (mb_client mb) ch = Some (mb_modes mb)"
    using access_Some [OF linked] mb(6) by blast
  moreover have "m' = m" if m': "m' \<in> set (c_members c)" "heap_member st m' = Some mb'" "mb_client mb' = mb_client mb" for m' mb'
  proof -
    obtain ms' where ms': "heap_mship st (mb_related mb') = Some ms'" "ms_channel ms' = ch" "ms_related ms' = m'" "mb_related mb' \<in> set (u_channel usr)"
      using member_okE [OF linked c m'(1)] m'(2,3) mb(3) by (metis option.inject)
    have "mb_related mb' = mb_related mb"
      using mship_unique [OF linked mb(3) ms'(4) mb(7) ms'(1) mb(2)] ms'(2) mb(4) by simp
    then show ?thesis
      using ms'(1,3) mb(2,5) by simp
  qed
  ultimately show ?thesis
    using that mb(1) by blast
qed

lemma only_member:
  assumes linked: "linked st" and c: "heap_channel st ch = Some c" and m: "m \<in> set (c_members c)" and mb: "heap_member st m = Some mb"
  shows "remove1 m (c_members c) = [] \<longleftrightarrow> (\<forall>v. v \<noteq> mb_client mb \<longrightarrow> access st v ch = None)"
proof -
  have distinct: "distinct (c_members c)"
    using linkedD(1) [OF linked c] by (simp add: channel_ok_def)
  have "remove1 m (c_members c) = [] \<longleftrightarrow> set (c_members c) \<subseteq> {m}"
    using distinct set_remove1_eq [of "c_members c" m] by (metis Diff_eq_empty_iff set_empty)
  also have "\<dots> \<longleftrightarrow> (\<forall>v. v \<noteq> mb_client mb \<longrightarrow> access st v ch = None)"
  proof
    assume only: "set (c_members c) \<subseteq> {m}"
    show "\<forall>v. v \<noteq> mb_client mb \<longrightarrow> access st v ch = None"
    proof (intro allI impI, rule ccontr)
      fix v
      assume v: "v \<noteq> mb_client mb" "access st v ch \<noteq> None"
      then obtain m' mb' c' where "heap_member st m' = Some mb'" "mb_client mb' = v" "heap_channel st ch = Some c'" "m' \<in> set (c_members c')"
        using access_pair [OF linked] by (metis not_None_eq)
      then show False
        using only v(1) mb c by auto
    qed
  next
    assume none: "\<forall>v. v \<noteq> mb_client mb \<longrightarrow> access st v ch = None"
    have "m' = m" if m': "m' \<in> set (c_members c)" for m'
    proof -
      obtain mb' where mb': "heap_member st m' = Some mb'" "access st (mb_client mb') ch = Some (mb_modes mb')"
        using member_client [OF linked c m'] by metis
      then have "mb_client mb' = mb_client mb"
        using none by (metis option.distinct(1))
      then show ?thesis
        using member_client [OF linked c m] m' mb'(1) mb by (metis option.inject)
    qed
    then show "set (c_members c) \<subseteq> {m}"
      by blast
  qed
  finally show ?thesis .
qed

lemma remove_withmb_access:
  assumes inv: "chan_inv st" and l: "leaving st ch c u usr m mb s"
  shows "\<exists>st' d. remove_user_from_channel_withmb sd u ch s st = Inr (st', d) \<and> chan_inv st'
    \<and> (\<forall>v ch'. access st' v ch' = (if v = u \<and> ch' = ch then None else access st v ch'))
    \<and> (d \<longleftrightarrow> sd ch \<and> (\<forall>v. v \<noteq> u \<longrightarrow> access st v ch = None)) \<and> dom (heap_channel st') = dom (heap_channel st) - (if d then {ch} else {})
    \<and> heap_user st' = (heap_user st)(u \<mapsto> usr\<lparr>u_channel := remove1 s (u_channel usr), u_joined := u_joined usr - 1\<rparr>)"
proof -
  let ?l = "left_state ch c u usr m mb s st"
  obtain c' where c': "heap_channel ?l ch = Some c'" "c_members c' = remove1 m (c_members c)"
      "remove_user_from_channel_withmb sd u ch s st = Inr (gone_state sd ch c' ?l, c_members c' = [] \<and> sd ch)" "chan_inv (gone_state sd ch c' ?l)"
    using remove_withmb_inv [OF l inv] by metis
  have ms: "linked st" "heap_channel st ch = Some c" "heap_member st m = Some mb" "mb_client mb = u" "m \<in> set (c_members c)"
    using leavingE [OF l] by metis+
  let ?st = "gone_state sd ch c' ?l"
  have linked': "linked ?st"
    using c'(4) by (simp add: chan_inv_def)
  have on: "on_channel ?st v ch' ms \<longleftrightarrow> \<not> (v = u \<and> ch' = ch) \<and> on_channel st v ch' ms" for v ch' ms
    unfolding gone_on_channel left_on_channel [OF l] by simp
  have "access ?st u ch = None"
    using access_None [OF linked'] on by blast
  moreover have "access ?st v ch' = access st v ch'" if "\<not> (v = u \<and> ch' = ch)" for v ch'
    by (rule access_eqI [OF ms(1) linked']) (unfold on, use that in auto)
  moreover have "c_members c' = [] \<longleftrightarrow> (\<forall>v. v \<noteq> u \<longrightarrow> access st v ch = None)"
    using only_member [OF ms(1,2,5,3)] c'(2) ms(4) by simp
  moreover have "dom (heap_channel ?st) = dom (heap_channel st) - (if c_members c' = [] \<and> sd ch then {ch} else {})"
    using ms(2) by (auto simp: gone_state_def left_state_def)
  moreover have "heap_user ?st = (heap_user st)(u \<mapsto> usr\<lparr>u_channel := remove1 s (u_channel usr), u_joined := u_joined usr - 1\<rparr>)"
    by (simp add: gone_state_def left_state_def)
  ultimately show ?thesis
    using c'(3,4) by (intro exI conjI) auto
qed

lemma remove_user_access:
  assumes inv: "chan_inv st" and acc: "access st u ch = Some modes"
  shows "\<exists>st' d. remove_user_from_channel sd u ch st = Inr (st', d) \<and> chan_inv st'
    \<and> (\<forall>v ch'. access st' v ch' = (if v = u \<and> ch' = ch then None else access st v ch'))
    \<and> (d \<longleftrightarrow> sd ch \<and> (\<forall>v. v \<noteq> u \<longrightarrow> access st v ch = None)) \<and> dom (heap_channel st') = dom (heap_channel st) - (if d then {ch} else {})"
proof -
  have linked: "linked st"
    using inv by (simp add: chan_inv_def)
  obtain usr s ms m mb c where s: "heap_user st u = Some usr" "s \<in> set (u_channel usr)" "heap_mship st s = Some ms" "ms_channel ms = ch"
      "ms_related ms = m" "heap_member st m = Some mb" "heap_channel st ch = Some c"
      "find (\<lambda>s. map_option ms_channel (heap_mship st s) = Some ch) (u_channel usr) = Some s"
    by (rule access_pair [OF linked acc])
  have l: "leaving st ch c u usr m mb s"
    using linked s unfolding leaving_def by simp
  have eq: "remove_user_from_channel sd u ch st = remove_user_from_channel_withmb sd u ch s st"
    using s find_link [OF linked s(1), of ch] by (simp add: remove_user_from_channel_def)
  show ?thesis
    unfolding eq using remove_withmb_access [OF inv l, of sd] by blast
qed

lemma leave_channels_access:
  assumes "chan_inv st" "heap_user st u = Some usr"
  shows "\<exists>st' usr'. leave_channels sd u st = Some (Inr st') \<and> chan_inv st' \<and> heap_user st' u = Some usr' \<and> u_channel usr' = []
    \<and> (\<forall>v ch. access st' v ch = (if v = u then None else access st v ch))
    \<and> dom (heap_channel st') = {ch \<in> dom (heap_channel st). access st u ch = None \<or> \<not> sd ch \<or> (\<exists>v. v \<noteq> u \<and> access st v ch \<noteq> None)}"
  using assms
proof (induction "length (u_channel usr)" arbitrary: st usr)
  case 0
  then have linked: "linked st" and empty: "u_channel usr = []"
    by (simp_all add: chan_inv_def)
  have "access st u ch = None" for ch
    using 0 empty by (simp add: access_def)
  moreover have "leave_channels sd u st = Some (Inr st)"
    using 0(3) empty by (subst leave_channels.simps) simp
  ultimately show ?case
    using 0(2,3) empty by auto
next
  case (Suc n)
  have linked: "linked st"
    using Suc.prems by (simp add: chan_inv_def)
  obtain s rest where s: "u_channel usr = s # rest"
    using Suc.hyps(2) by (cases "u_channel usr") auto
  obtain ms mb c where ms: "heap_mship st s = Some ms" "heap_member st (ms_related ms) = Some mb" "heap_channel st (ms_channel ms) = Some c"
    by (rule membership_okE [OF linked Suc.prems(2), of s]) (use s in simp_all)
  let ?ch = "ms_channel ms"
  have l: "leaving st ?ch c u usr (ms_related ms) mb s"
    using linked ms Suc.prems(2) s unfolding leaving_def by simp
  obtain st1 d where st1: "remove_user_from_channel_withmb sd u ?ch s st = Inr (st1, d)" "chan_inv st1"
      "\<forall>v ch'. access st1 v ch' = (if v = u \<and> ch' = ?ch then None else access st v ch')"
      "d \<longleftrightarrow> sd ?ch \<and> (\<forall>v. v \<noteq> u \<longrightarrow> access st v ?ch = None)" "dom (heap_channel st1) = dom (heap_channel st) - (if d then {?ch} else {})"
      "heap_user st1 = (heap_user st)(u \<mapsto> usr\<lparr>u_channel := remove1 s (u_channel usr), u_joined := u_joined usr - 1\<rparr>)"
    using remove_withmb_access [OF Suc.prems(1) l, of sd] by blast
  let ?usr = "usr\<lparr>u_channel := remove1 s (u_channel usr), u_joined := u_joined usr - 1\<rparr>"
  have len: "n = length (u_channel ?usr)" "heap_user st1 u = Some ?usr"
    using Suc.hyps(2) s st1(6) by simp_all
  obtain st' usr' where IH: "leave_channels sd u st1 = Some (Inr st')" "chan_inv st'" "heap_user st' u = Some usr'" "u_channel usr' = []"
      "\<forall>v ch. access st' v ch = (if v = u then None else access st1 v ch)"
      "dom (heap_channel st') = {ch \<in> dom (heap_channel st1). access st1 u ch = None \<or> \<not> sd ch \<or> (\<exists>v. v \<noteq> u \<and> access st1 v ch \<noteq> None)}"
    using Suc.hyps(1) [OF len(1) st1(2) len(2)] by blast
  have step: "leave_channels sd u st = leave_channels sd u st1"
    using Suc.prems(2) s ms(1) st1(1) by (subst leave_channels.simps) simp
  have acc: "access st u ?ch \<noteq> None"
    using access_None [OF linked] ms(1) s Suc.prems(2) unfolding on_channel_def by (metis list.set_intros(1))
  have "dom (heap_channel st') = {ch \<in> dom (heap_channel st). access st u ch = None \<or> \<not> sd ch \<or> (\<exists>v. v \<noteq> u \<and> access st v ch \<noteq> None)}"
    unfolding IH(6) st1(5) using st1(3,4) acc by (auto split: if_splits)
  then show ?case
    using IH(1-5) st1(3) step by auto
qed

lemma set_invisible_inv:
  assumes inv: "chan_inv st"
  shows "\<exists>st'. set_user_invisible u ch invisible st = Inr st' \<and> chan_inv st' \<and> access st' = access st"
proof (cases "\<exists>usr modes. heap_user st u = Some usr \<and> u_IsUser usr \<and> access st u ch = Some modes")
  case True
  have linked: "linked st"
    using inv by (simp add: chan_inv_def)
  obtain usr0 modes where acc: "access st u ch = Some modes" "heap_user st u = Some usr0" "u_IsUser usr0"
    using True by blast
  obtain usr s ms m mb c where s: "heap_user st u = Some usr" "s \<in> set (u_channel usr)" "heap_mship st s = Some ms" "ms_channel ms = ch"
      "ms_related ms = m" "ms_modes ms = modes" "heap_member st m = Some mb" "mb_client mb = u" "mb_related mb = s" "mb_modes mb = modes"
      "ms_flags ms = mb_flags mb"
      "find (\<lambda>s. map_option ms_channel (heap_mship st s) = Some ch) (u_channel usr) = Some s"
    by (rule access_pair [OF linked acc(1)])
  let ?f = "\<lambda>w. if invisible then w OR MEMB_FLAG_INVISIBLE else w AND NOT MEMB_FLAG_INVISIBLE"
  let ?mb = "mb\<lparr>mb_flags := ?f (mb_flags mb)\<rparr>" and ?ms = "ms\<lparr>ms_flags := ?f (ms_flags ms)\<rparr>"
  have p: "pair_change st m ?mb s ?ms"
    using s unfolding pair_change_def by simp
  have inv': "chan_inv (pair_state m ?mb s ?ms st)"
    using pair_inv [OF p inv] .
  then have linked': "linked (pair_state m ?mb s ?ms st)"
    by (simp add: chan_inv_def)
  have "set_user_invisible u ch invisible st = Inr (pair_state m ?mb s ?ms st)"
    using s acc find_link [OF linked s(1), of ch] by (cases st) (simp add: set_user_invisible_def pair_state_def Let_def)
  moreover have on: "on_channel (pair_state m ?mb s ?ms st) v ch' ms2 \<longleftrightarrow> (if v = u \<and> ch' = ch then ms2 = ?ms else on_channel st v ch' ms2)" for v ch' ms2
    unfolding pair_on_channel [OF p linked s(1,2)] using s(4) by simp
  have "access (pair_state m ?mb s ?ms st) v ch' = access st v ch'" for v ch'
  proof (cases "v = u \<and> ch' = ch")
    case True
    have "access (pair_state m ?mb s ?ms st) u ch = Some modes"
      unfolding access_Some [OF linked'] on using s(6) by simp
    then show ?thesis
      using True acc(1) by simp
  next
    case False
    then show ?thesis
      by (intro access_eqI [OF linked linked']) (unfold on, auto)
  qed
  then have "access (pair_state m ?mb s ?ms st) = access st"
    by (intro ext)
  ultimately show ?thesis
    using inv' by blast
next
  case False
  have linked: "linked st"
    using inv by (simp add: chan_inv_def)
  have "set_user_invisible u ch invisible st = Inr st"
  proof (cases "heap_user st u")
    case (Some usr)
    have "find (\<lambda>s. map_option ms_channel (heap_mship st s) = Some ch) (u_channel usr) = None" if "u_IsUser usr"
    proof -
      have "access st u ch = None"
        using False Some that by auto
      then show ?thesis
        using Some find_SomeD [of _ "u_channel usr"] by (fastforce simp: access_def split: option.splits)
    qed
    then show ?thesis
      using Some find_link [OF linked Some, of ch] by (simp add: set_user_invisible_def)
  qed (simp add: set_user_invisible_def)
  then show ?thesis
    using inv by blast
qed

section \<open>Reachable states\<close>

text \<open>
  The steps: clients get and lose their \<^verbatim>\<open>user\<close> structure, and the functions above are called. The callers of
  \<^verbatim>\<open>add_user_to_channel\<close> test \<^verbatim>\<open>IsMember\<close> before, and those of \<^verbatim>\<open>sub1_from_channel\<close> test that the channel has no users.
\<close>

inductive chan_step :: "chan_state \<Rightarrow> chan_state \<Rightarrow> bool" where
  new_user: "chan_step st (st\<lparr>heap_user := (heap_user st)(u \<mapsto> \<lparr>u_local = l, u_IsUser = i, u_channel = [], u_joined = 0\<rparr>)\<rparr>)" if "heap_user st u = None"
| free_user: "chan_step st (st\<lparr>heap_user := (heap_user st)(u := None)\<rparr>)" if "heap_user st u = Some usr" "u_channel usr = []"
| make: "chan_step st (fst (make_channel name st))"
| join: "chan_step st st'" if "heap_channel st ch \<noteq> None" "IsMember st u ch = Inr False" "add_user_to_channel cms ch u modes st = Inr st'"
| part: "chan_step st st'" if "remove_user_from_channel sd u ch st = Inr (st', d)"
| quit: "chan_step st st'" if "leave_channels sd u st = Some (Inr st')"
| empty: "chan_step st st'" if "heap_channel st ch = Some c" "c_users c \<le> 0" "sub1_from_channel sd ch st = Inr (st', d)"
| add_mode: "chan_step st st'" if "add_member_mode cms u ch letter st = Inr st'"
| del_mode: "chan_step st st'" if "del_member_mode u ch letter st = Inr st'"
| invisible: "chan_step st st'" if "set_user_invisible u ch i st = Inr st'"

definition chan_init :: "hash_state \<Rightarrow> chan_state" where
  "chan_init hash =
     \<lparr>heap_member = (\<lambda>_. None), heap_mship = (\<lambda>_. None), heap_local = (\<lambda>_. None), heap_channel = (\<lambda>_. None), heap_user = (\<lambda>_. None),
      channels = [], chan_hash = hash\<lparr>channelTable := (\<lambda>_. [])\<rparr>, irccounts_channels = 0, next_addr = 0\<rparr>"

inductive chan_reach :: "chan_state \<Rightarrow> bool" where
  init: "chan_reach (chan_init hash)"
| step: "chan_reach st \<Longrightarrow> chan_step st st' \<Longrightarrow> chan_reach st'"

lemma chan_inv_users:
  assumes inv: "chan_inv st" and "u_channel usr = []" "u_joined usr = 0" "\<forall>usr. heap_user st u = Some usr \<longrightarrow> u_channel usr = []"
  shows "chan_inv (st\<lparr>heap_user := (heap_user st)(u := Some usr)\<rparr>)" "chan_inv (st\<lparr>heap_user := (heap_user st)(u := None)\<rparr>)"
proof -
  have linked: "linked st"
    using inv by (simp add: chan_inv_def)
  have other: "linked (st\<lparr>heap_user := (heap_user st)(u := x)\<rparr>)" if x: "x = None \<or> x = Some usr" for x
  proof -
    let ?st = "st\<lparr>heap_user := (heap_user st)(u := x)\<rparr>"
    have "member_ok ?st ch m" if "member_ok st ch m" for ch m
      using that assms(4) by (elim member_ok_transfer) (auto split: if_splits)
    moreover have "local_ok ?st c lm \<longleftrightarrow> local_ok st c lm" for c lm
      by (simp add: local_ok_def)
    ultimately have "channel_ok ?st ch c" if "channel_ok st ch c" for ch c
      using that unfolding channel_ok_def by simp
    moreover have "user_ok ?st v usr'" if "heap_user ?st v = Some usr'" for v usr'
    proof (cases "v = u")
      case True
      then show ?thesis
        using that x assms(2,3) by (auto simp: user_ok_def)
    next
      case False
      then have "user_ok st v usr'"
        using that linkedD(2) [OF linked] by simp
      moreover have "membership_ok ?st v s \<longleftrightarrow> membership_ok st v s" for s
        by (simp add: membership_ok_def)
      ultimately show ?thesis
        by (simp add: user_ok_def)
    qed
    ultimately show ?thesis
      using linked unfolding linked_def by auto
  qed
  have "chname (st\<lparr>heap_user := x\<rparr>) = chname st" for x
    by (simp add: chname_def fun_eq_iff)
  then have "counted (st\<lparr>heap_user := x\<rparr>) \<and> unused (st\<lparr>heap_user := x\<rparr>) \<and> chans_registered (st\<lparr>heap_user := x\<rparr>)" for x
    using inv by (simp add: chan_inv_def counted_def unused_def chans_registered_def)
  then show "chan_inv (st\<lparr>heap_user := (heap_user st)(u := Some usr)\<rparr>)" "chan_inv (st\<lparr>heap_user := (heap_user st)(u := None)\<rparr>)"
    using other by (simp_all add: chan_inv_def)
qed

lemma IsMember_access:
  assumes "linked st"
  shows "IsMember st u ch = Inr (access st u ch \<noteq> None)"
proof (cases "heap_user st u")
  case (Some usr)
  show ?thesis
  proof (cases "find (\<lambda>s. map_option ms_channel (heap_mship st s) = Some ch) (u_channel usr)")
    case None
    then show ?thesis
      using Some find_link [OF assms Some, of ch] by (simp add: IsMember_def access_def)
  next
    case s: (Some s)
    then show ?thesis
      using Some find_link [OF assms Some, of ch] find_SomeD [OF s] by (auto simp: IsMember_def access_def)
  qed
qed (simp add: IsMember_def access_def)

lemma access_find_None:
  assumes "linked st" "heap_user st u = Some usr" "access st u ch = None"
  shows "find (\<lambda>s. map_option ms_channel (heap_mship st s) = Some ch) (u_channel usr) = None"
  using assms(2,3) find_SomeD [of _ "u_channel usr"] by (fastforce simp: access_def split: option.splits)

lemma find_mbs_None:
  assumes "linked st" "heap_user st u = Some usr" "access st u ch = None"
  shows "find_mbs st u ch = Inr None"
  using find_mbs_access [OF assms(1,2)] access_find_None [OF assms] by simp

lemma member_mode_access:
  assumes inv: "chan_inv st" and user: "heap_user st u \<noteq> None"
  shows "\<exists>st'. add_member_mode cms u ch letter st = Inr st' \<and> chan_inv st'
      \<and> (\<forall>v ch'. access st' v ch' = (if v = u \<and> ch' = ch then map_option (\<lambda>s. addlettertomstring cms s letter) (access st u ch) else access st v ch'))"
    and "\<exists>st'. del_member_mode u ch letter st = Inr st' \<and> chan_inv st'
      \<and> (\<forall>v ch'. access st' v ch' = (if v = u \<and> ch' = ch then map_option (\<lambda>s. delletterfromstring s letter) (access st u ch) else access st v ch'))"
proof -
  have linked: "linked st"
    using inv by (simp add: chan_inv_def)
  obtain usr where usr: "heap_user st u = Some usr"
    using user by blast
  show "\<exists>st'. add_member_mode cms u ch letter st = Inr st' \<and> chan_inv st'
      \<and> (\<forall>v ch'. access st' v ch' = (if v = u \<and> ch' = ch then map_option (\<lambda>s. addlettertomstring cms s letter) (access st u ch) else access st v ch'))"
  proof (cases "access st u ch")
    case None
    then show ?thesis
      using find_mbs_None [OF linked usr None] inv by (auto simp: add_member_mode_def)
  next
    case (Some modes)
    then show ?thesis
      using change_access [OF inv Some, of "\<lambda>s. addlettertomstring cms s letter"] by (auto simp: add_member_mode_def add_member_mode_fast_def)
  qed
  show "\<exists>st'. del_member_mode u ch letter st = Inr st' \<and> chan_inv st'
      \<and> (\<forall>v ch'. access st' v ch' = (if v = u \<and> ch' = ch then map_option (\<lambda>s. delletterfromstring s letter) (access st u ch) else access st v ch'))"
  proof (cases "access st u ch")
    case None
    then show ?thesis
      using find_mbs_None [OF linked usr None] inv by (auto simp: del_member_mode_def)
  next
    case (Some modes)
    then show ?thesis
      using change_access [OF inv Some, of "\<lambda>s. delletterfromstring s letter"] by (auto simp: del_member_mode_def del_member_mode_fast_def)
  qed
qed

lemma remove_not_member:
  assumes "linked st" "heap_user st u = Some usr" "access st u ch = None"
  shows "remove_user_from_channel sd u ch st = Inr (st, False)"
  using find_link [OF assms(1,2), of ch] access_find_None [OF assms] assms(2) by (simp add: remove_user_from_channel_def)

lemma empty_inv:
  assumes inv: "chan_inv st" and c: "heap_channel st ch = Some c" "c_users c \<le> 0"
  shows "\<exists>st' d. sub1_from_channel sd ch st = Inr (st', d) \<and> chan_inv st'"
proof -
  have "c_users c = int (length (c_members c))" and other: "\<And>ch' c'. heap_channel st ch' = Some c' \<Longrightarrow> c_users c' = int (length (c_members c'))"
    using inv c(1) by (simp_all add: chan_inv_def counted_def)
  then have "c_users c = 0" "c_members c = []"
    using c(2) by simp_all
  then have "sub1_from_channel sd ch st = Inr (gone_state sd ch c st, c_members c = [] \<and> sd ch)"
    by (intro sub1_gone [OF c(1)]) simp
  moreover have "chan_inv (gone_state sd ch c st)"
    using inv other by (intro gone_inv [OF _ _ _ c(1)]) (simp_all add: chan_inv_def)
  ultimately show ?thesis
    by blast
qed

lemma chan_step_inv:
  assumes "chan_step st st'" "chan_inv st"
  shows "chan_inv st'"
  using assms
proof cases
  case (new_user u l i)
  then show ?thesis
    using chan_inv_users(1) [OF assms(2), of "\<lparr>u_local = l, u_IsUser = i, u_channel = [], u_joined = 0\<rparr>" u] by simp
next
  case (free_user u usr)
  then show ?thesis
    using chan_inv_users(2) [OF assms(2), of "\<lparr>u_local = False, u_IsUser = False, u_channel = [], u_joined = 0\<rparr>" u] by simp
next
  case (make name)
  show ?thesis
  proof (cases "name = []")
    case True
    then show ?thesis
      using make assms(2) by (simp add: make_channel_def)
  next
    case False
    then show ?thesis
      using make make_channel_inv [OF assms(2)] by fastforce
  qed
next
  case (join ch u cms modes)
  have linked: "linked st"
    using assms(2) by (simp add: chan_inv_def)
  have out: "access st u ch = None"
    using join(2) IsMember_access [OF linked] by simp
  obtain c where c: "heap_channel st ch = Some c"
    using join(1) by blast
  show ?thesis
  proof (cases "heap_user st u")
    case None
    then show ?thesis
      using join(3) assms(2) by (simp add: add_user_to_channel_def)
  next
    case (Some usr)
    then show ?thesis
      using join(3) add_user_access [OF assms(2) Some c out, of cms modes] by auto
  qed
next
  case (part sd u ch d)
  have linked: "linked st"
    using assms(2) by (simp add: chan_inv_def)
  obtain usr where usr: "heap_user st u = Some usr"
    using part by (cases "heap_user st u") (auto simp: remove_user_from_channel_def client_user_def)
  show ?thesis
  proof (cases "access st u ch")
    case None
    then show ?thesis
      using part remove_not_member [OF linked usr None] assms(2) by simp
  next
    case (Some modes)
    then show ?thesis
      using part remove_user_access [OF assms(2) Some, of sd] by auto
  qed
next
  case (quit sd u)
  obtain usr where "heap_user st u = Some usr"
    using quit by (cases "heap_user st u") (auto simp: leave_channels.simps [of sd u st] client_user_def)
  then show ?thesis
    using quit leave_channels_access [OF assms(2), of u usr sd] by auto
next
  case (empty ch c sd d)
  then show ?thesis
    using empty_inv [OF assms(2) empty(1,2), of sd] by auto
next
  case (add_mode cms u ch letter)
  then have "heap_user st u \<noteq> None"
    by (cases "heap_user st u") (simp_all add: add_member_mode_def find_mbs_def client_user_def)
  then show ?thesis
    using add_mode member_mode_access(1) [OF assms(2), of u cms ch letter] by auto
next
  case (del_mode u ch letter)
  then have "heap_user st u \<noteq> None"
    by (cases "heap_user st u") (simp_all add: del_member_mode_def find_mbs_def client_user_def)
  then show ?thesis
    using del_mode member_mode_access(2) [OF assms(2), of u ch letter] by auto
next
  case (invisible u ch i)
  then show ?thesis
    using set_invisible_inv [OF assms(2), of u ch i] by auto
qed

lemma chan_reach_inv: "chan_reach st \<Longrightarrow> chan_inv st"
proof (induction rule: chan_reach.induct)
  case (init hash)
  then show ?case
    by (simp add: chan_inv_def linked_def counted_def unused_def chans_registered_def chan_init_def table_ok_def entries_def)
next
  case (step st st')
  then show ?case
    using chan_step_inv by blast
qed

lemma access_reads:
  assumes linked: "linked st" and user: "heap_user st u = Some usr"
  shows "get_channel_access st u ch = Inr (case access st u ch of None \<Rightarrow> [] | Some modes \<Rightarrow> modes)
    \<and> check_channel_access st u ch want
        = Inr (u_IsUser usr \<and> (case access st u ch of None \<Rightarrow> False | Some modes \<Rightarrow> \<exists>x \<in> set modes. x \<in> set want))"
proof (cases "access st u ch")
  case None
  then show ?thesis
    using access_find_None [OF linked user None] find_link [OF linked user, of ch] user
    by (simp add: get_channel_access_def check_channel_access_def)
next
  case (Some modes)
  then obtain s ms where "find (\<lambda>s. map_option ms_channel (heap_mship st s) = Some ch) (u_channel usr) = Some s" "heap_mship st s = Some ms"
      "ms_modes ms = modes"
    using user by (auto simp: access_def split: option.splits)
  then show ?thesis
    using Some find_link [OF linked user, of ch] user
    by (auto simp: get_channel_access_def check_channel_access_def check_channel_access_string_def list_ex_iff)
qed

section \<open>Properties\<close>

text \<open>
  C5: A user's list of channels and the channels' lists of members are synchronized at all times: in every reachable state each
  member of a channel and each membership of a user belongs to a pair whose halves point to each other, agree in modes
  and flags and belong to a live channel and a live user; nobody is on a channel twice; the counters of users and of
  joined channels are the lengths of the lists; the list of local members holds exactly
  the members that are local; and a lookup of the channel's name finds it.
\<close>

theorem membership_synchronized:
  assumes "chan_reach st"
  shows "(\<forall>ch c. heap_channel st ch = Some c \<longrightarrow>
      channel_ok st ch c \<and> c_users c = int (length (c_members c)) \<and> find_channel (chname st) (chan_hash st) (c_name c) = Some ch)
    \<and> (\<forall>u usr. heap_user st u = Some usr \<longrightarrow> user_ok st u usr)"
proof -
  note inv = chan_reach_inv [OF assms]
  have reg: "chans_registered st"
    using inv by (simp add: chan_inv_def)
  have "find_channel (chname st) (chan_hash st) (c_name c) = Some ch" if c: "heap_channel st ch = Some c" for ch c
  proof -
    have "c_name c = chname st ch"
      using c by (simp add: chname_def)
    moreover have "cstr (chname st ch)"
      using c reg unfolding chans_registered_def by blast
    ultimately have name: "c_name c = chname st ch" "cstr (chname st ch)"
      by simp_all
    obtain ch' where ch': "find_channel (chname st) (chan_hash st) (chname st ch) = Some ch'"
      using find_channel_iff(1) [OF reg name(2)] c name(2) by (metis domI not_None_eq smycmp_fold)
    then have "ch' \<in> dom (heap_channel st)" "smycmp (chname st ch) (chname st ch') = 0"
      using find_channel_iff(2) [OF reg name(2)] by blast+
    then show ?thesis
      using ch' name reg c unfolding chans_registered_def by (metis domI)
  qed
  then show ?thesis
    using inv by (simp add: chan_inv_def linked_def counted_def)
qed

text \<open>A channel with one local user, who is its operator.\<close>

definition demo_user :: user where
  "demo_user = \<lparr>u_local = True, u_IsUser = True, u_channel = [], u_joined = 0\<rparr>"

definition demo_channel :: channel where
  "demo_channel = \<lparr>c_name = ''#a'', c_users = 0, c_members = [], c_local_members = []\<rparr>"

definition demo_empty :: chan_state where
  "demo_empty = (fst (make_channel ''#a'' (chan_init (init_hash [] [] []))))\<lparr>heap_user := [7 \<mapsto> demo_user]\<rparr>"

lemma demo_empty_heaps:
  "heap_channel demo_empty = [0 \<mapsto> demo_channel]" "heap_user demo_empty = [7 \<mapsto> demo_user]" "heap_mship demo_empty = (\<lambda>_. None)"
proof -
  have "find_channel (chname (chan_init (init_hash [] [] []))) (chan_hash (chan_init (init_hash [] [] []))) (chan_namebuf ''#a'') = None"
    by (simp add: find_channel_def chan_init_def)
  moreover have "chan_namebuf ''#a'' = ''#a''"
    by (simp add: chan_namebuf_def bad_channel_char_def CHANNELLEN_def)
  ultimately have "fst (make_channel ''#a'' (chan_init (init_hash [] [] []))) = made_state ''#a'' (chan_init (init_hash [] [] []))"
    by (simp add: make_channel_cases)
  then show "heap_channel demo_empty = [0 \<mapsto> demo_channel]" "heap_user demo_empty = [7 \<mapsto> demo_user]" "heap_mship demo_empty = (\<lambda>_. None)"
    by (simp_all add: demo_empty_def made_state_def chan_init_def demo_channel_def)
qed

lemma demo_empty_reach: "chan_reach demo_empty"
proof -
  have "chan_reach (fst (make_channel ''#a'' (chan_init (init_hash [] [] []))))"
    by (rule chan_reach.step [OF chan_reach.init chan_step.make])
  moreover have "heap_user (fst (make_channel ''#a'' (chan_init (init_hash [] [] [])))) = (\<lambda>_. None)"
    by (simp add: make_channel_cases made_state_def chan_init_def split: option.splits)
  then have "chan_step (fst (make_channel ''#a'' (chan_init (init_hash [] [] [])))) demo_empty"
    unfolding demo_empty_def demo_user_def
    using chan_step.new_user [of "fst (make_channel ''#a'' (chan_init (init_hash [] [] [])))" 7 True True] by simp
  ultimately show ?thesis
    by (rule chan_reach.step)
qed

lemma demo_joined:
  obtains st where "chan_reach st" "add_user_to_channel member_modes 0 7 ''o'' demo_empty = Inr st" "access st 7 0 = Some ''o''"
    "heap_user st 7 \<noteq> None" "heap_channel st 0 \<noteq> None"
proof -
  have out: "access demo_empty 7 0 = None"
    by (simp add: access_def demo_empty_heaps demo_user_def)
  have "addlettertomstring member_modes [] (CHR ''o'') = ''o''"
    by code_simp
  then obtain st where st: "add_user_to_channel member_modes 0 7 ''o'' demo_empty = Inr st" "access st 7 0 = Some ''o''"
      "dom (heap_user st) = dom (heap_user demo_empty)" "dom (heap_channel st) = dom (heap_channel demo_empty)"
    using add_user_access [OF chan_reach_inv [OF demo_empty_reach] _ _ out, of demo_user demo_channel member_modes "''o''"]
    by (auto simp: demo_empty_heaps)
  have "chan_step demo_empty st"
  proof (rule chan_step.join [OF _ _ st(1)])
    show "heap_channel demo_empty 0 \<noteq> None"
      by (simp add: demo_empty_heaps)
    show "IsMember demo_empty 7 0 = Inr False"
      by (simp add: IsMember_def demo_empty_heaps demo_user_def)
  qed
  moreover have "7 \<in> dom (heap_user st)" "0 \<in> dom (heap_channel st)"
    unfolding st(3,4) by (simp_all add: demo_empty_heaps)
  ultimately show ?thesis
    using that [OF chan_reach.step [OF demo_empty_reach]] st(1,2) by blast
qed

theorem membership_synchronized_witness:
  "\<exists>st c usr. chan_reach st \<and> add_user_to_channel member_modes 0 7 ''o'' demo_empty = Inr st \<and> heap_channel st 0 = Some c \<and> channel_ok st 0 c
     \<and> heap_user st 7 = Some usr \<and> user_ok st 7 usr"
proof -
  obtain st where st: "chan_reach st" "add_user_to_channel member_modes 0 7 ''o'' demo_empty = Inr st" "heap_user st 7 \<noteq> None" "heap_channel st 0 \<noteq> None"
    using demo_joined by metis
  then show ?thesis
    using membership_synchronized [OF st(1)] by blast
qed

text \<open>
  C6: In every reachable state the membership functions return without touching freed memory, and they implement a partial
  function from users and channels to modes: \<^verbatim>\<open>IsMember\<close>, \<^verbatim>\<open>get_channel_access\<close> and \<^verbatim>\<open>check_channel_access\<close> read it,
  a join adds the new member with its modes, a part takes it out and destroys the channel exactly if it was the last one
  and the hooks agree, and a change of a member's modes changes them for this user and this channel only.
\<close>

theorem membership_refines:
  assumes reach: "chan_reach st" and user: "heap_user st u = Some usr" and channel: "heap_channel st ch = Some c"
  shows "IsMember st u ch = Inr (access st u ch \<noteq> None)
    \<and> get_channel_access st u ch = Inr (case access st u ch of None \<Rightarrow> [] | Some modes \<Rightarrow> modes)
    \<and> check_channel_access st u ch want
        = Inr (u_IsUser usr \<and> (case access st u ch of None \<Rightarrow> False | Some modes \<Rightarrow> \<exists>x \<in> set modes. x \<in> set want))
    \<and> (access st u ch = None \<longrightarrow> (\<exists>st'. add_user_to_channel cms ch u modes st = Inr st'
         \<and> (\<forall>v ch'. access st' v ch' = (if v = u \<and> ch' = ch then Some (fold (\<lambda>l s. addlettertomstring cms s l) modes []) else access st v ch'))))
    \<and> (access st u ch \<noteq> None \<longrightarrow> (\<exists>st' d. remove_user_from_channel sd u ch st = Inr (st', d)
         \<and> (\<forall>v ch'. access st' v ch' = (if v = u \<and> ch' = ch then None else access st v ch'))
         \<and> (d \<longleftrightarrow> sd ch \<and> (\<forall>v. v \<noteq> u \<longrightarrow> access st v ch = None)) \<and> dom (heap_channel st') = dom (heap_channel st) - (if d then {ch} else {})))
    \<and> (\<exists>st'. add_member_mode cms u ch letter st = Inr st'
         \<and> (\<forall>v ch'. access st' v ch' = (if v = u \<and> ch' = ch then map_option (\<lambda>s. addlettertomstring cms s letter) (access st u ch) else access st v ch')))
    \<and> (\<exists>st'. del_member_mode u ch letter st = Inr st'
         \<and> (\<forall>v ch'. access st' v ch' = (if v = u \<and> ch' = ch then map_option (\<lambda>s. delletterfromstring s letter) (access st u ch) else access st v ch')))"
proof -
  note inv = chan_reach_inv [OF reach]
  have linked: "linked st"
    using inv by (simp add: chan_inv_def)
  have reads: "get_channel_access st u ch = Inr (case access st u ch of None \<Rightarrow> [] | Some modes \<Rightarrow> modes)
    \<and> check_channel_access st u ch want
        = Inr (u_IsUser usr \<and> (case access st u ch of None \<Rightarrow> False | Some modes \<Rightarrow> \<exists>x \<in> set modes. x \<in> set want))"
    by (rule access_reads [OF linked user])
  have some: "heap_user st u \<noteq> None"
    using user by simp
  have add: "\<exists>st'. add_user_to_channel cms ch u modes st = Inr st'
      \<and> (\<forall>v ch'. access st' v ch' = (if v = u \<and> ch' = ch then Some (fold (\<lambda>l s. addlettertomstring cms s l) modes []) else access st v ch'))"
    if "access st u ch = None"
    using add_user_access [OF inv user channel that, of cms modes] by blast
  have remove: "\<exists>st' d. remove_user_from_channel sd u ch st = Inr (st', d)
      \<and> (\<forall>v ch'. access st' v ch' = (if v = u \<and> ch' = ch then None else access st v ch'))
      \<and> (d \<longleftrightarrow> sd ch \<and> (\<forall>v. v \<noteq> u \<longrightarrow> access st v ch = None)) \<and> dom (heap_channel st') = dom (heap_channel st) - (if d then {ch} else {})"
    if member: "access st u ch \<noteq> None"
  proof -
    obtain md where md: "access st u ch = Some md"
      using member by blast
    show ?thesis
      using remove_user_access [OF inv md, of sd] by blast
  qed
  have add_mode: "\<exists>st'. add_member_mode cms u ch letter st = Inr st'
      \<and> (\<forall>v ch'. access st' v ch' = (if v = u \<and> ch' = ch then map_option (\<lambda>s. addlettertomstring cms s letter) (access st u ch) else access st v ch'))"
    using member_mode_access(1) [OF inv some, of cms ch letter] by blast
  have del_mode: "\<exists>st'. del_member_mode u ch letter st = Inr st'
      \<and> (\<forall>v ch'. access st' v ch' = (if v = u \<and> ch' = ch then map_option (\<lambda>s. delletterfromstring s letter) (access st u ch) else access st v ch'))"
    using member_mode_access(2) [OF inv some, of ch letter] by blast
  show ?thesis
    by (intro conjI impI IsMember_access [OF linked] reads [THEN conjunct1] reads [THEN conjunct2] add remove add_mode del_mode)
qed

text \<open>The operator of the demo channel leaves it.\<close>

theorem membership_refines_witness:
  "\<exists>st st'. chan_reach st \<and> get_channel_access st 7 0 = Inr ''o'' \<and> remove_user_from_channel (\<lambda>_. True) 7 0 st = Inr (st', True)
     \<and> access st' 7 0 = None \<and> heap_channel st' 0 = None"
proof -
  obtain st where st: "chan_reach st" "add_user_to_channel member_modes 0 7 ''o'' demo_empty = Inr st" "access st 7 0 = Some ''o''"
      "heap_user st 7 \<noteq> None" "heap_channel st 0 \<noteq> None"
    by (rule demo_joined)
  obtain usr c where usr: "heap_user st 7 = Some usr" "heap_channel st 0 = Some c"
    using st(4,5) by blast
  have alone: "access st v 0 = None" if "v \<noteq> 7" for v
  proof -
    have "access demo_empty v 0 = None"
      using that by (simp add: access_def demo_empty_heaps)
    moreover have "access demo_empty 7 0 = None"
      by (simp add: access_def demo_empty_heaps demo_user_def)
    then have "access st v 0 = access demo_empty v 0"
      using membership_refines [OF demo_empty_reach, of 7 demo_user 0 demo_channel undefined member_modes "''o''"] st(2) that
      by (simp add: demo_empty_heaps)
    ultimately show ?thesis
      by simp
  qed
  have "get_channel_access st 7 0 = Inr ''o''"
    using membership_refines [OF st(1) usr] st(3) by simp
  moreover have "access st 7 0 \<noteq> None \<longrightarrow> (\<exists>st' d. remove_user_from_channel (\<lambda>_. True) 7 0 st = Inr (st', d)
      \<and> (\<forall>v ch'. access st' v ch' = (if v = 7 \<and> ch' = 0 then None else access st v ch'))
      \<and> (d \<longleftrightarrow> True \<and> (\<forall>v. v \<noteq> 7 \<longrightarrow> access st v 0 = None)) \<and> dom (heap_channel st') = dom (heap_channel st) - (if d then {0} else {}))"
    using membership_refines [OF st(1) usr, where sd = "\<lambda>_. True" and want = "[]" and cms = "[]" and modes = "[]" and letter = NUL]
    by (elim conjE)
  then obtain st' d where st': "remove_user_from_channel (\<lambda>_. True) 7 0 st = Inr (st', d)"
      "\<forall>v ch'. access st' v ch' = (if v = 7 \<and> ch' = 0 then None else access st v ch')" "d \<longleftrightarrow> True \<and> (\<forall>v. v \<noteq> 7 \<longrightarrow> access st v 0 = None)"
      "dom (heap_channel st') = dom (heap_channel st) - (if d then {0} else {})"
    using st(3) by blast
  then have "d" "access st' 7 0 = None" "heap_channel st' 0 = None"
    using alone by auto
  ultimately show ?thesis
    using st(1) st'(1) by auto
qed

text \<open>
  C14: The loop by which a client that quits leaves its channels ends without a fault. Afterwards the client is on no channel and has
  an empty list, nobody else is affected, and exactly those channels are gone in which the client was the last one
  and which the hooks do not keep.
\<close>

theorem quit_leaves_channels:
  assumes reach: "chan_reach st" and user: "heap_user st u = Some usr"
  shows "\<exists>st' usr'. leave_channels sd u st = Some (Inr st') \<and> heap_user st' u = Some usr' \<and> u_channel usr' = []
    \<and> (\<forall>v ch. access st' v ch = (if v = u then None else access st v ch))
    \<and> dom (heap_channel st') = {ch \<in> dom (heap_channel st). access st u ch = None \<or> \<not> sd ch \<or> (\<exists>v. v \<noteq> u \<and> access st v ch \<noteq> None)}"
  using leave_channels_access [OF chan_reach_inv [OF reach] user, of sd] by blast

theorem quit_leaves_channels_witness:
  "\<exists>st st'. chan_reach st \<and> access st 7 0 = Some ''o'' \<and> leave_channels (\<lambda>_. False) 7 st = Some (Inr st') \<and> access st' 7 0 = None
     \<and> heap_channel st' 0 \<noteq> None"
proof -
  obtain st where st: "chan_reach st" "add_user_to_channel member_modes 0 7 ''o'' demo_empty = Inr st" "access st 7 0 = Some ''o''"
      "heap_user st 7 \<noteq> None" "heap_channel st 0 \<noteq> None"
    by (rule demo_joined)
  obtain usr where usr: "heap_user st 7 = Some usr"
    using st(4) by blast
  obtain st' where st': "leave_channels (\<lambda>_. False) 7 st = Some (Inr st')" "\<forall>v ch. access st' v ch = (if v = 7 then None else access st v ch)"
      "dom (heap_channel st') = {ch \<in> dom (heap_channel st). access st 7 ch = None \<or> \<not> False \<or> (\<exists>v. v \<noteq> 7 \<and> access st v ch \<noteq> None)}"
    using quit_leaves_channels [OF st(1) usr, of "\<lambda>_. False"] by blast
  have "0 \<in> dom (heap_channel st')"
    unfolding st'(3) using st(5) by auto
  then show ?thesis
    using st(1,3) st'(1,2) by auto
qed

lemma valid_namebuf:
  assumes "valid_channelname allowed name = Inr True"
  shows "chan_namebuf name = name" "name \<noteq> []"
proof -
  have ok: "length name \<le> CHANNELLEN" "\<not> list_ex bad_channel_char name" "c_at name 0 = CHR ''#''"
    using assms by (auto simp: valid_channelname_def list_ex_iff split: if_splits)
  show "name \<noteq> []"
    using ok(3) by (auto simp: c_at_def)
  show "chan_namebuf name = name"
    using ok(1,2) by (simp add: chan_namebuf_def takeWhile_eq_all_conv list_ex_iff)
qed

text \<open>
  C28: With a name that \<^verbatim>\<open>valid_channelname\<close> accepts, \<^verbatim>\<open>make_channel\<close> gives a channel of that name, which is found by the name
  and which is the one that the next call gives; no other channel has a name that compares equal.
\<close>

theorem make_channel_by_name:
  assumes reach: "chan_reach st" and valid: "valid_channelname allowed name = Inr True"
  shows "\<exists>st' ch. make_channel name st = (st', Some ch) \<and> chan_reach st' \<and> heap_channel st' ch \<noteq> None \<and> smycmp name (chname st' ch) = 0
    \<and> find_channel (chname st') (chan_hash st') name = Some ch \<and> make_channel name st' = (st', Some ch)
    \<and> (\<forall>ch'. heap_channel st' ch' \<noteq> None \<longrightarrow> smycmp name (chname st' ch') = 0 \<longrightarrow> ch' = ch)"
proof -
  note buf = valid_namebuf [OF valid]
  obtain st' ch where st': "make_channel name st = (st', Some ch)" "chan_inv st'" "ch \<in> dom (heap_channel st')" "smycmp name (chname st' ch) = 0"
    using make_channel_inv [OF chan_reach_inv [OF reach] buf(2)] unfolding buf(1) by blast
  have "chan_reach st'"
    using chan_reach.step [OF reach chan_step.make [of st name]] st'(1) by simp
  have reg: "chans_registered st'"
    using st'(2) by (simp add: chan_inv_def)
  have cstr: "cstr name"
    using cstr_namebuf [of name] buf(1) by simp
  have unique: "ch' = ch" if "ch' \<in> dom (heap_channel st')" "smycmp name (chname st' ch') = 0" for ch'
  proof -
    have "cstr (chname st' ch)" "cstr (chname st' ch')"
      using reg st'(3) that(1) unfolding chans_registered_def by blast+
    then have "smycmp (chname st' ch) (chname st' ch') = 0"
      using st'(4) that(2) cstr by (simp add: smycmp_fold)
    then show ?thesis
      using reg st'(3) that(1) unfolding chans_registered_def by blast
  qed
  have found: "find_channel (chname st') (chan_hash st') name = Some ch"
    using find_channel_iff [OF reg cstr] st'(3,4) unique by (metis option.exhaust)
  then have "make_channel name st' = (st', Some ch)"
    using make_channel_cases [OF buf(2), of st'] unfolding buf(1) by simp
  then show ?thesis
    using st' \<open>chan_reach st'\<close> found unique by blast
qed

theorem make_channel_by_name_witness:
  "valid_channelname ALLOWED_CHANNELCHARS_UTF8 ''#Test'' = Inr True
   \<and> (\<exists>st' ch. make_channel ''#Test'' demo_empty = (st', Some ch) \<and> find_channel (chname st') (chan_hash st') ''#Test'' = Some ch)"
proof -
  have valid: "valid_channelname ALLOWED_CHANNELCHARS_UTF8 ''#Test'' = Inr True"
    by code_simp
  show ?thesis
    using make_channel_by_name [OF demo_empty_reach valid] valid by blast
qed

end
