(* ===== verification/Spec2Isabelle.thy ===== *)
theory Spec2Isabelle
  imports Dbuf Glob Base64 Natsort Varstring Hash Crule_Safety Utf8 Parse_Queue Cmode_Isupport Channel_Access
begin

text \<open>
  \<^bold>\<open>UnrealIRCd: the path of a message through the server, the channels, and the libraries below them.\<close>

  The program is an IRC server. Bytes from a connection are appended to its receive queue
  (\<^verbatim>\<open>src/dbuf.c\<close>), cut into lines and parsed (\<^verbatim>\<open>src/parse.c\<close>): message tags are taken off
  (\<^verbatim>\<open>src/modules/message-tags.c\<close>), the sender is looked up in the hash tables
  (\<^verbatim>\<open>src/hash.c\<close>), the command in the command table (\<^verbatim>\<open>src/api-command.c\<close>), the access of
  the caller is checked, and the command function or the chain of its overrides
  (\<^verbatim>\<open>src/modules.c\<close>) is called. Command functions decide with wildcard masks
  (\<^verbatim>\<open>src/match.c\<close>), operator permissions (\<^verbatim>\<open>src/operclass.c\<close>) and rules
  (\<^verbatim>\<open>src/modules/crule.c\<close>), and build their answers with the string library
  (\<^verbatim>\<open>src/support.c\<close>, \<^verbatim>\<open>src/utf8.c\<close>, \<^verbatim>\<open>src/list.c\<close>). The state they work on is mostly that of channels
  (\<^verbatim>\<open>src/channel.c\<close>): who is in which channel with which modes, and the channel modes that
  modules register (\<^verbatim>\<open>src/api-channelmode.c\<close>). File names are relative to the
  directory \<^verbatim>\<open>src\<close> of the sources.

  \<^bold>\<open>Conventions.\<close> A C string is the list of its bytes without the final NUL
  (\<open>cstring\<close>); reading the NUL itself is \<^const>\<open>c_at\<close>. The server is compiled with unsigned
  characters. A struct is a record of the fields that the modelled code reads or writes, an
  enumeration a datatype; pointers that matter for aliasing or identity are addresses into
  a store, other lists are HOL lists. Counters that wrap in the code are words; times and
  counts that cannot reach their limits are integers. An operation that can crash or run into
  an assertion returns a value of \<open>fault + 'a\<close>. Code that is reached through function
  pointers (command functions, hooks, callbacks) or belongs to libraries is a parameter.

  \<^bold>\<open>The theories.\<close>

  \<^item> \<^verbatim>\<open>Irc_Prelude\<close>: strings, faults, the collections of rewrite rules. \<^verbatim>\<open>Ctype\<close>: the character
    tables and macros of \<^verbatim>\<open>match.c\<close> and \<^verbatim>\<open>include/common.h\<close>.
  \<^item> \<^verbatim>\<open>Dbuf\<close>: the block queues of \<^verbatim>\<open>dbuf.c\<close>, refined by a byte stream. \<^const>\<open>dbuf_getmsg\<close> returns
    the next line of the stream however it is spread over the blocks.
  \<^item> \<^verbatim>\<open>Glob\<close>: \<^const>\<open>match_simple\<close>, \<^const>\<open>match_esc\<close> and \<^const>\<open>collapse\<close>. The pointer loops
    return on every input and decide the declarative match relation; collapsing keeps it.
  \<^item> \<^verbatim>\<open>Support\<close>, \<^verbatim>\<open>Base64\<close>, \<^verbatim>\<open>Natsort\<close>, \<^verbatim>\<open>Varstring\<close>: tokenizers, bounded copies, paths,
    address expansion, base64, natural order, variable substitution and URL encoding.
  \<^item> \<^verbatim>\<open>Lists\<close>: the intrusive lists of \<^verbatim>\<open>list.c\<close> on an explicit heap, refined by HOL lists, and
    the binary search in the option tables of \<^verbatim>\<open>conf.c\<close>.
  \<^item> \<^verbatim>\<open>Hash\<close>: SipHash and the tables of clients, ids and channels; in every state that additions
    and removals lead to, a lookup finds exactly the registered entry.
  \<^item> \<^verbatim>\<open>Utf8\<close>: the validator accepts exactly well-formed UTF-8; the repair and the cutting of long
    messages keep it.
  \<^item> \<^verbatim>\<open>Operclass\<close>: access lists of operator classes, their inheritance and validators.
  \<^item> \<^verbatim>\<open>Crule_Funcs\<close>, \<^verbatim>\<open>Crule\<close>, \<^verbatim>\<open>Crule_Grammar\<close>, \<^verbatim>\<open>Crule_Safety\<close>: the rule language. The
    parser returns for every input, reads back every printed rule with its meaning, and builds
    trees whose evaluation is safe; the inputs for which it does fault are characterised.
  \<^item> \<^verbatim>\<open>Mtags\<close>, \<^verbatim>\<open>Command\<close>: message tags with their escapes and handlers; the command table with
    registration, removal and overrides, and the contract of lookup as a locale.
  \<^item> \<^verbatim>\<open>Parse\<close>: the model of \<^verbatim>\<open>parse.c\<close>, from \<^const>\<open>process_packet\<close> to the call of the command
    function, on a store of clients. \<^verbatim>\<open>Parse_Lines\<close>: one line, its parameters, the access
    checks and the bounds of the parameter array. \<^verbatim>\<open>Parse_Queue\<close>: the loop over the receive
    queue returns and leaves no line that could be served, input limits hold, and fake lag
    bounds the rate of commands.
  \<^item> \<^verbatim>\<open>Channel_Modes\<close>: modes, prefixes and ranks of members, the mode line of a channel
    (\<^const>\<open>channel_modes\<close>) and its parser (\<^const>\<open>parse_chanmode\<close>), which read each other back.
    \<^verbatim>\<open>Cmode_Registry\<close>: the registration of channel modes by modules. Whatever is registered,
    unregistered, set and unset, letters, bits and parameter slots have one owner, and no channel
    or member keeps a mode that is gone. \<^verbatim>\<open>Cmode_Isupport\<close>: the strings that announce the modes fit
    their buffers, agree with the parser and are sorted by rank.
  \<^item> \<^verbatim>\<open>Channel_Members\<close>: channels, members and memberships on an explicit heap in which freed
    structures are absent, with joining, leaving, quitting, creation and destruction, and the
    invariant that ties the two sides of a membership together. \<^verbatim>\<open>Channel_Access\<close>: the operations never touch
    freed memory and implement a partial function from users and channels to modes; the
    states are those that the operations lead to from start-up.

  \<^bold>\<open>Interfaces.\<close> The locales of the development are the contracts between these parts: the
  byte queue, the two wildcard dialects, the hash table, the command lookup. Each is
  interpreted on the model's own definitions, and the clients' lemmas are proved inside it.

  \<^bold>\<open>Loops and fuel.\<close> Loops that the code bounds by the length of their input are recursive
  functions with a measure. The matching loops, the list walks and the queue loop of
  \<^const>\<open>parse_client_queued\<close> have no bound in the code; they are partial functions into
  \<open>option\<close>, and separate lemmas show that they return. The rule parser takes fuel:
  every call consumes a token or is one of at most five calls between two tokens, so that
  \<^const>\<open>parse_fuel\<close>, six calls for each character and six more, is never used up. The walk through parent
  classes is bounded by the counter of the code, eleven classes.

  \<^bold>\<open>Not modelled.\<close> Sockets, TLS, DNS, HTTP clients and the event loop (\<^verbatim>\<open>socket.c\<close>,
  \<^verbatim>\<open>tls.c\<close>, \<^verbatim>\<open>dns.c\<close>, \<^verbatim>\<open>url_*.c\<close>, \<^verbatim>\<open>dispatch.c\<close>) are input and output over system
  libraries. The configuration file (\<^verbatim>\<open>conf.c\<close>), logging and JSON (\<^verbatim>\<open>log.c\<close>,
  \<^verbatim>\<open>json.c\<close>), module loading and the module manager, random numbers, password hashing and the
  encrypted databases depend on the file system or on external libraries. Server linking
  (\<^verbatim>\<open>serv.c\<close>, \<^verbatim>\<open>modules/server.c\<close>), server bans (\<^verbatim>\<open>modules/tkl.c\<close>) and the command
  functions themselves are parameters of the parser here.
\<close>

end
